(* ===== verification/Prelude.thy ===== *)
theory Prelude
  imports Main "HOL-Library.Word"
begin

text \<open>
  Shared vocabulary of the development: the machine integer types the sources use, the
  exceptions they throw as values, little-endian byte views of words (the sources read arrays
  of \<open>uint64_t\<close> through \<open>std::byte *\<close>), and facts on common prefixes of bit strings that the
  label and the trie theories share.
\<close>

unbundle bit_operations_syntax

type_synonym byte = "8 word"
type_synonym u32 = "32 word"
type_synonym u64 = "64 word"

named_theorems word_bits \<open>bitwise characterisations of the word operations of the model\<close>

section \<open>Exceptions as values\<close>

text \<open>
  The C++ sources throw \<open>std::runtime_error\<close>, \<open>std::invalid_argument\<close> and \<open>std::logic_error\<close>.
  A computation that may throw returns a value of a sum type: \<open>Inl\<close> the exception, \<open>Inr\<close> the
  result.
\<close>

datatype ozks_error =
    RuntimeError string
  | InvalidArgument string
  | LogicError string

type_synonym 'a result = "ozks_error + 'a"

definition is_ok :: "'a result \<Rightarrow> bool" where
  "is_ok r = (case r of Inl _ \<Rightarrow> False | Inr _ \<Rightarrow> True)"

lemma is_ok_simps [simp]: "is_ok (Inr x)" "\<not> is_ok (Inl e)"
  by (simp_all add: is_ok_def)

lemma is_okE: "is_ok r \<Longrightarrow> (\<And>x. r = Inr x \<Longrightarrow> P) \<Longrightarrow> P"
  by (cases r) (auto simp: is_ok_def)

section \<open>Little-endian words\<close>

text \<open>
  \<open>le_bytes n w\<close> are the \<open>n\<close> bytes of \<open>w\<close> in memory order on a little-endian machine,
  \<open>le_word bs\<close> is the word whose memory representation starts with \<open>bs\<close>.
\<close>

definition le_bytes :: "nat \<Rightarrow> 'a::len word \<Rightarrow> byte list" where
  "le_bytes n w = map (\<lambda>i. ucast (drop_bit (8 * i) w)) [0..<n]"

primrec le_word :: "byte list \<Rightarrow> 'a::len word" where
  "le_word [] = 0"
| "le_word (b # bs) = ucast b OR push_bit 8 (le_word bs)"

lemma length_le_bytes [simp]: "length (le_bytes n w) = n"
  by (simp add: le_bytes_def)

lemma bit_le_bytes [word_bits]:
  assumes "i < n"
  shows "bit (le_bytes n w ! i) j = (j < 8 \<and> bit w (8 * i + j))"
  using assms
  by (auto simp: le_bytes_def bit_simps dest: bit_imp_le_length)

lemma bit_le_word [word_bits]:
  assumes "n < LENGTH('a::len)"
  shows "bit (le_word bs :: 'a word) n = (n < 8 * length bs \<and> bit (bs ! (n div 8)) (n mod 8))"
  using assms
proof (induction bs arbitrary: n)
  case Nil
  then show ?case by simp
next
  case (Cons b bs)
  show ?case
  proof (cases "n < 8")
    case True
    then show ?thesis using Cons.prems by (simp add: bit_simps)
  next
    case False
    then obtain m where m: "n = m + 8" by (metis add.commute le_Suc_ex not_less)
    have "\<not> bit b n" using False by (auto dest: bit_imp_le_length)
    moreover have "(m + 8) div 8 = Suc (m div 8)" by simp
    ultimately show ?thesis using Cons.IH [of m] Cons.prems m
      by (simp add: bit_simps del: div_add_self2)
  qed
qed

lemma le_word_le_bytes:
  assumes "LENGTH('a::len) \<le> 8 * n"
  shows "le_word (le_bytes n (w :: 'a word)) = w"
proof (rule bit_word_eqI)
  fix k assume k: "k < LENGTH('a)"
  then have "k div 8 < n" using assms by auto
  then show "bit (le_word (le_bytes n w) :: 'a word) k = bit w k"
    using k assms by (simp add: bit_le_word bit_le_bytes)
qed

lemma le_bytes_le_word:
  assumes "8 * length bs \<le> LENGTH('a::len)"
  shows "le_bytes (length bs) (le_word bs :: 'a word) = bs"
proof (rule nth_equalityI)
  fix i assume "i < length (le_bytes (length bs) (le_word bs :: 'a word))"
  then have i: "i < length bs" by simp
  show "le_bytes (length bs) (le_word bs :: 'a word) ! i = bs ! i"
  proof (rule bit_word_eqI)
    fix k assume k: "k < LENGTH(8)"
    then have "8 * i + k < LENGTH('a)" "8 * i + k < 8 * length bs" using i assms by auto
    then show "bit (le_bytes (length bs) (le_word bs :: 'a word) ! i) k = bit (bs ! i) k"
      using i k by (simp add: bit_le_bytes bit_le_word)
  qed
qed simp

text \<open>The bytes of an array of 64-bit words, as \<open>reinterpret_cast<std::byte *>\<close> shows them.\<close>

definition words_bytes :: "u64 list \<Rightarrow> byte list" where
  "words_bytes ws = concat (map (le_bytes 8) ws)"

lemma length_concat_le_bytes [simp]: "length (words_bytes ws) = 8 * length ws"
  by (induction ws) (simp_all add: words_bytes_def)

lemma nth_concat_map:
  assumes "\<And>x. x \<in> set xs \<Longrightarrow> length (f x) = n" "0 < n" "i < n * length xs"
  shows "concat (map f xs) ! i = f (xs ! (i div n)) ! (i mod n)"
  using assms
proof (induction xs arbitrary: i)
  case (Cons x xs)
  show ?case
  proof (cases "i < n")
    case False
    then have "concat (map f xs) ! (i - n) = f (xs ! ((i - n) div n)) ! ((i - n) mod n)"
      using Cons.prems by (intro Cons.IH) auto
    moreover have "(i - n) mod n = i mod n" "i div n = Suc ((i - n) div n)"
      using False Cons.prems by (auto simp: le_mod_geq le_div_geq)
    ultimately show ?thesis using False Cons.prems by (simp add: nth_append)
  qed (use Cons.prems in \<open>simp add: nth_append\<close>)
qed simp

lemma nth_words_bytes:
  "i < 8 * length ws \<Longrightarrow> words_bytes ws ! i = le_bytes 8 (ws ! (i div 8)) ! (i mod 8)"
  unfolding words_bytes_def by (rule nth_concat_map) simp_all

lemma chunk_words_bytes:
  "k < length ws \<Longrightarrow> take 8 (drop (8 * k) (words_bytes ws @ xs)) = le_bytes 8 (ws ! k)"
proof (induction ws arbitrary: k)
  case (Cons w ws)
  then show ?case by (cases k) (simp_all add: words_bytes_def)
qed simp

lemma chunk_words_bytes0:
  "k < length ws \<Longrightarrow> take 8 (drop (8 * k) (words_bytes ws)) = le_bytes 8 (ws ! k)"
  using chunk_words_bytes [of k ws "[]"] by simp

lemma concat_chunks:
  "length b = m * n \<Longrightarrow> concat (map (\<lambda>k. take m (drop (m * k) b)) [0..<n]) = b"
proof (induction n arbitrary: b)
  case (Suc n)
  have "take m (drop (m * k) b) = take m (drop (m * k) (take (m * n) b))" if "k < n" for k
  proof -
    have "m * Suc k \<le> m * n" using that by (intro mult_le_mono2) simp
    then show ?thesis by (simp add: drop_take)
  qed
  then have "map (\<lambda>k. take m (drop (m * k) b)) [0..<n] =
      map (\<lambda>k. take m (drop (m * k) (take (m * n) b))) [0..<n]"
    by (intro map_cong [OF refl]) auto
  moreover have "concat (map (\<lambda>k. take m (drop (m * k) (take (m * n) b))) [0..<n]) = take (m * n) b"
    using Suc.prems by (intro Suc.IH) simp
  ultimately have "concat (map (\<lambda>k. take m (drop (m * k) b)) [0..<n]) = take (m * n) b"
    by (simp only:)
  then show ?case using Suc.prems by (simp add: append_take_drop_id)
qed simp

lemma words_bytes_le_word:
  assumes "length b = 8 * n"
  shows "words_bytes (map (\<lambda>k. le_word (take 8 (drop (8 * k) b))) [0..<n]) = b"
proof -
  have "le_bytes 8 (le_word (take 8 (drop (8 * k) b)) :: u64) = take 8 (drop (8 * k) b)"
    if "k < n" for k
  proof -
    have "length (take 8 (drop (8 * k) b)) = 8" using that assms by auto
    then show ?thesis using le_bytes_le_word [of "take 8 (drop (8 * k) b)", where 'a = 64] by simp
  qed
  then have "map (\<lambda>k. le_bytes 8 (le_word (take 8 (drop (8 * k) b)) :: u64)) [0..<n] =
      map (\<lambda>k. take 8 (drop (8 * k) b)) [0..<n]"
    by (intro map_cong [OF refl]) auto
  with concat_chunks [OF assms] show ?thesis by (simp only: words_bytes_def map_map comp_def)
qed

section \<open>Common prefixes of bit strings\<close>

fun lcp :: "'a list \<Rightarrow> 'a list \<Rightarrow> 'a list" where
  "lcp (x # xs) (y # ys) = (if x = y then x # lcp xs ys else [])"
| "lcp _ _ = []"

definition is_prefix :: "'a list \<Rightarrow> 'a list \<Rightarrow> bool" where
  "is_prefix xs ys = (take (length xs) ys = xs)"

lemma lcp_sym: "lcp xs ys = lcp ys xs"
  by (induction xs ys rule: lcp.induct) auto

lemma length_lcp: "length (lcp xs ys) \<le> length xs \<and> length (lcp xs ys) \<le> length ys"
  by (induction xs ys rule: lcp.induct) auto

lemma lcp_take: "lcp xs ys = take (length (lcp xs ys)) xs"
  by (induction xs ys rule: lcp.induct) auto

lemma lcp_append [simp]: "lcp (ps @ xs) (ps @ ys) = ps @ lcp xs ys"
  by (induction ps) auto

lemma lcp_diff: "x \<noteq> y \<Longrightarrow> lcp (ps @ x # xs) (ps @ y # ys) = ps"
  by simp

text \<open>The prefix is longest: it ends where one string ends or where the two differ.\<close>

lemma lcp_cases:
  obtains (left) "xs = lcp xs ys" "is_prefix xs ys"
  | (right) "ys = lcp xs ys" "is_prefix ys xs"
  | (split) x y xs' ys' where "xs = lcp xs ys @ x # xs'" "ys = lcp xs ys @ y # ys'" "x \<noteq> y"
proof -
  have "xs = lcp xs ys \<and> is_prefix xs ys \<or> ys = lcp xs ys \<and> is_prefix ys xs \<or>
    (\<exists>x y xs' ys'. xs = lcp xs ys @ x # xs' \<and> ys = lcp xs ys @ y # ys' \<and> x \<noteq> y)"
  proof (induction xs ys rule: lcp.induct)
    case (1 x xs y ys)
    show ?case
    proof (cases "x = y")
      case True
      with "1.IH" show ?thesis by (auto simp: is_prefix_def)
    next
      case False
      then have "x # xs = lcp (x # xs) (y # ys) @ x # xs \<and>
        y # ys = lcp (x # xs) (y # ys) @ y # ys \<and> x \<noteq> y" by simp
      then show ?thesis by blast
    qed
  qed (auto simp: is_prefix_def)
  then show ?thesis using that by blast
qed

text \<open>The characterisation by positions that a loop over machine words establishes.\<close>

lemma lcp_unique:
  assumes "n \<le> length xs" "n \<le> length ys" "\<And>i. i < n \<Longrightarrow> xs ! i = ys ! i"
    and "n < length xs \<Longrightarrow> n < length ys \<Longrightarrow> xs ! n \<noteq> ys ! n"
  shows "lcp xs ys = take n xs"
  using assms
proof (induction xs ys arbitrary: n rule: lcp.induct)
  case (1 x xs y ys)
  show ?case
  proof (cases n)
    case 0
    then show ?thesis using "1.prems"(4) by simp
  next
    case (Suc m)
    then have "x = y" using "1.prems"(3) [of 0] by simp
    moreover have "lcp xs ys = take m xs"
      using "1.prems" Suc by (intro "1.IH" [OF \<open>x = y\<close>]) force+
    ultimately show ?thesis using Suc by simp
  qed
qed auto

lemma is_prefix_iff: "is_prefix xs ys = (\<exists>zs. ys = xs @ zs)"
  by (auto simp: is_prefix_def) (metis append_take_drop_id)

lemma is_prefix_refl [simp]: "is_prefix xs xs"
  by (simp add: is_prefix_def)

lemma is_prefix_append [simp]: "is_prefix xs (xs @ ys)"
  by (simp add: is_prefix_def)

lemma is_prefix_trans: "is_prefix xs ys \<Longrightarrow> is_prefix ys zs \<Longrightarrow> is_prefix xs zs"
  by (auto simp: is_prefix_iff)

lemma is_prefix_length: "is_prefix xs ys \<Longrightarrow> length xs \<le> length ys"
  by (auto simp: is_prefix_iff)

lemma is_prefix_nth: "is_prefix xs ys \<Longrightarrow> i < length xs \<Longrightarrow> ys ! i = xs ! i"
  by (auto simp: is_prefix_iff nth_append)

lemma is_prefix_lcp: "is_prefix xs ys \<Longrightarrow> lcp xs ys = xs"
  by (auto simp: is_prefix_iff) (metis append_self_conv lcp.simps(2) lcp_append)

lemma lcp_is_prefix: "is_prefix (lcp xs ys) xs" "is_prefix (lcp xs ys) ys"
  by (metis is_prefix_def lcp_sym lcp_take)+

end
