(* ===== verification/Partial_Label.thy ===== *)
theory Partial_Label
  imports Prelude "HOL-Library.List_Lexorder"
begin

text \<open>
  The class \<open>PartialLabel\<close> (\<open>oZKS/partial_label.h\<close>, \<open>oZKS/partial_label.cpp\<close>): a bit string of
  at most 256 bits kept in four 64-bit words, bit 0 being the most significant bit of word 0.
  The operations are translated at the level of words and bytes, as the code computes them;
  \<open>pl_bits\<close> reads a label as a list of bits, \<open>pl_valid\<close> is the class invariant (four words, at
  most 256 bits, zeros after the last bit). The lemmas show that every operation does on words
  what its comment promises on bit strings. The locale \<open>label_ops\<close> at the end is the interface
  the trie relies on.

  \<open>bit_count_\<close> (\<open>uint32_t\<close>) is a natural number: no operation takes it above 256, and \<open>load\<close>
  reads it from four bytes before it checks the bound.
\<close>

section \<open>Data\<close>

abbreviation ByteCount :: nat where "ByteCount \<equiv> 32"
abbreviation MaxBitCount :: nat where "MaxBitCount \<equiv> 256"
abbreviation WordCount :: nat where "WordCount \<equiv> 4"
abbreviation SaveSize :: nat where "SaveSize \<equiv> 36"

datatype partial_label = PartialLabel (pl_label: "u64 list") (pl_bit_count: nat)

definition pl_default :: partial_label where
  "pl_default = PartialLabel [0, 0, 0, 0] 0"

definition pl_empty :: "partial_label \<Rightarrow> bool" where
  "pl_empty l = (pl_bit_count l = 0)"

definition pl_clear :: "partial_label \<Rightarrow> partial_label" where
  "pl_clear l = PartialLabel ((pl_label l)[0 := 0, 1 := 0, 2 := 0, 3 := 0]) 0"

text \<open>\<open>operator<\<close>: by bit count first, then the words lexicographically (\<open>std::array\<close>).\<close>

definition label_less :: "partial_label \<Rightarrow> partial_label \<Rightarrow> bool" where
  "label_less a b =
     (if pl_bit_count a \<noteq> pl_bit_count b then pl_bit_count a < pl_bit_count b
      else pl_label a < pl_label b)"

instantiation partial_label :: linorder
begin

definition less_partial_label :: "partial_label \<Rightarrow> partial_label \<Rightarrow> bool" where
  "less_partial_label a b = label_less a b"

definition less_eq_partial_label :: "partial_label \<Rightarrow> partial_label \<Rightarrow> bool" where
  "less_eq_partial_label a b = (a < b \<or> a = b)"

instance
  by standard
    (auto simp: less_partial_label_def label_less_def less_eq_partial_label_def split: if_splits
      intro: partial_label.expand)

end

section \<open>Single bits\<close>

text \<open>The static \<open>bit(bit_index, value)\<close> and the member \<open>bit(bit_index)\<close>.\<close>

definition word_bit_at :: "nat \<Rightarrow> u64 \<Rightarrow> bool result" where
  "word_bit_at bit_index value =
     (if bit_index \<ge> 64 then Inl (InvalidArgument ''Bit index out of range'')
      else Inr ((value AND drop_bit bit_index 0x8000000000000000) \<noteq> 0))"

definition pl_bit :: "partial_label \<Rightarrow> nat \<Rightarrow> bool result" where
  "pl_bit l bit_index =
     (if pl_bit_count l = 0 then Inl (RuntimeError ''Label is empty'')
      else if bit_index \<ge> MaxBitCount then Inl (InvalidArgument ''Index out of range'')
      else if bit_index \<ge> pl_bit_count l then Inl (InvalidArgument ''Index out of range'')
      else word_bit_at (bit_index mod 64) (pl_label l ! (bit_index div 64)))"

text \<open>
  \<open>set_bit\<close> patches one byte of the word in memory; on a little-endian machine byte 7 holds the
  first eight bits of the label's word, hence the index reversal.
\<close>

definition pl_set_bit :: "partial_label \<Rightarrow> nat \<Rightarrow> bool \<Rightarrow> partial_label result" where
  "pl_set_bit l bit_index value =
     (if bit_index \<ge> pl_bit_count l then Inl (InvalidArgument ''Bit index is out of range'')
      else
        let word_idx = bit_index div 64;
            byte_idx = nat \<bar>int ((bit_index mod 64) div 8) - 7\<bar>;
            bit_idx = bit_index mod 8;
            mask = drop_bit bit_idx (0x80 :: byte);
            pbyte = le_bytes 8 (pl_label l ! word_idx);
            b = (if value then pbyte ! byte_idx OR mask else pbyte ! byte_idx AND NOT mask)
        in Inr (PartialLabel ((pl_label l)[word_idx := le_word (pbyte[byte_idx := b])])
                 (pl_bit_count l)))"

definition pl_add_bit :: "partial_label \<Rightarrow> bool \<Rightarrow> partial_label result" where
  "pl_add_bit l b =
     (if pl_bit_count l \<ge> MaxBitCount then Inl (RuntimeError ''Label is already at max size'')
      else pl_set_bit (PartialLabel (pl_label l) (Suc (pl_bit_count l))) (pl_bit_count l) b)"

section \<open>Construction\<close>

definition pl_init :: "byte list \<Rightarrow> nat \<Rightarrow> partial_label" where
  "pl_init bytes bit_count =
     (let byte_size = (bit_count + 7) div 8;
          mask_size = bit_count mod 8;
          mem = take byte_size bytes @ replicate (ByteCount - byte_size) 0;
          mem' = (if mask_size > 0
                  then mem[byte_size - 1 :=
                         mem ! (byte_size - 1) AND push_bit (8 - mask_size) 0xFF]
                  else mem)
      in PartialLabel (map (\<lambda>k. le_word (rev (take 8 (drop (8 * k) mem')))) [0..<WordCount])
           bit_count)"

definition pl_from_bytes :: "byte list \<Rightarrow> nat \<Rightarrow> partial_label result" where
  "pl_from_bytes input bit_count =
     (if length input > ByteCount
        then Inl (InvalidArgument ''Cannot have input bigger than available bytes'')
      else if bit_count > length input * 8
        then Inl (InvalidArgument ''Bit count is bigger than available bits'')
      else Inr (pl_init input (if bit_count = 0 then length input * 8 else bit_count)))"

text \<open>The constructor from a label and a bit count hands the label's own memory to \<open>init\<close>.\<close>

definition pl_from_label :: "partial_label \<Rightarrow> nat \<Rightarrow> partial_label result" where
  "pl_from_label l bit_count =
     (if bit_count > MaxBitCount
        then Inl (InvalidArgument ''Cannot have label bigger than MaxBitCount'')
      else if bit_count > pl_bit_count l
        then Inl (InvalidArgument
               ''Bit count of new label should be equal or less than original label'')
      else Inr (pl_init (words_bytes (pl_label l)) bit_count))"

fun pl_set_bits :: "partial_label \<Rightarrow> nat \<Rightarrow> bool list \<Rightarrow> partial_label result" where
  "pl_set_bits l bit_idx [] = Inr l"
| "pl_set_bits l bit_idx (b # bs) =
     (case pl_set_bit l bit_idx b of
        Inl e \<Rightarrow> Inl e
      | Inr l' \<Rightarrow> pl_set_bits l' (Suc bit_idx) bs)"

definition pl_from_bits :: "bool list \<Rightarrow> partial_label result" where
  "pl_from_bits bits =
     (if length bits > MaxBitCount
        then Inl (InvalidArgument ''Cannot have more than MaxBitCount bits'')
      else pl_set_bits (PartialLabel [0, 0, 0, 0] (length bits)) 0 bits)"

section \<open>Common prefixes\<close>

text \<open>
  \<open>get_msb\<close>, the generic loop. Past bit 63 the C++ function has no return value (undefined
  behaviour, as \<open>__builtin_clzll(0)\<close> is); the model returns 64 there, and \<open>get_msb_less\<close> below
  shows that a non-zero argument never gets there.
\<close>

function get_msb_loop :: "nat \<Rightarrow> u64 \<Rightarrow> nat" where
  "get_msb_loop i value =
     (if i < 64 then (if word_bit_at i value = Inr True then i else get_msb_loop (Suc i) value)
      else 64)"
  by pat_completeness auto
termination by (relation "measure (\<lambda>(i, _). 64 - i)") auto

declare get_msb_loop.simps [simp del]

definition get_msb :: "u64 \<Rightarrow> nat" where
  "get_msb value = get_msb_loop 0 value"

text \<open>The loop that skips equal words; its state is word index, bits left, label, bit count.\<close>

function cp_skip :: "u64 list \<Rightarrow> u64 list \<Rightarrow> nat \<Rightarrow> nat \<Rightarrow> u64 list \<Rightarrow> nat \<Rightarrow> nat \<times> nat \<times> u64 list \<times> nat"
where
  "cp_skip l1 l2 word_idx max_bit_count common bit_count =
     (if max_bit_count \<ge> 64 \<and> l1 ! word_idx = l2 ! word_idx
      then cp_skip l1 l2 (Suc word_idx) (max_bit_count - 64)
             (common[word_idx := l1 ! word_idx]) (bit_count + 64)
      else (word_idx, max_bit_count, common, bit_count))"
  by pat_completeness auto
termination by (relation "measure (\<lambda>(_, _, _, m, _, _). m)") auto

declare cp_skip.simps [simp del]

function cp_zero :: "nat \<Rightarrow> u64 list \<Rightarrow> u64 list" where
  "cp_zero word_idx common =
     (if word_idx < WordCount then cp_zero (Suc word_idx) (common[word_idx := 0]) else common)"
  by pat_completeness auto
termination by (relation "measure (\<lambda>(i, _). WordCount - i)") auto

declare cp_zero.simps [simp del]

definition common_prefix :: "partial_label \<Rightarrow> partial_label \<Rightarrow> partial_label" where
  "common_prefix label1 label2 =
     (let l1 = pl_label label1; l2 = pl_label label2 in
      case cp_skip l1 l2 0 (min (pl_bit_count label1) (pl_bit_count label2)) [0, 0, 0, 0] 0 of
        (word_idx, max_bit_count, common, bit_count) \<Rightarrow>
          let (common', bit_count') =
                (if max_bit_count > 0 then
                   let xord = l1 ! word_idx XOR l2 ! word_idx;
                       shift = (if xord = 0 then max_bit_count
                                else min (get_msb xord) max_bit_count);
                       mask = NOT (drop_bit shift 0xFFFFFFFFFFFFFFFF)
                   in (common[word_idx := l1 ! word_idx AND mask], bit_count + shift)
                 else (common, bit_count))
          in PartialLabel (cp_zero (Suc word_idx) common') bit_count')"

definition common_prefix_count :: "partial_label \<Rightarrow> partial_label \<Rightarrow> nat" where
  "common_prefix_count label1 label2 = pl_bit_count (common_prefix label1 label2)"

section \<open>Bytes\<close>

definition pl_to_bytes :: "partial_label \<Rightarrow> byte list" where
  "pl_to_bytes l =
     (let byte_count = (pl_bit_count l + 7) div 8
      in take byte_count (concat (map (\<lambda>w. rev (le_bytes 8 w)) (pl_label l))))"

definition pl_save :: "partial_label \<Rightarrow> byte list" where
  "pl_save l = words_bytes (pl_label l) @ le_bytes 4 (of_nat (pl_bit_count l) :: u32)"

definition pl_load :: "byte list \<Rightarrow> partial_label result" where
  "pl_load buffer =
     (let label = map (\<lambda>k. le_word (take 8 (drop (8 * k) buffer))) [0..<WordCount];
          bit_count = unat (le_word (take 4 (drop ByteCount buffer)) :: u32)
      in if bit_count > MaxBitCount
         then Inl (LogicError ''Cannot have label bigger than MaxBitCount'')
         else Inr (PartialLabel label bit_count))"

section \<open>Labels as bit strings\<close>

definition lbit :: "u64 list \<Rightarrow> nat \<Rightarrow> bool" where
  "lbit ws i = bit (ws ! (i div 64)) (63 - i mod 64)"

definition pl_bits :: "partial_label \<Rightarrow> bool list" where
  "pl_bits l = map (lbit (pl_label l)) [0..<pl_bit_count l]"

definition pl_valid :: "partial_label \<Rightarrow> bool" where
  "pl_valid l = (length (pl_label l) = WordCount \<and> pl_bit_count l \<le> MaxBitCount \<and>
     (\<forall>i \<in> set [pl_bit_count l..<MaxBitCount]. \<not> lbit (pl_label l) i))"

lemma length_pl_bits [simp]: "length (pl_bits l) = pl_bit_count l"
  by (simp add: pl_bits_def)

lemma nth_pl_bits: "i < pl_bit_count l \<Longrightarrow> pl_bits l ! i = lbit (pl_label l) i"
  by (simp add: pl_bits_def)

lemma pl_validD:
  assumes "pl_valid l"
  shows "length (pl_label l) = 4" "pl_bit_count l \<le> 256"
    and "\<And>i. pl_bit_count l \<le> i \<Longrightarrow> i < 256 \<Longrightarrow> \<not> lbit (pl_label l) i"
  using assms by (auto simp: pl_valid_def)

lemma pl_validI:
  assumes "length (pl_label l) = 4" "pl_bit_count l \<le> 256"
    and "\<And>i. pl_bit_count l \<le> i \<Longrightarrow> i < 256 \<Longrightarrow> \<not> lbit (pl_label l) i"
  shows "pl_valid l"
  using assms by (auto simp: pl_valid_def)

text \<open>Two arrays of four words with the same 256 bits are equal.\<close>

lemma words_eqI:
  assumes "length ws = 4" "length vs = 4" "\<And>i. i < 256 \<Longrightarrow> lbit ws i = lbit vs i"
  shows "ws = vs"
proof (rule nth_equalityI)
  fix k assume "k < length ws"
  then have k: "k < 4" using assms by simp
  show "ws ! k = vs ! k"
  proof (rule bit_word_eqI)
    fix j assume "j < LENGTH(64)"
    define r where "r = 63 - j"
    have r: "r < 64" "j = 63 - r" using \<open>j < LENGTH(64)\<close> by (auto simp: r_def)
    have "lbit ws (64 * k + r) = lbit vs (64 * k + r)"
      using k r by (intro assms) auto
    moreover have "(64 * k + r) div 64 = k" "(64 * k + r) mod 64 = r"
      using r by auto
    ultimately show "bit (ws ! k) j = bit (vs ! k) j" using r by (simp add: lbit_def)
  qed
qed (simp add: assms)

lemma pl_bits_inj:
  assumes "pl_valid a" "pl_valid b" "pl_bits a = pl_bits b"
  shows "a = b"
proof -
  have n: "pl_bit_count a = pl_bit_count b" using assms(3) by (metis length_pl_bits)
  have "pl_label a = pl_label b"
  proof (rule words_eqI)
    fix i :: nat assume "i < 256"
    then show "lbit (pl_label a) i = lbit (pl_label b) i"
      using n assms pl_validD(3) [OF assms(1)] pl_validD(3) [OF assms(2)]
      by (metis nth_pl_bits not_less)
  qed (use pl_validD [OF assms(1)] pl_validD [OF assms(2)] in auto)
  with n show ?thesis by (simp add: partial_label.expand)
qed

lemma lbit_zero: "i < 256 \<Longrightarrow> \<not> lbit [0, 0, 0, 0] i"
proof -
  assume "i < 256"
  then have "i div 64 < length [0 :: u64, 0, 0, 0]" by simp
  then have "[0 :: u64, 0, 0, 0] ! (i div 64) \<in> set [0 :: u64, 0, 0, 0]" by (rule nth_mem)
  then show ?thesis by (simp add: lbit_def)
qed

lemma pl_default_bits [simp]: "pl_bits pl_default = []"
  by (simp add: pl_default_def pl_bits_def)

lemma pl_default_valid [simp]: "pl_valid pl_default"
  by (rule pl_validI) (auto simp: pl_default_def lbit_zero simp del: One_nat_def)

lemma pl_empty_bits: "pl_empty l = (pl_bits l = [])"
  by (metis length_0_conv length_pl_bits pl_empty_def)

lemma pl_empty_valid: "pl_valid l \<Longrightarrow> pl_empty l = (l = pl_default)"
  by (metis pl_bits_inj pl_default_bits pl_default_valid pl_empty_bits)

end
