(* ===== verification/Label_Bits.thy ===== *)
theory Label_Bits
  imports Partial_Label
begin

text \<open>
  The operations of \<open>PartialLabel\<close> read as operations on bit strings: single bits, construction
  from bits and from bytes, common prefixes, byte images and the save / load pair; every
  operation keeps the class invariant \<open>pl_valid\<close>. The locale \<open>label_ops\<close> collects what the trie
  needs of labels and is interpreted on the operations of the class.
\<close>

section \<open>Bits of words\<close>

lemma bit_push_1:
  "n < LENGTH('a::len) \<Longrightarrow> bit (push_bit n 1 :: 'a word) k = (k = n)"
  by (auto simp: bit_push_bit_iff bit_1_iff simp del: push_bit_of_1)

lemma bit_top64: "bit (0x8000000000000000 :: u64) n = (n = 63)"
proof -
  have "(0x8000000000000000 :: u64) = push_bit 63 1" by simp
  moreover have "bit (push_bit 63 1 :: 64 word) n = (n = 63)" by (rule bit_push_1) simp
  ultimately show ?thesis by (simp only:)
qed

lemma bit_top8: "bit (0x80 :: byte) n = (n = 7)"
proof -
  have "(0x80 :: byte) = push_bit 7 1" by simp
  moreover have "bit (push_bit 7 1 :: 8 word) n = (n = 7)" by (rule bit_push_1) simp
  ultimately show ?thesis by (simp only:)
qed

lemma bit_mask8: "bit (0xFF :: byte) n = (n < 8)"
proof -
  have "(0xFF :: byte) = mask 8" by (simp add: mask_eq_exp_minus_1)
  then show ?thesis by (simp only: bit_mask_iff) simp
qed

lemma bit_mask64: "bit (0xFFFFFFFFFFFFFFFF :: u64) n = (n < 64)"
proof -
  have "(0xFFFFFFFFFFFFFFFF :: u64) = mask 64" by (simp add: mask_eq_exp_minus_1)
  then show ?thesis by (simp only: bit_mask_iff) simp
qed

lemma word_eq_0_iff: "(w :: 'a::len word) \<noteq> 0 \<longleftrightarrow> (\<exists>n. bit w n)"
  by (metis bit_0_eq bit_eqI bot_apply bot_bool_def)

lemma word_bit_at_bit: "i < 64 \<Longrightarrow> word_bit_at i v = Inr (bit v (63 - i))"
proof -
  assume i: "i < 64"
  have "bit (v AND drop_bit i 0x8000000000000000) n = (n = 63 - i \<and> bit v n)" for n
    using i by (auto simp only: bit_and_iff bit_drop_bit_eq o_apply bit_top64)
  then have "(v AND drop_bit i 0x8000000000000000 \<noteq> 0) = bit v (63 - i)"
    by (simp only: word_eq_0_iff) blast
  then show ?thesis using i by (simp add: word_bit_at_def)
qed

lemma word_bit_at_error: "64 \<le> i \<Longrightarrow> word_bit_at i v = Inl (InvalidArgument ''Bit index out of range'')"
  by (simp add: word_bit_at_def)

section \<open>Reading and writing bits\<close>

lemma pl_bit_nth: "i < pl_bit_count l \<Longrightarrow> pl_bit_count l \<le> 256 \<Longrightarrow> pl_bit l i = Inr (pl_bits l ! i)"
  by (simp add: pl_bit_def word_bit_at_bit nth_pl_bits lbit_def)

lemma pl_bit_error: "pl_bit_count l \<le> i \<Longrightarrow> \<exists>e. pl_bit l i = Inl e"
  by (auto simp: pl_bit_def)

lemma pl_bit_ok_iff: "pl_valid l \<Longrightarrow> is_ok (pl_bit l i) = (i < pl_bit_count l)"
  using pl_bit_nth [of i l] pl_bit_error [of l i] pl_validD(2) [of l]
  by (cases "i < pl_bit_count l") auto

text \<open>The byte that \<open>set_bit\<close> patches and the bit in it.\<close>

lemma div_mod8:
  assumes "n = 8 * a + b" "b < (8 :: nat)"
  shows "n div 8 = a" "n mod 8 = b"
  using assms by auto

lemma div_mod_eqI: "a div n = b div n \<Longrightarrow> a mod n = b mod n \<Longrightarrow> a = (b :: nat)"
  by (metis div_mult_mod_eq)

lemma pos_rev: "r < 64 \<Longrightarrow> 63 - r = 8 * (7 - r div 8) + (7 - r mod (8 :: nat))"
proof -
  assume "r < 64"
  then have "r div 8 \<le> 7" "r mod 8 \<le> 7" "r = 8 * (r div 8) + r mod 8" by auto
  then show ?thesis by arith
qed

lemma pos_split:
  assumes "r < (64 :: nat)"
  shows "(63 - r) div 8 = 7 - r div 8" "(63 - r) mod 8 = 7 - r mod 8"
proof -
  have "63 - r = 8 * (7 - r div 8) + (7 - r mod 8)" "7 - r mod 8 < 8"
    using assms by (simp only: pos_rev, simp)
  then show "(63 - r) div 8 = 7 - r div 8" "(63 - r) mod 8 = 7 - r mod 8"
    by (blast dest: div_mod8)+
qed

definition patch_word :: "u64 \<Rightarrow> nat \<Rightarrow> bool \<Rightarrow> u64" where
  "patch_word w r v =
     (let pbyte = le_bytes 8 w; k = nat \<bar>int (r div 8) - 7\<bar>; mask = drop_bit (r mod 8) 0x80
      in le_word (pbyte[k := (if v then pbyte ! k OR mask else pbyte ! k AND NOT mask)]))"

lemma bit_patch_word:
  assumes "r < 64" "s < 64"
  shows "bit (patch_word w r v) (63 - s) = (if s = r then v else bit w (63 - s))"
proof -
  let ?k = "7 - r div 8" and ?m = "drop_bit (r mod 8) 0x80 :: byte" and ?p = "le_bytes 8 w"
  let ?b = "if v then ?p ! ?k OR ?m else ?p ! ?k AND NOT ?m"
  have k: "nat \<bar>int (r div 8) - 7\<bar> = ?k" using assms by auto
  have m: "bit ?m n = (n = 7 - r mod 8)" for n
    by (simp only: bit_drop_bit_eq o_apply bit_top8) (use mod_less_divisor [of 8 r] in arith)
  have pos: "8 * (7 - s div 8) + (7 - s mod 8) = 63 - s" using assms by (simp only: pos_rev)
  have lt: "63 - s < LENGTH(64)" "63 - s < 8 * (8 :: nat)" by simp_all
  have pw: "bit (patch_word w r v) (63 - s) = bit (?p[?k := ?b] ! (7 - s div 8)) (7 - s mod 8)"
    using assms by (simp only: patch_word_def Let_def k)
      (simp only: bit_le_word lt pos_split length_list_update length_le_bytes simp_thms)
  have old: "bit (?p ! (7 - s div 8)) (7 - s mod 8) = bit w (63 - s)"
    by (subst bit_le_bytes, simp, simp only: pos, simp add: less_imp_diff_less)
  have new: "bit (?p[?k := ?b] ! (7 - s div 8)) (7 - s mod 8) = (if s = r then v else bit w (63 - s))"
  proof (cases "7 - s div 8 = ?k")
    case True
    have "s div 8 \<le> 7" "r div 8 \<le> 7" using assms by auto
    with True have "s div 8 = r div 8" by linarith
    moreover have "s mod 8 \<le> 7" "r mod 8 \<le> 7" by auto
    then have "(7 - s mod 8 = 7 - r mod 8) = (s mod 8 = r mod 8)" by linarith
    ultimately have "(7 - s mod 8 = 7 - r mod 8) = (s = r)"
      using div_mod_eqI [of s 8 r] by auto
    moreover have "bit (?p[?k := ?b] ! (7 - s div 8)) (7 - s mod 8) =
        (if 7 - s mod 8 = 7 - r mod 8 then v else bit (?p ! (7 - s div 8)) (7 - s mod 8))"
      unfolding True by (simp add: bit_or_iff bit_and_iff bit_not_iff m less_imp_diff_less)
    ultimately show ?thesis using old by simp
  next
    case False
    then show ?thesis using old by auto
  qed
  show ?thesis unfolding pw by (rule new)
qed

lemma pl_set_bit_patch:
  "i < pl_bit_count l \<Longrightarrow> pl_set_bit l i v =
    Inr (PartialLabel ((pl_label l)[i div 64 := patch_word (pl_label l ! (i div 64)) (i mod 64) v])
          (pl_bit_count l))"
  by (simp add: pl_set_bit_def patch_word_def Let_def mod_mod_cancel)

lemma lbit_update:
  assumes "length ws = 4" "i < 256" "j < 256"
  shows "lbit (ws[i div 64 := patch_word (ws ! (i div 64)) (i mod 64) v]) j =
    (if j = i then v else lbit ws j)"
proof (cases "j div 64 = i div 64")
  case True
  have "(j mod 64 = i mod 64) = (j = i)" using True by (metis mod_div_decomp)
  then show ?thesis using True assms by (simp add: lbit_def bit_patch_word)
next
  case False
  then show ?thesis by (auto simp: lbit_def)
qed

lemma pl_set_bit_spec:
  assumes "length (pl_label l) = 4" "pl_bit_count l \<le> 256" "i < pl_bit_count l"
  obtains l' where "pl_set_bit l i v = Inr l'" "length (pl_label l') = 4"
    "pl_bit_count l' = pl_bit_count l"
    "\<And>j. j < 256 \<Longrightarrow> lbit (pl_label l') j = (if j = i then v else lbit (pl_label l) j)"
  using assms by (auto simp: pl_set_bit_patch lbit_update)

lemma pl_add_bit_spec:
  assumes "pl_valid l" "pl_bit_count l < 256"
  obtains l' where "pl_add_bit l b = Inr l'" "pl_valid l'" "pl_bits l' = pl_bits l @ [b]"
proof -
  let ?n = "pl_bit_count l"
  let ?l = "PartialLabel (pl_label l) (Suc ?n)"
  obtain l' where l': "pl_set_bit ?l ?n b = Inr l'" "length (pl_label l') = 4"
    "pl_bit_count l' = Suc ?n"
    "\<And>j. j < 256 \<Longrightarrow> lbit (pl_label l') j = (if j = ?n then b else lbit (pl_label l) j)"
    using assms pl_validD(1) [OF assms(1)] by (rule_tac pl_set_bit_spec [of ?l ?n b]) auto
  have "pl_valid l'"
    using l' assms pl_validD(3) [OF assms(1)] by (intro pl_validI) auto
  moreover have "pl_bits l' = pl_bits l @ [b]"
  proof (rule nth_equalityI)
    fix i assume "i < length (pl_bits l')"
    then have "i < Suc ?n" using l' by simp
    then show "pl_bits l' ! i = (pl_bits l @ [b]) ! i"
      using l' assms by (auto simp: nth_append nth_pl_bits less_Suc_eq)
  qed (simp add: l')
  moreover have "pl_add_bit l b = Inr l'" using assms l' by (simp add: pl_add_bit_def)
  ultimately show ?thesis using that by blast
qed

lemma pl_add_bit_full: "256 \<le> pl_bit_count l \<Longrightarrow>
    pl_add_bit l b = Inl (RuntimeError ''Label is already at max size'')"
  by (simp add: pl_add_bit_def)

section \<open>Construction from bits\<close>

lemma pl_set_bits_spec:
  assumes "length (pl_label l) = 4" "pl_bit_count l \<le> 256" "k + length bs \<le> pl_bit_count l"
  shows "\<exists>l'. pl_set_bits l k bs = Inr l' \<and> length (pl_label l') = 4 \<and>
    pl_bit_count l' = pl_bit_count l \<and>
    (\<forall>j < 256. lbit (pl_label l') j =
      (if k \<le> j \<and> j < k + length bs then bs ! (j - k) else lbit (pl_label l) j))"
  using assms
proof (induction bs arbitrary: l k)
  case Nil
  then show ?case by auto
next
  case (Cons b bs)
  obtain l1 where l1: "pl_set_bit l k b = Inr l1" "length (pl_label l1) = 4"
    "pl_bit_count l1 = pl_bit_count l"
    "\<And>j. j < 256 \<Longrightarrow> lbit (pl_label l1) j = (if j = k then b else lbit (pl_label l) j)"
    using Cons.prems by (rule_tac pl_set_bit_spec [of l k b]) auto
  then obtain l2 where l2: "pl_set_bits l1 (Suc k) bs = Inr l2" "length (pl_label l2) = 4"
    "pl_bit_count l2 = pl_bit_count l"
    "\<forall>j < 256. lbit (pl_label l2) j =
      (if Suc k \<le> j \<and> j < Suc k + length bs then bs ! (j - Suc k) else lbit (pl_label l1) j)"
    using Cons.IH [of l1 "Suc k"] Cons.prems by auto
  have "\<forall>j < 256. lbit (pl_label l2) j =
      (if k \<le> j \<and> j < k + length (b # bs) then (b # bs) ! (j - k) else lbit (pl_label l) j)"
  proof (intro allI impI)
    fix j :: nat assume j: "j < 256"
    consider "j = k" | "Suc k \<le> j" | "j < k" by linarith
    then show "lbit (pl_label l2) j =
      (if k \<le> j \<and> j < k + length (b # bs) then (b # bs) ! (j - k) else lbit (pl_label l) j)"
    proof cases
      case 1
      with l1(4) l2(4) j show ?thesis by simp
    next
      case 2
      then have "j - k = Suc (j - Suc k)" by simp
      with l1(4) l2(4) j 2 show ?thesis by simp
    next
      case 3
      with l1(4) l2(4) j show ?thesis by simp
    qed
  qed
  with l1 l2 show ?case by auto
qed

lemma pl_from_bits_spec:
  assumes "length bs \<le> 256"
  obtains l where "pl_from_bits bs = Inr l" "pl_valid l" "pl_bits l = bs"
proof -
  let ?z = "PartialLabel [0, 0, 0, 0] (length bs)"
  obtain l where l: "pl_set_bits ?z 0 bs = Inr l" "length (pl_label l) = 4"
    "pl_bit_count l = length bs"
    "\<forall>j < 256. lbit (pl_label l) j = (if j < length bs then bs ! j else lbit [0, 0, 0, 0] j)"
    using pl_set_bits_spec [of ?z 0 bs] assms by auto
  have "pl_valid l" using l assms by (intro pl_validI) (auto simp: lbit_zero simp del: One_nat_def)
  moreover have "pl_bits l = bs"
    using l assms by (intro nth_equalityI) (auto simp: nth_pl_bits)
  ultimately show ?thesis using that l assms by (simp add: pl_from_bits_def)
qed

lemma pl_from_bits_error: "256 < length bs \<Longrightarrow>
    pl_from_bits bs = Inl (InvalidArgument ''Cannot have more than MaxBitCount bits'')"
  by (simp add: pl_from_bits_def)

section \<open>Construction from bytes\<close>

text \<open>Bit \<open>i\<close> of a byte string, most significant bit of each byte first.\<close>

definition byte_bit :: "byte list \<Rightarrow> nat \<Rightarrow> bool" where
  "byte_bit bs i = bit (bs ! (i div 8)) (7 - i mod 8)"

lemma word_byte_index: "8 * (i div 64) + i mod 64 div 8 = i div (8 :: nat)"
proof -
  have "i div 8 = (i mod 64 + (8 * (i div 64)) * 8) div 8"
    using mod_div_mult_eq [of i 64] by (simp add: mult.assoc)
  also have "\<dots> = 8 * (i div 64) + i mod 64 div 8" by (subst div_mult_self1) simp_all
  finally show ?thesis by simp
qed

lemma lbit_rev_words:
  assumes "length mem = 32" "i < 256"
  shows "lbit (map (\<lambda>k. le_word (rev (take 8 (drop (8 * k) mem)))) [0..<4]) i = byte_bit mem i"
proof -
  let ?k = "i div 64" and ?r = "i mod 64"
  have k: "?k < 4" "?r < 64" using assms by auto
  have idx: "8 * ?k + ?r div 8 = i div 8" "?r mod 8 = i mod 8"
    by (rule word_byte_index, simp add: mod_mod_cancel)
  let ?ch = "rev (take 8 (drop (8 * ?k) mem))"
  have len: "length ?ch = 8" using assms k by auto
  have lt: "63 - ?r < LENGTH(64)" "63 - ?r < 8 * 8" by simp_all
  have "lbit (map (\<lambda>k. le_word (rev (take 8 (drop (8 * k) mem)))) [0..<4]) i =
    bit (le_word ?ch :: u64) (63 - ?r)"
    using k by (simp add: lbit_def)
  also have "\<dots> = bit (?ch ! (7 - ?r div 8)) (7 - ?r mod 8)"
    by (simp only: bit_le_word lt len pos_split [OF k(2)] simp_thms)
  also have "?ch ! (7 - ?r div 8) = mem ! (i div 8)"
  proof -
    have r8: "?r div 8 < 8" using k by auto
    have l8: "length (take 8 (drop (8 * ?k) mem)) = 8" using len by simp
    have "?ch ! (7 - ?r div 8) = take 8 (drop (8 * ?k) mem) ! (?r div 8)"
      using r8 by (subst rev_nth) (simp_all only: l8, simp_all)
    also have "\<dots> = mem ! (8 * ?k + ?r div 8)" using r8 k assms by simp
    finally show ?thesis by (simp only: idx)
  qed
  finally show ?thesis by (simp only: byte_bit_def idx)
qed

lemma byte_bit_replicate: "i < 8 * n \<Longrightarrow> \<not> byte_bit (replicate n 0) i"
  by (simp add: byte_bit_def)

lemma bit_high_mask:
  assumes "m < 8" "0 < m" "j < 8"
  shows "bit (b AND push_bit (8 - m) (0xFF :: byte)) (7 - j) = (j < m \<and> bit b (7 - j))"
proof -
  have "bit (push_bit (8 - m) (0xFF :: byte)) (7 - j) = (j < m)"
    using assms by (simp only: bit_push_bit_iff bit_mask8) auto
  then show ?thesis by (auto simp: bit_and_iff)
qed

lemma pl_init_bits:
  assumes "n \<le> 256" "n \<le> 8 * length bytes" "i < 256"
  shows "lbit (pl_label (pl_init bytes n)) i = (i < n \<and> byte_bit bytes i)"
proof -
  let ?bs = "(n + 7) div 8" and ?m = "n mod 8"
  let ?mem = "take ?bs bytes @ replicate (32 - ?bs) 0"
  let ?mem' = "if ?m > 0 then ?mem[?bs - 1 := ?mem ! (?bs - 1) AND push_bit (8 - ?m) 0xFF] else ?mem"
  have bs: "?bs \<le> length bytes" "?bs \<le> 32" using assms by auto
  have len: "length ?mem' = 32" using bs by simp
  have mem: "byte_bit ?mem i = (i div 8 < ?bs \<and> byte_bit bytes i)"
    using bs assms by (auto simp: byte_bit_def nth_append)
  have "lbit (pl_label (pl_init bytes n)) i = byte_bit ?mem' i"
    using lbit_rev_words [OF len assms(3)] by (simp add: pl_init_def Let_def)
  also have "\<dots> = (i < n \<and> byte_bit bytes i)"
  proof (cases "?m = 0")
    case True
    then obtain p where "n = 8 * p" by auto
    then have "(i div 8 < ?bs) = (i < n)" by (auto simp: div_less_iff_less_mult)
    then show ?thesis using True mem by simp
  next
    case False
    define p m q r where "p = n div 8" and "m = n mod 8" and "q = i div 8" and "r = i mod 8"
    have n: "n = 8 * p + m" "m < 8" "m > 0" and i: "i = 8 * q + r" "r < 8"
      using False by (auto simp: p_def m_def q_def r_def)
    have bsp: "?bs = Suc p" using n by auto
    show ?thesis
    proof (cases "q = p")
      case True
      then have "(r < m) = (i < n)" using n i by auto
      moreover have "bit (?mem' ! q) (7 - r) = (r < m \<and> bit (?mem ! q) (7 - r))"
        using True n i bs bsp len by (simp add: m_def [symmetric] bit_high_mask)
      ultimately show ?thesis using mem True bsp by (simp add: byte_bit_def q_def r_def)
    next
      case neq: False
      then have "(q < Suc p) = (i < n)" using n i by auto
      moreover have "?mem' ! q = ?mem ! q" using neq bsp by simp
      ultimately show ?thesis using mem bsp by (simp add: byte_bit_def q_def)
    qed
  qed
  finally show ?thesis .
qed

lemma pl_init_spec:
  assumes "n \<le> 256" "n \<le> 8 * length bytes"
  shows "pl_valid (pl_init bytes n)" "pl_bits (pl_init bytes n) = map (byte_bit bytes) [0..<n]"
proof -
  have n: "pl_bit_count (pl_init bytes n) = n" "length (pl_label (pl_init bytes n)) = 4"
    by (simp_all add: pl_init_def Let_def)
  show "pl_valid (pl_init bytes n)"
    using assms n by (intro pl_validI) (auto simp: pl_init_bits)
  show "pl_bits (pl_init bytes n) = map (byte_bit bytes) [0..<n]"
    using assms n by (intro nth_equalityI) (auto simp: nth_pl_bits pl_init_bits)
qed

lemma pl_from_bytes_spec:
  assumes "length input \<le> 32" "n \<le> 8 * length input"
  obtains l where "pl_from_bytes input n = Inr l" "pl_valid l"
    "pl_bits l = map (byte_bit input) [0..<(if n = 0 then 8 * length input else n)]"
proof -
  let ?n = "if n = 0 then 8 * length input else n"
  have "pl_from_bytes input n = Inr (pl_init input ?n)"
    using assms by (auto simp: pl_from_bytes_def mult.commute)
  moreover have "?n \<le> 256" "?n \<le> 8 * length input" using assms by auto
  ultimately show ?thesis using that pl_init_spec [of ?n input] by blast
qed

lemma pl_from_bytes_errors:
  "32 < length input \<Longrightarrow> pl_from_bytes input n =
     Inl (InvalidArgument ''Cannot have input bigger than available bytes'')"
  "length input \<le> 32 \<Longrightarrow> 8 * length input < n \<Longrightarrow> pl_from_bytes input n =
     Inl (InvalidArgument ''Bit count is bigger than available bits'')"
  by (simp_all add: pl_from_bytes_def)

section \<open>Common prefixes\<close>

lemma get_msb_loop_spec:
  assumes "v \<noteq> 0" "i \<le> 64" "\<forall>k < i. \<not> bit v (63 - k)"
  shows "get_msb_loop i v < 64 \<and> bit v (63 - get_msb_loop i v) \<and>
    (\<forall>k < get_msb_loop i v. \<not> bit v (63 - k))"
  using assms
proof (induction i v rule: get_msb_loop.induct)
  case (1 i v)
  have "i < 64"
  proof (rule ccontr)
    assume "\<not> i < 64"
    then have none: "\<not> bit v (63 - k)" if "k < 64" for k using that "1.prems"(3) by simp
    have "\<not> bit v n" for n
    proof (cases "n < 64")
      case True
      then show ?thesis using none [of "63 - n"] by simp
    next
      case False
      then show ?thesis using bit_imp_le_length [of v n] by auto
    qed
    then show False using "1.prems"(1) word_eq_0_iff by blast
  qed
  show ?case
  proof (cases "bit v (63 - i)")
    case True
    then have "get_msb_loop i v = i"
      using \<open>i < 64\<close> by (subst get_msb_loop.simps) (simp add: word_bit_at_bit)
    then show ?thesis using True "1.prems" \<open>i < 64\<close> by simp
  next
    case False
    then have eq: "get_msb_loop i v = get_msb_loop (Suc i) v"
      using \<open>i < 64\<close> by (subst get_msb_loop.simps) (simp add: word_bit_at_bit)
    show ?thesis unfolding eq
      using False \<open>i < 64\<close> "1.prems"
      by (intro "1.IH") (auto simp: word_bit_at_bit less_Suc_eq)
  qed
qed

lemma get_msb_less: "v \<noteq> 0 \<Longrightarrow> get_msb v < 64"
  and get_msb_bit: "v \<noteq> 0 \<Longrightarrow> bit v (63 - get_msb v)"
  and get_msb_least: "v \<noteq> 0 \<Longrightarrow> k < get_msb v \<Longrightarrow> \<not> bit v (63 - k)"
  using get_msb_loop_spec [of v 0] by (auto simp: get_msb_def)

lemma lbit_list_update:
  "length ws = 4 \<Longrightarrow> k < 4 \<Longrightarrow>
    lbit (ws[k := w]) j = (if j div 64 = k then bit w (63 - j mod 64) else lbit ws j)"
  by (auto simp: lbit_def)

lemma lbit_cp_zero:
  assumes "length ws = 4" "j < 256"
  shows "length (cp_zero k ws) = 4 \<and> lbit (cp_zero k ws) j = (j div 64 < k \<and> lbit ws j)"
  using assms
proof (induction k ws rule: cp_zero.induct)
  case (1 k ws)
  show ?case
  proof (cases "k < 4")
    case True
    then have "cp_zero k ws = cp_zero (Suc k) (ws[k := 0])"
      by (subst cp_zero.simps) simp
    then show ?thesis using True "1.IH" "1.prems"
      by (auto simp: lbit_list_update less_Suc_eq)
  next
    case False
    then have "cp_zero k ws = ws" by (subst cp_zero.simps) simp
    moreover have "j div 64 < 4" using "1.prems" by auto
    ultimately show ?thesis using False "1.prems" by simp
  qed
qed

text \<open>What the skipping loop keeps: the words copied so far agree with both labels.\<close>

definition cp_inv :: "u64 list \<Rightarrow> u64 list \<Rightarrow> nat \<Rightarrow> nat \<Rightarrow> nat \<Rightarrow> u64 list \<Rightarrow> nat \<Rightarrow> bool" where
  "cp_inv l1 l2 tot wi mx c bc =
     (64 * wi + mx = tot \<and> bc = 64 * wi \<and> length c = 4 \<and>
      (\<forall>j < 256. lbit c j = (j < 64 * wi \<and> lbit l1 j)) \<and>
      (\<forall>j < 64 * wi. lbit l1 j = lbit l2 j))"

lemma cp_inv_step:
  assumes "cp_inv l1 l2 tot wi mx c bc" "64 \<le> mx" "tot \<le> 256" "l1 ! wi = l2 ! wi"
  shows "cp_inv l1 l2 tot (Suc wi) (mx - 64) (c[wi := l1 ! wi]) (bc + 64)"
proof -
  have wi: "wi < 4" using assms by (auto simp: cp_inv_def)
  have 1: "lbit (c[wi := l1 ! wi]) j = (j < 64 * Suc wi \<and> lbit l1 j)" if "j < 256" for j
  proof (cases "j div 64 = wi")
    case True
    then have "j < 64 * Suc wi" by auto
    then show ?thesis using True wi assms by (simp add: cp_inv_def lbit_list_update) (simp add: lbit_def)
  next
    case False
    then have "j < 64 * Suc wi \<longleftrightarrow> j < 64 * wi" by auto
    then show ?thesis using False wi assms that by (simp add: cp_inv_def lbit_list_update)
  qed
  have 2: "lbit l1 j = lbit l2 j" if "j < 64 * Suc wi" for j
  proof (cases "j div 64 = wi")
    case True
    then show ?thesis using assms by (simp add: lbit_def)
  next
    case False
    then have "j < 64 * wi" using that by auto
    then show ?thesis using assms by (simp add: cp_inv_def)
  qed
  show ?thesis using assms 1 2 by (simp add: cp_inv_def)
qed

lemma cp_skip_inv:
  assumes "cp_inv l1 l2 tot wi mx c bc" "tot \<le> 256"
    and "cp_skip l1 l2 wi mx c bc = (wi', mx', c', bc')"
  shows "cp_inv l1 l2 tot wi' mx' c' bc' \<and> (64 \<le> mx' \<longrightarrow> l1 ! wi' \<noteq> l2 ! wi')"
  using assms
proof (induction l1 l2 wi mx c bc rule: cp_skip.induct)
  case (1 l1 l2 wi mx c bc)
  show ?case
  proof (cases "64 \<le> mx \<and> l1 ! wi = l2 ! wi")
    case True
    then have "cp_skip l1 l2 wi mx c bc =
        cp_skip l1 l2 (Suc wi) (mx - 64) (c[wi := l1 ! wi]) (bc + 64)"
      by (subst cp_skip.simps) simp
    then show ?thesis using True "1.prems" cp_inv_step by (intro "1.IH") auto
  next
    case False
    then have "cp_skip l1 l2 wi mx c bc = (wi, mx, c, bc)"
      by (subst cp_skip.simps) auto
    then show ?thesis using False "1.prems" by auto
  qed
qed

text \<open>The masked copy of the first differing word: the label's bits up to \<open>shift\<close>.\<close>

lemma bit_prefix_mask:
  assumes "r < 64"
  shows "bit (w AND NOT (drop_bit s (0xFFFFFFFFFFFFFFFF :: u64))) (63 - r) = (r < s \<and> bit w (63 - r))"
proof -
  have "bit (drop_bit s (0xFFFFFFFFFFFFFFFF :: u64)) (63 - r) = (63 - r + s < 64)"
    by (simp only: bit_drop_bit_eq o_apply bit_mask64 add.commute)
  then show ?thesis using assms by (auto simp: bit_and_iff bit_not_iff)
qed

definition cp_shift :: "u64 \<Rightarrow> u64 \<Rightarrow> nat \<Rightarrow> nat" where
  "cp_shift w1 w2 mx = (if w1 XOR w2 = 0 then mx else min (get_msb (w1 XOR w2)) mx)"

lemma xor_eq_0: "((w1 :: 'a::len word) XOR w2 = 0) = (w1 = w2)"
  by (auto simp: bit_eq_iff bit_xor_iff)

lemma cp_shift_spec:
  assumes "64 \<le> mx \<longrightarrow> w1 \<noteq> w2"
  shows "cp_shift w1 w2 mx \<le> mx" "cp_shift w1 w2 mx < 64"
    and "\<And>r. r < cp_shift w1 w2 mx \<Longrightarrow> bit w1 (63 - r) = bit w2 (63 - r)"
    and "cp_shift w1 w2 mx < mx \<Longrightarrow>
      bit w1 (63 - cp_shift w1 w2 mx) \<noteq> bit w2 (63 - cp_shift w1 w2 mx)"
proof -
  have ne: "w1 XOR w2 \<noteq> 0" if "w1 \<noteq> w2" using that xor_eq_0 by blast
  show "cp_shift w1 w2 mx \<le> mx" by (simp add: cp_shift_def)
  show "cp_shift w1 w2 mx < 64"
    using assms get_msb_less [OF ne] by (cases "w1 = w2") (auto simp: cp_shift_def xor_eq_0)
  show "bit w1 (63 - r) = bit w2 (63 - r)" if "r < cp_shift w1 w2 mx" for r
  proof (cases "w1 = w2")
    case False
    then have "\<not> bit (w1 XOR w2) (63 - r)"
      using that ne get_msb_least [OF ne] by (simp add: cp_shift_def xor_eq_0)
    then show ?thesis by (simp add: bit_xor_iff)
  qed simp
  show "bit w1 (63 - cp_shift w1 w2 mx) \<noteq> bit w2 (63 - cp_shift w1 w2 mx)"
    if "cp_shift w1 w2 mx < mx"
  proof -
    have "w1 \<noteq> w2" using that by (auto simp: cp_shift_def)
    then have "bit (w1 XOR w2) (63 - cp_shift w1 w2 mx)"
      using that get_msb_bit [OF ne] by (auto simp: cp_shift_def xor_eq_0 min_def split: if_splits)
    then show ?thesis by (simp add: bit_xor_iff)
  qed
qed

lemma common_prefix_lbit:
  assumes "pl_valid a" "pl_valid b"
  defines "n \<equiv> pl_bit_count (common_prefix a b)" and "m \<equiv> min (pl_bit_count a) (pl_bit_count b)"
  shows "length (pl_label (common_prefix a b)) = 4" "n \<le> m"
    and "\<And>j. j < 256 \<Longrightarrow> lbit (pl_label (common_prefix a b)) j = (j < n \<and> lbit (pl_label a) j)"
    and "\<And>j. j < n \<Longrightarrow> lbit (pl_label a) j = lbit (pl_label b) j"
    and "n < m \<Longrightarrow> lbit (pl_label a) n \<noteq> lbit (pl_label b) n"
proof -
  let ?a = "pl_label a" and ?b = "pl_label b"
  obtain wi mx c bc where sk: "cp_skip ?a ?b 0 m [0, 0, 0, 0] 0 = (wi, mx, c, bc)"
    by (metis prod_cases4)
  have m: "m \<le> 256" using pl_validD(2) [OF assms(1)] by (simp add: m_def)
  have "cp_inv ?a ?b m 0 m [0, 0, 0, 0] 0"
    by (simp add: cp_inv_def lbit_zero)
  from cp_skip_inv [OF this m sk]
  have inv: "64 * wi + mx = m" "bc = 64 * wi" "length c = 4"
    "\<And>j. j < 256 \<Longrightarrow> lbit c j = (j < 64 * wi \<and> lbit ?a j)"
    "\<And>j. j < 64 * wi \<Longrightarrow> lbit ?a j = lbit ?b j" and stop: "64 \<le> mx \<longrightarrow> ?a ! wi \<noteq> ?b ! wi"
    by (auto simp: cp_inv_def)
  define s where "s = (if mx > 0 then cp_shift (?a ! wi) (?b ! wi) mx else 0)"
  define c' where "c' = (if mx > 0
    then c[wi := ?a ! wi AND NOT (drop_bit s (0xFFFFFFFFFFFFFFFF :: u64))] else c)"
  have res: "common_prefix a b = PartialLabel (cp_zero (Suc wi) c') (bc + s)"
    using sk by (simp add: common_prefix_def Let_def m_def s_def c'_def cp_shift_def)
  then have n: "n = 64 * wi + s" by (simp add: n_def inv)
  have s: "s \<le> mx" "s < 64" "\<And>r. r < s \<Longrightarrow> bit (?a ! wi) (63 - r) = bit (?b ! wi) (63 - r)"
    "s < mx \<Longrightarrow> bit (?a ! wi) (63 - s) \<noteq> bit (?b ! wi) (63 - s)"
    using cp_shift_spec [OF stop] by (auto simp: s_def split: if_splits)
  show "n \<le> m" using n s inv by simp
  have c': "length c' = 4" using inv by (simp add: c'_def)
  show "length (pl_label (common_prefix a b)) = 4"
    using lbit_cp_zero [OF c', of 0] by (simp add: res)
  have at: "lbit ws (64 * wi + r) = bit (ws ! wi) (63 - r)" if "r < 64" for ws r
    using that by (simp add: lbit_def)
  have in_wi: "\<exists>r < 64. j = 64 * wi + r" if "64 * wi \<le> j" "j < 64 * Suc wi" for j
    using that by (intro exI [of _ "j - 64 * wi"]) auto
  show "lbit ?a j = lbit ?b j" if "j < n" for j
    using that inv(5) n s in_wi [of j] by (cases "j < 64 * wi") (auto simp: at)
  show "lbit ?a n \<noteq> lbit ?b n" if "n < m"
    using that s inv n by (simp add: at)
  fix j :: nat assume j: "j < 256"
  have "lbit (cp_zero (Suc wi) c') j = (j div 64 \<le> wi \<and> lbit c' j)"
    using lbit_cp_zero [OF c' j] by (simp add: less_Suc_eq_le)
  also have "\<dots> = (j < n \<and> lbit ?a j)"
  proof (cases "j < 64 * wi")
    case True
    then have "j div 64 < wi" by (simp add: div_less_iff_less_mult mult.commute)
    then show ?thesis using True inv j n by (auto simp: c'_def lbit_def)
  next
    case ge: False
    show ?thesis
    proof (cases "j < 64 * Suc wi \<and> 0 < mx")
      case True
      then obtain r where r: "r < 64" "j = 64 * wi + r" by (metis in_wi ge not_less)
      then have "wi < 4" using j by auto
      then show ?thesis using True r n inv by (simp add: at c'_def bit_prefix_mask)
    next
      case False
      have "\<not> (j div 64 \<le> wi \<and> lbit c' j)"
      proof (cases "0 < mx")
        case True
        then show ?thesis using False ge by auto
      next
        case False
        then show ?thesis using inv ge j by (simp add: c'_def)
      qed
      moreover have "\<not> j < n" using False ge n s by auto
      ultimately show ?thesis by blast
    qed
  qed
  finally show "lbit (pl_label (common_prefix a b)) j = (j < n \<and> lbit ?a j)" by (simp add: res)
qed

lemma common_prefix_valid:
  assumes "pl_valid a" "pl_valid b"
  shows "pl_valid (common_prefix a b)"
  using common_prefix_lbit [OF assms] pl_validD(2) [OF assms(1)]
  by (intro pl_validI) auto

lemma common_prefix_lcp:
  assumes "pl_valid a" "pl_valid b"
  shows "pl_bits (common_prefix a b) = lcp (pl_bits a) (pl_bits b)"
proof -
  let ?n = "pl_bit_count (common_prefix a b)"
  note cp = common_prefix_lbit [OF assms] and va = pl_validD [OF assms(1)]
  have "lcp (pl_bits a) (pl_bits b) = take ?n (pl_bits a)"
    using cp by (intro lcp_unique) (auto simp: nth_pl_bits)
  also have "\<dots> = pl_bits (common_prefix a b)"
    using cp va by (intro nth_equalityI) (auto simp: nth_pl_bits)
  finally show ?thesis by simp
qed

section \<open>Byte images\<close>

lemma byte_word_pos: "i div 8 div 8 = i div 64" "i mod 64 div 8 = i div 8 mod (8 :: nat)"
    "i mod 64 mod 8 = i mod (8 :: nat)"
proof -
  have "i mod 64 = 8 * (i div 8 mod 8) + i mod 8" using mod_mult2_eq [of i 8 8] by simp
  then show "i mod 64 div 8 = i div 8 mod 8" "i mod 64 mod 8 = i mod 8" by simp_all
  show "i div 8 div 8 = i div 64" by (simp add: div_mult2_eq [symmetric])
qed

lemma byte_bit_le_word:
  assumes "i < 64"
  shows "byte_bit (rev (le_bytes 8 (w :: u64))) i = bit w (63 - i)"
    and "byte_bit (le_bytes 8 w) i = bit w (8 * (i div 8) + (7 - i mod 8))"
proof -
  have "i div 8 < 8" using assms by auto
  then show "byte_bit (rev (le_bytes 8 w)) i = bit w (63 - i)"
    using pos_rev [OF assms]
    by (simp add: byte_bit_def rev_nth bit_le_bytes less_imp_diff_less)
  show "byte_bit (le_bytes 8 w) i = bit w (8 * (i div 8) + (7 - i mod 8))"
    using \<open>i div 8 < 8\<close> by (simp add: byte_bit_def bit_le_bytes less_imp_diff_less)
qed

lemma byte_bit_concat:
  assumes "\<And>w. length (f w) = 8" "i < 64 * length ws"
  shows "byte_bit (concat (map f ws)) i = byte_bit (f (ws ! (i div 64))) (i mod 64)"
proof -
  have "i div 8 < 8 * length ws" using assms(2) by (auto simp: div_less_iff_less_mult)
  then have "concat (map f ws) ! (i div 8) = f (ws ! (i div 64)) ! (i div 8 mod 8)"
    using nth_concat_map [of ws f 8 "i div 8"] assms(1) by (simp add: byte_word_pos)
  then show ?thesis by (simp add: byte_bit_def byte_word_pos)
qed

lemma byte_bit_to_bytes:
  assumes "pl_valid l" "i < pl_bit_count l"
  shows "byte_bit (pl_to_bytes l) i = pl_bits l ! i"
proof -
  have i: "i < 64 * length (pl_label l)" using assms pl_validD [OF assms(1)] by simp
  have "i div 8 < (pl_bit_count l + 7) div 8" using assms by linarith
  then have "byte_bit (pl_to_bytes l) i = byte_bit (concat (map (\<lambda>w. rev (le_bytes 8 w)) (pl_label l))) i"
    by (simp add: byte_bit_def pl_to_bytes_def)
  also have "\<dots> = lbit (pl_label l) i"
    using byte_bit_concat [of "\<lambda>w. rev (le_bytes 8 w)", OF _ i]
    by (simp add: byte_bit_le_word lbit_def)
  finally show ?thesis using assms by (simp add: nth_pl_bits)
qed

lemma length_concat_map_le: "length (concat (map (\<lambda>w. rev (le_bytes 8 w)) ws)) = 8 * length ws"
  by (induction ws) simp_all

lemma length_pl_to_bytes: "pl_valid l \<Longrightarrow> length (pl_to_bytes l) = (pl_bit_count l + 7) div 8"
  using pl_validD [of l] by (simp add: pl_to_bytes_def length_concat_map_le Let_def)

lemma pl_from_to_bytes:
  assumes "pl_valid l"
  shows "pl_from_bytes (pl_to_bytes l) (pl_bit_count l) = Inr l"
proof -
  let ?n = "pl_bit_count l"
  note v = pl_validD [OF assms] and len = length_pl_to_bytes [OF assms]
  have "length (pl_to_bytes l) \<le> 32" "?n \<le> 8 * length (pl_to_bytes l)"
    using v len by linarith+
  then obtain l' where l': "pl_from_bytes (pl_to_bytes l) ?n = Inr l'" "pl_valid l'"
    "pl_bits l' = map (byte_bit (pl_to_bytes l)) [0..<(if ?n = 0 then 8 * length (pl_to_bytes l) else ?n)]"
    by (rule pl_from_bytes_spec)
  have "pl_bits l' = pl_bits l"
  proof (cases "?n = 0")
    case True
    then show ?thesis using l'(3) len by (simp add: pl_bits_def)
  next
    case False
    then show ?thesis using l'(3) assms
      by (intro nth_equalityI) (simp_all add: byte_bit_to_bytes)
  qed
  then show ?thesis using l' assms pl_bits_inj by metis
qed

lemma pl_load_save:
  assumes "length (pl_label l) = 4" "pl_bit_count l \<le> 256"
  shows "pl_load (pl_save l) = Inr l"
proof -
  let ?b = "words_bytes (pl_label l) @ le_bytes 4 (of_nat (pl_bit_count l) :: u32)"
  have "map (\<lambda>k. le_word (take 8 (drop (8 * k) ?b))) [0..<4] = map ((!) (pl_label l)) [0..<4]"
    using assms by (intro map_cong) (simp_all add: chunk_words_bytes0 le_word_le_bytes)
  also have "\<dots> = pl_label l" using assms by (metis map_nth)
  finally have "map (\<lambda>k. le_word (take 8 (drop (8 * k) ?b))) [0..<4] = pl_label l" .
  moreover have "unat (le_word (take 4 (drop 32 ?b)) :: u32) = pl_bit_count l"
    using assms by (simp add: le_word_le_bytes unat_of_nat)
  ultimately show ?thesis using assms by (simp add: pl_load_def pl_save_def Let_def)
qed

lemma pl_save_load:
  assumes "length b = 36" "pl_load b = Inr l"
  shows "pl_save l = b"
proof -
  define ws :: "u64 list" where "ws = map (\<lambda>k. le_word (take 8 (drop (8 * k) b))) [0..<4]"
  define n where "n = unat (le_word (take 4 (drop 32 b)) :: u32)"
  have l: "l = PartialLabel ws n"
    using assms by (auto simp: pl_load_def Let_def ws_def n_def split: if_splits)
  have "ws = map (\<lambda>k. le_word (take 8 (drop (8 * k) (take 32 b)))) [0..<4]"
    unfolding ws_def by (intro map_cong) (auto simp: drop_take min_def)
  then have "words_bytes ws = take 32 b"
    using assms(1) words_bytes_le_word [of "take 32 b" 4] by simp
  moreover have "le_bytes 4 (of_nat n :: u32) = take 4 (drop 32 b)"
    using assms(1) le_bytes_le_word [of "take 4 (drop 32 b)", where 'a = 32] by (simp add: n_def)
  ultimately show ?thesis using assms(1) by (simp add: l pl_save_def)
qed

lemma pl_load_error:
  "256 < unat (le_word (take 4 (drop 32 b)) :: u32) \<Longrightarrow>
    pl_load b = Inl (LogicError ''Cannot have label bigger than MaxBitCount'')"
  by (simp add: pl_load_def Let_def)

section \<open>The constructor that shortens a label\<close>

text \<open>
  \<open>PartialLabel(label, bit_count)\<close> passes the words' memory, whose bytes are in reversed order
  within each word, to \<open>init\<close>, which expects bytes in label order. The bits it keeps are
  therefore those of the byte-swapped words.
\<close>

definition swapped_pos :: "nat \<Rightarrow> nat" where
  "swapped_pos i = 64 * (i div 64) + (56 - 8 * (i mod 64 div 8)) + i mod 8"

lemma swapped_pos_split:
  assumes "q1 < 8" "r < 8"
  shows "swapped_pos (64 * q + (8 * q1 + r)) = 64 * q + (56 - 8 * q1 + r)"
proof -
  have "(64 * q + (8 * q1 + r)) mod 8 = (r + (8 * q + q1) * 8) mod 8" by (simp add: algebra_simps)
  then have m: "(64 * q + (8 * q1 + r)) mod 8 = r" using assms(2) by (simp only: mod_mult_self1) simp
  have lt: "8 * q1 + r < 64" using assms by linarith
  show ?thesis using lt assms by (simp add: swapped_pos_def m)
qed

lemma byte_bit_words_bytes:
  assumes "i < 64 * length ws"
  shows "byte_bit (words_bytes ws) i = lbit ws (swapped_pos i)"
proof -
  define q where "q = i div 64"
  define q1 where "q1 = i mod 64 div 8"
  define r where "r = i mod 8"
  have m: "i mod 64 = 8 * q1 + r"
    using mult_div_mod_eq [of 8 "i mod 64"] by (simp add: q1_def r_def byte_word_pos)
  have b: "q1 < 8" "r < 8" using m by (simp_all add: q1_def r_def div_less_iff_less_mult)
  have i: "i = 64 * q + (8 * q1 + r)" using m mult_div_mod_eq [of 64 i] by (simp add: q_def)
  have sp: "swapped_pos i = 64 * q + (56 - 8 * q1 + r)" using swapped_pos_split [OF b] i by simp
  have lt: "56 - 8 * q1 + r < 64" using b by linarith
  have pos: "63 - (56 - 8 * q1 + r) = 8 * q1 + (7 - r)" using b by linarith
  have "byte_bit (words_bytes ws) i = byte_bit (le_bytes 8 (ws ! q)) (i mod 64)"
    unfolding words_bytes_def q_def by (rule byte_bit_concat) (simp_all add: assms)
  also have "\<dots> = bit (ws ! q) (8 * q1 + (7 - r))"
    using byte_bit_le_word(2) [of "i mod 64" "ws ! q"]
    by (simp add: q1_def r_def byte_word_pos)
  also have "\<dots> = lbit ws (swapped_pos i)" using lt by (simp add: lbit_def sp pos)
  finally show ?thesis .
qed

lemma pl_from_label_spec:
  assumes "pl_valid l" "n \<le> pl_bit_count l"
  obtains l' where "pl_from_label l n = Inr l'" "pl_valid l'"
    "pl_bits l' = map (\<lambda>i. lbit (pl_label l) (swapped_pos i)) [0..<n]"
proof -
  note v = pl_validD [OF assms(1)]
  have n: "n \<le> 256" "n \<le> 8 * length (words_bytes (pl_label l))" using v assms by simp_all
  have eq: "map (byte_bit (words_bytes (pl_label l))) [0..<n] =
      map (\<lambda>i. lbit (pl_label l) (swapped_pos i)) [0..<n]"
  proof (rule map_cong [OF refl])
    fix i assume "i \<in> set [0..<n]"
    then have "i < 64 * length (pl_label l)" using n v by simp
    then show "byte_bit (words_bytes (pl_label l)) i = lbit (pl_label l) (swapped_pos i)"
      by (rule byte_bit_words_bytes)
  qed
  have c: "pl_from_label l n = Inr (pl_init (words_bytes (pl_label l)) n)"
    using n assms by (simp add: pl_from_label_def)
  show ?thesis
    by (rule that [OF c]) (use pl_init_spec [OF n] eq in simp_all)
qed

section \<open>The interface the trie uses\<close>

text \<open>
  What the trie asks of labels: an injective reading as bit strings, the common prefix, single
  bits (with the exceptions of \<open>operator[]\<close>) and the empty label. The lemmas are the routing
  facts of insertion, lookup and proof verification.
\<close>

locale label_ops =
  fixes bits :: "'l \<Rightarrow> bool list" and valid :: "'l \<Rightarrow> bool" and common :: "'l \<Rightarrow> 'l \<Rightarrow> 'l"
    and bit_count :: "'l \<Rightarrow> nat" and bit_at :: "'l \<Rightarrow> nat \<Rightarrow> bool result" and empty_label :: 'l
  assumes bits_inj: "valid a \<Longrightarrow> valid b \<Longrightarrow> bits a = bits b \<Longrightarrow> a = b"
    and valid_common: "valid a \<Longrightarrow> valid b \<Longrightarrow> valid (common a b)"
    and bits_common: "valid a \<Longrightarrow> valid b \<Longrightarrow> bits (common a b) = lcp (bits a) (bits b)"
    and count_bits: "bit_count a = length (bits a)"
    and bit_at_ok: "valid a \<Longrightarrow> i < length (bits a) \<Longrightarrow> bit_at a i = Inr (bits a ! i)"
    and bit_at_err: "valid a \<Longrightarrow> length (bits a) \<le> i \<Longrightarrow> \<exists>e. bit_at a i = Inl e"
    and valid_empty: "valid empty_label"
    and bits_empty: "bits empty_label = []"
begin

lemma empty_iff: "valid a \<Longrightarrow> (bits a = []) = (a = empty_label)"
  using bits_inj valid_empty bits_empty by metis

lemma common_of_prefix: "valid l \<Longrightarrow> valid p \<Longrightarrow> is_prefix (bits p) (bits l) \<Longrightarrow> common l p = p"
  using bits_inj valid_common bits_common lcp_sym is_prefix_lcp by metis

lemma common_same: "valid l \<Longrightarrow> common l l = l"
  by (rule common_of_prefix) simp_all

lemma bit_after_common:
  assumes "valid l" "valid p" "bits l = bits p @ b # xs"
  shows "common l p = p" "bit_at l (bit_count p) = Inr b"
proof -
  show "common l p = p" by (rule common_of_prefix) (simp_all add: assms)
  show "bit_at l (bit_count p) = Inr b"
    by (subst bit_at_ok) (simp_all add: assms count_bits)
qed

lemma common_siblings:
  assumes "valid a" "valid b" "bits a = ps @ x # xs" "bits b = ps @ y # ys" "x \<noteq> y"
  shows "bits (common a b) = ps" "bit_at a (bit_count (common a b)) = Inr x"
    "bit_at b (bit_count (common a b)) = Inr y"
proof -
  show 1: "bits (common a b) = ps" by (simp add: bits_common assms lcp_diff)
  then show "bit_at a (bit_count (common a b)) = Inr x" "bit_at b (bit_count (common a b)) = Inr y"
    by (simp_all add: bit_at_ok assms count_bits)
qed

lemma common_diverge:
  assumes "valid a" "valid b" "\<not> is_prefix (bits a) (bits b)" "\<not> is_prefix (bits b) (bits a)"
  obtains x xs ys where "bits a = bits (common a b) @ x # xs"
    "bits b = bits (common a b) @ (\<not> x) # ys"
    "bit_at a (bit_count (common a b)) = Inr x" "bit_at b (bit_count (common a b)) = Inr (\<not> x)"
proof (cases rule: lcp_cases [of "bits a" "bits b"])
  case (split x y xs ys)
  then have y: "y = (\<not> x)" by auto
  note eq = split [folded bits_common [OF assms(1,2)]]
  show ?thesis
    using that [of x xs ys] eq(1,2) common_siblings(2,3) [OF assms(1,2) eq(1,2,3)]
    by (simp add: y)
qed (use assms in auto)

lemma common_prefix_error:
  assumes "valid l" "valid p" "is_prefix (bits l) (bits p)"
  shows "\<exists>e. bit_at l (bit_count (common l p)) = Inl e"
proof -
  have "bits (common l p) = bits l" using assms by (simp add: bits_common is_prefix_lcp)
  then show ?thesis using assms(1) by (intro bit_at_err) (simp_all add: count_bits)
qed

end

interpretation pl: label_ops pl_bits pl_valid common_prefix pl_bit_count pl_bit pl_default
  by unfold_locales
    (auto simp: common_prefix_valid common_prefix_lcp pl_bit_nth pl_validD pl_bit_error
      intro: pl_bits_inj)

end
