(* ===== verification/Blake2b.thy ===== *)
theory Blake2b
  imports Prelude
begin

text \<open>
  The hash function BLAKE2b (\<open>oZKS/hash/blake2b.c\<close>, with the word access helpers of
  \<open>blake2-impl.h\<close> and the types of \<open>blake2.h\<close>), C code on a state of eight words, a two-word
  byte counter and a 128-byte buffer. The state is a record, \<open>memcpy\<close> and \<open>memset\<close> into the
  buffer are written out, and a function that returns -1 returns \<open>None\<close>. Pointer arguments are
  options (\<open>None\<close> is NULL) paired with the length argument the C function takes.

  The lemmas relate the buffered implementation to the definition of RFC 7693: updating is
  compositional, the 128-bit counter carries, and \<open>blake2b\<close> computes the reference function.
\<close>

section \<open>Word access\<close>

definition load32 :: "byte list \<Rightarrow> u32" where
  "load32 p = ucast (p ! 0) OR push_bit 8 (ucast (p ! 1)) OR push_bit 16 (ucast (p ! 2)) OR
     push_bit 24 (ucast (p ! 3))"

definition load64 :: "byte list \<Rightarrow> u64" where
  "load64 p = ucast (p ! 0) OR push_bit 8 (ucast (p ! 1)) OR push_bit 16 (ucast (p ! 2)) OR
     push_bit 24 (ucast (p ! 3)) OR push_bit 32 (ucast (p ! 4)) OR push_bit 40 (ucast (p ! 5)) OR
     push_bit 48 (ucast (p ! 6)) OR push_bit 56 (ucast (p ! 7))"

definition store32 :: "u32 \<Rightarrow> byte list" where
  "store32 w = [ucast w, ucast (drop_bit 8 w), ucast (drop_bit 16 w), ucast (drop_bit 24 w)]"

definition store64 :: "u64 \<Rightarrow> byte list" where
  "store64 w = [ucast w, ucast (drop_bit 8 w), ucast (drop_bit 16 w), ucast (drop_bit 24 w),
     ucast (drop_bit 32 w), ucast (drop_bit 40 w), ucast (drop_bit 48 w), ucast (drop_bit 56 w)]"

definition rotr64 :: "u64 \<Rightarrow> nat \<Rightarrow> u64" where
  "rotr64 w c = drop_bit c w OR push_bit (64 - c) w"

text \<open>\<open>memcpy(buf + off, src, len)\<close> for a source of \<open>len\<close> bytes.\<close>

definition mem_write :: "byte list \<Rightarrow> nat \<Rightarrow> byte list \<Rightarrow> byte list" where
  "mem_write buf off src = take off buf @ src @ drop (off + length src) buf"

section \<open>State and parameters\<close>

abbreviation BLAKE2B_BLOCKBYTES :: nat where "BLAKE2B_BLOCKBYTES \<equiv> 128"
abbreviation BLAKE2B_OUTBYTES :: nat where "BLAKE2B_OUTBYTES \<equiv> 64"
abbreviation BLAKE2B_KEYBYTES :: nat where "BLAKE2B_KEYBYTES \<equiv> 64"

record blake2b_state =
  b2_h :: "u64 list"
  b2_t0 :: u64
  b2_t1 :: u64
  b2_f0 :: u64
  b2_f1 :: u64
  b2_buf :: "byte list"
  b2_buflen :: nat
  b2_outlen :: nat
  b2_last_node :: byte

record blake2b_param =
  digest_length :: byte
  key_length :: byte
  fanout :: byte
  depth :: byte
  leaf_length :: u32
  node_offset :: u32
  xof_length :: u32
  node_depth :: byte
  inner_length :: byte
  reserved :: "byte list"
  salt :: "byte list"
  personal :: "byte list"

text \<open>The packed struct as bytes.\<close>

definition param_bytes :: "blake2b_param \<Rightarrow> byte list" where
  "param_bytes P = [digest_length P, key_length P, fanout P, depth P] @
     store32 (leaf_length P) @ store32 (node_offset P) @ store32 (xof_length P) @
     [node_depth P, inner_length P] @ reserved P @ salt P @ personal P"

definition blake2b_IV :: "u64 list" where
  "blake2b_IV =
    [0x6a09e667f3bcc908, 0xbb67ae8584caa73b, 0x3c6ef372fe94f82b, 0xa54ff53a5f1d36f1,
     0x510e527fade682d1, 0x9b05688c2b3e6c1f, 0x1f83d9abfb41bd6b, 0x5be0cd19137e2179]"

definition blake2b_sigma :: "nat list list" where
  "blake2b_sigma =
    [[ 0,  1,  2,  3,  4,  5,  6,  7,  8,  9, 10, 11, 12, 13, 14, 15],
     [14, 10,  4,  8,  9, 15, 13,  6,  1, 12,  0,  2, 11,  7,  5,  3],
     [11,  8, 12,  0,  5,  2, 15, 13, 10, 14,  3,  6,  7,  1,  9,  4],
     [ 7,  9,  3,  1, 13, 12, 11, 14,  2,  6,  5, 10,  4,  0, 15,  8],
     [ 9,  0,  5,  7,  2,  4, 10, 15, 14,  1, 11, 12,  6,  8,  3, 13],
     [ 2, 12,  6, 10,  0, 11,  8,  3,  4, 13,  7,  5, 15, 14,  1,  9],
     [12,  5,  1, 15, 14, 13,  4, 10,  0,  7,  6,  3,  9,  2,  8, 11],
     [13, 11,  7, 14, 12,  1,  3,  9,  5,  0, 15,  4,  8,  6,  2, 10],
     [ 6, 15, 14,  9, 11,  3,  0,  8, 12,  2, 13,  7,  1,  4, 10,  5],
     [10,  2,  8,  4,  7,  6,  1,  5, 15, 11,  9, 14,  3, 12, 13 , 0],
     [ 0,  1,  2,  3,  4,  5,  6,  7,  8,  9, 10, 11, 12, 13, 14, 15],
     [14, 10,  4,  8,  9, 15, 13,  6,  1, 12,  0,  2, 11,  7,  5,  3]]"

definition blake2b_is_lastblock :: "blake2b_state \<Rightarrow> bool" where
  "blake2b_is_lastblock S = (b2_f0 S \<noteq> 0)"

definition blake2b_set_lastnode :: "blake2b_state \<Rightarrow> blake2b_state" where
  "blake2b_set_lastnode S = S\<lparr>b2_f1 := -1\<rparr>"

definition blake2b_set_lastblock :: "blake2b_state \<Rightarrow> blake2b_state" where
  "blake2b_set_lastblock S =
     (if b2_last_node S \<noteq> 0 then blake2b_set_lastnode S else S)\<lparr>b2_f0 := -1\<rparr>"

definition blake2b_increment_counter :: "blake2b_state \<Rightarrow> u64 \<Rightarrow> blake2b_state" where
  "blake2b_increment_counter S inc =
     (let t0 = b2_t0 S + inc
      in S\<lparr>b2_t0 := t0, b2_t1 := b2_t1 S + (if t0 < inc then 1 else 0)\<rparr>)"

definition blake2b_init0 :: blake2b_state where
  "blake2b_init0 =
     \<lparr>b2_h = blake2b_IV, b2_t0 = 0, b2_t1 = 0, b2_f0 = 0, b2_f1 = 0,
      b2_buf = replicate BLAKE2B_BLOCKBYTES 0, b2_buflen = 0, b2_outlen = 0, b2_last_node = 0\<rparr>"

definition blake2b_init_param :: "blake2b_param \<Rightarrow> blake2b_state" where
  "blake2b_init_param P =
     (let S = blake2b_init0; p = param_bytes P
      in S\<lparr>b2_h := map (\<lambda>i. b2_h S ! i XOR load64 (take 8 (drop (8 * i) p))) [0..<8],
           b2_outlen := unat (digest_length P)\<rparr>)"

definition blake2b_init :: "nat \<Rightarrow> blake2b_state option" where
  "blake2b_init outlen =
     (if outlen = 0 \<or> outlen > BLAKE2B_OUTBYTES then None
      else Some (blake2b_init_param
        \<lparr>digest_length = of_nat outlen, key_length = 0, fanout = 1, depth = 1,
         leaf_length = 0, node_offset = 0, xof_length = 0, node_depth = 0, inner_length = 0,
         reserved = replicate 14 0, salt = replicate 16 0, personal = replicate 16 0\<rparr>))"

section \<open>Compression\<close>

definition blake2b_G :: "u64 list \<Rightarrow> nat \<Rightarrow> nat \<Rightarrow> nat \<Rightarrow> nat \<Rightarrow> nat \<Rightarrow> nat \<Rightarrow> u64 list \<Rightarrow> u64 list"
where
  "blake2b_G m r i a b c d v =
     (let v1 = v[a := v ! a + v ! b + m ! (blake2b_sigma ! r ! (2 * i))];
          v2 = v1[d := rotr64 (v1 ! d XOR v1 ! a) 32];
          v3 = v2[c := v2 ! c + v2 ! d];
          v4 = v3[b := rotr64 (v3 ! b XOR v3 ! c) 24];
          v5 = v4[a := v4 ! a + v4 ! b + m ! (blake2b_sigma ! r ! (2 * i + 1))];
          v6 = v5[d := rotr64 (v5 ! d XOR v5 ! a) 16];
          v7 = v6[c := v6 ! c + v6 ! d]
      in v7[b := rotr64 (v7 ! b XOR v7 ! c) 63])"

definition blake2b_ROUND :: "u64 list \<Rightarrow> nat \<Rightarrow> u64 list \<Rightarrow> u64 list" where
  "blake2b_ROUND m r v =
     (let v0 = blake2b_G m r 0 0 4 8 12 v;
          v1 = blake2b_G m r 1 1 5 9 13 v0;
          v2 = blake2b_G m r 2 2 6 10 14 v1;
          v3 = blake2b_G m r 3 3 7 11 15 v2;
          v4 = blake2b_G m r 4 0 5 10 15 v3;
          v5 = blake2b_G m r 5 1 6 11 12 v4;
          v6 = blake2b_G m r 6 2 7 8 13 v5
      in blake2b_G m r 7 3 4 9 14 v6)"

text \<open>The new value of \<open>S->h\<close>, from the old one, the counter and flag words and a block.\<close>

definition blake2b_compress_h :: "u64 list \<Rightarrow> u64 \<Rightarrow> u64 \<Rightarrow> u64 \<Rightarrow> u64 \<Rightarrow> byte list \<Rightarrow> u64 list" where
  "blake2b_compress_h h t0 t1 f0 f1 block =
     (let m = map (\<lambda>i. load64 (take 8 (drop (8 * i) block))) [0..<16];
          v = h @ [blake2b_IV ! 0, blake2b_IV ! 1, blake2b_IV ! 2, blake2b_IV ! 3,
                   blake2b_IV ! 4 XOR t0, blake2b_IV ! 5 XOR t1,
                   blake2b_IV ! 6 XOR f0, blake2b_IV ! 7 XOR f1];
          v' = fold (blake2b_ROUND m) [0..<12] v
      in map (\<lambda>i. h ! i XOR v' ! i XOR v' ! (i + 8)) [0..<8])"

definition blake2b_compress :: "blake2b_state \<Rightarrow> byte list \<Rightarrow> blake2b_state" where
  "blake2b_compress S block =
     S\<lparr>b2_h := blake2b_compress_h (b2_h S) (b2_t0 S) (b2_t1 S) (b2_f0 S) (b2_f1 S) block\<rparr>"

section \<open>Update and final\<close>

text \<open>The \<open>while\<close> loop of \<open>blake2b_update\<close>; it returns the state and the bytes left.\<close>

function blake2b_update_loop :: "blake2b_state \<Rightarrow> byte list \<Rightarrow> blake2b_state \<times> byte list" where
  "blake2b_update_loop S input =
     (if length input > BLAKE2B_BLOCKBYTES
      then blake2b_update_loop
             (blake2b_compress (blake2b_increment_counter S (of_nat BLAKE2B_BLOCKBYTES))
               (take BLAKE2B_BLOCKBYTES input))
             (drop BLAKE2B_BLOCKBYTES input)
      else (S, input))"
  by pat_completeness auto
termination by (relation "measure (\<lambda>(_, input). length input)") auto

declare blake2b_update_loop.simps [simp del]

definition blake2b_update :: "blake2b_state \<Rightarrow> byte list \<Rightarrow> blake2b_state" where
  "blake2b_update S input =
     (if length input > 0 then
        let left = b2_buflen S;
            fill = BLAKE2B_BLOCKBYTES - left;
            (S', rest) =
              (if length input > fill then
                 let S1 = S\<lparr>b2_buflen := 0, b2_buf := mem_write (b2_buf S) left (take fill input)\<rparr>;
                     S2 = blake2b_increment_counter S1 (of_nat BLAKE2B_BLOCKBYTES);
                     S3 = blake2b_compress S2 (b2_buf S2)
                 in blake2b_update_loop S3 (drop fill input)
               else (S, input))
        in S'\<lparr>b2_buf := mem_write (b2_buf S') (b2_buflen S') rest,
              b2_buflen := b2_buflen S' + length rest\<rparr>
      else S)"

text \<open>\<open>out_ok\<close>: the output pointer is not NULL. The result is the state and the bytes written.\<close>

definition blake2b_final :: "blake2b_state \<Rightarrow> bool \<Rightarrow> nat \<Rightarrow> (blake2b_state \<times> byte list) option" where
  "blake2b_final S out_ok outlen =
     (if \<not> out_ok \<or> outlen < b2_outlen S then None
      else if blake2b_is_lastblock S then None
      else
        let S1 = blake2b_increment_counter S (of_nat (b2_buflen S));
            S2 = blake2b_set_lastblock S1;
            S3 = S2\<lparr>b2_buf := mem_write (b2_buf S2) (b2_buflen S2)
                     (replicate (BLAKE2B_BLOCKBYTES - b2_buflen S2) 0)\<rparr>;
            S4 = blake2b_compress S3 (b2_buf S3);
            buffer = concat (map store64 (b2_h S4))
        in Some (S4, take (b2_outlen S4) buffer))"

definition blake2b_init_key :: "nat \<Rightarrow> byte list option \<Rightarrow> nat \<Rightarrow> blake2b_state option" where
  "blake2b_init_key outlen key keylen =
     (if outlen = 0 \<or> outlen > BLAKE2B_OUTBYTES then None
      else case key of None \<Rightarrow> None | Some k \<Rightarrow>
        if keylen = 0 \<or> keylen > BLAKE2B_KEYBYTES then None
        else
          let S = blake2b_init_param
                \<lparr>digest_length = of_nat outlen, key_length = of_nat keylen, fanout = 1, depth = 1,
                 leaf_length = 0, node_offset = 0, xof_length = 0, node_depth = 0,
                 inner_length = 0, reserved = replicate 14 0, salt = replicate 16 0,
                 personal = replicate 16 0\<rparr>;
              block = mem_write (replicate BLAKE2B_BLOCKBYTES 0) 0 (take keylen k)
          in Some (blake2b_update S block))"

text \<open>
  The one-call interface. It ignores the return value of \<open>blake2b_final\<close>; the result is the
  bytes that were written to \<open>out\<close>.
\<close>

definition blake2b ::
  "bool \<Rightarrow> nat \<Rightarrow> byte list option \<Rightarrow> nat \<Rightarrow> byte list option \<Rightarrow> nat \<Rightarrow> byte list option" where
  "blake2b out_ok outlen input inlen key keylen =
     (if input = None \<and> inlen > 0 then None
      else if \<not> out_ok then None
      else if key = None \<and> keylen > 0 then None
      else if outlen = 0 \<or> outlen > BLAKE2B_OUTBYTES then None
      else if keylen > BLAKE2B_KEYBYTES then None
      else
        case (if keylen > 0 then blake2b_init_key outlen key keylen else blake2b_init outlen) of
          None \<Rightarrow> None
        | Some S \<Rightarrow>
            let S' = blake2b_update S (take inlen (case input of None \<Rightarrow> [] | Some i \<Rightarrow> i))
            in (case blake2b_final S' out_ok outlen of
                  None \<Rightarrow> Some []
                | Some (_, out) \<Rightarrow> Some out))"

section \<open>The function of RFC 7693\<close>

text \<open>
  The reference: the state is the chain value and the number of bytes compressed; the message is
  consumed block by block, the last block (never empty unless the message is) is padded with
  zeros and compressed with the final flag. A key is the first block, padded.
\<close>

definition rfc_F :: "u64 list \<Rightarrow> nat \<Rightarrow> bool \<Rightarrow> byte list \<Rightarrow> u64 list" where
  "rfc_F h t final block =
     blake2b_compress_h h (of_nat t) (of_nat (t div 2 ^ 64)) (if final then -1 else 0) 0 block"

function rfc_absorb :: "u64 list \<Rightarrow> nat \<Rightarrow> byte list \<Rightarrow> u64 list \<times> nat \<times> byte list" where
  "rfc_absorb h t p =
     (if length p > 128 then rfc_absorb (rfc_F h (t + 128) False (take 128 p)) (t + 128) (drop 128 p)
      else (h, t, p))"
  by pat_completeness auto
termination by (relation "measure (\<lambda>(_, _, p). length p)") auto

declare rfc_absorb.simps [simp del]

definition rfc_h0 :: "nat \<Rightarrow> nat \<Rightarrow> u64 list" where
  "rfc_h0 outlen keylen =
     blake2b_IV[0 := blake2b_IV ! 0 XOR of_nat (0x01010000 + 256 * keylen + outlen)]"

definition rfc_blake2b :: "nat \<Rightarrow> byte list \<Rightarrow> byte list \<Rightarrow> byte list" where
  "rfc_blake2b outlen key msg =
     (let msg' = (if key = [] then msg else key @ replicate (128 - length key) 0 @ msg)
      in case rfc_absorb (rfc_h0 outlen (length key)) 0 msg' of
           (h, t, p) \<Rightarrow>
             take outlen (words_bytes
               (rfc_F h (t + length p) True (p @ replicate (128 - length p) 0))))"

section \<open>Lemmas\<close>

lemma load64_le: "length p = 8 \<Longrightarrow> load64 p = le_word p"
  by (auto simp: load64_def length_Suc_conv eval_nat_numeral push_bit_or)

lemma store64_le: "store64 w = le_bytes 8 w"
  by (simp add: store64_def le_bytes_def upt_rec)

lemma store32_le: "store32 w = le_bytes 4 w"
  by (simp add: store32_def le_bytes_def upt_rec)

lemma load32_le: "length p = 4 \<Longrightarrow> load32 p = le_word p"
  by (auto simp: load32_def length_Suc_conv eval_nat_numeral push_bit_or)

lemma load_store: "load64 (store64 w) = w" "load32 (store32 v) = v"
  by (simp_all add: load64_le load32_le store64_le store32_le le_word_le_bytes)

lemma store_load: "length p = 8 \<Longrightarrow> store64 (load64 p) = p"
  using le_bytes_le_word [of p, where 'a = 64] by (simp add: load64_le store64_le)

lemma length_param_bytes:
  "length (reserved P) = 14 \<Longrightarrow> length (salt P) = 16 \<Longrightarrow> length (personal P) = 16 \<Longrightarrow>
    length (param_bytes P) = 64"
  by (simp add: param_bytes_def store32_def)

lemma length_mem_write: "off + length src \<le> length buf \<Longrightarrow> length (mem_write buf off src) = length buf"
  by (simp add: mem_write_def)

lemma take_mem_write:
  "off + length src \<le> length buf \<Longrightarrow> take (off + length src) (mem_write buf off src) = take off buf @ src"
  by (simp add: mem_write_def)

lemma mem_write_full:
  "off + length src = length buf \<Longrightarrow> mem_write buf off src = take off buf @ src"
  by (simp add: mem_write_def)

text \<open>The two-word counter is the 128-bit byte count.\<close>

definition counter_is :: "blake2b_state \<Rightarrow> nat \<Rightarrow> bool" where
  "counter_is S t = (b2_t0 S = of_nat t \<and> b2_t1 S = of_nat (t div 2 ^ 64))"

lemma increment_counter:
  assumes "counter_is S t" "inc < 2 ^ 64"
  shows "counter_is (blake2b_increment_counter S (of_nat inc)) (t + inc)"
proof -
  define a where "a = t mod 2 ^ 64"
  define q where "q = t div 2 ^ 64"
  have t: "t = q * 2 ^ 64 + a" by (simp add: a_def q_def)
  have a: "a < 2 ^ 64" by (simp add: a_def)
  have sum: "(t + inc) div 2 ^ 64 = q + (a + inc) div 2 ^ 64" unfolding t by simp
  have u: "unat (of_nat t + of_nat inc :: u64) = (a + inc) mod 2 ^ 64"
    by (simp add: unat_word_ariths unat_of_nat a_def mod_simps)
  have i: "unat (of_nat inc :: u64) = inc" using assms(2) by (simp add: unat_of_nat)
  have "((of_nat t + of_nat inc :: u64) < of_nat inc) = (2 ^ 64 \<le> a + inc)"
  proof (cases "2 ^ 64 \<le> a + inc")
    case True
    then have "(a + inc) mod 2 ^ 64 = a + inc - 2 ^ 64"
      using a assms(2) by (simp add: le_mod_geq)
    then show ?thesis using True a by (simp add: word_less_nat_alt u i)
  qed (simp add: word_less_nat_alt u i)
  moreover have "(a + inc) div 2 ^ 64 = (if 2 ^ 64 \<le> a + inc then 1 else 0)"
    using a assms(2) by (simp add: le_div_geq)
  with sum have "(t + inc) div 2 ^ 64 = t div 2 ^ 64 + (if 2 ^ 64 \<le> a + inc then 1 else 0)"
    by (simp only: q_def)
  then have "(of_nat ((t + inc) div 2 ^ 64) :: u64) =
      of_nat (t div 2 ^ 64) + (if 2 ^ 64 \<le> a + inc then 1 else 0)"
    by (simp only: of_nat_add) simp
  ultimately show ?thesis using assms(1)
    by (simp only: counter_is_def blake2b_increment_counter_def Let_def of_nat_add) simp
qed

lemma counter_is_cong:
  "b2_t0 S' = b2_t0 S \<Longrightarrow> b2_t1 S' = b2_t1 S \<Longrightarrow> counter_is S' t = counter_is S t"
  by (simp add: counter_is_def)

lemma increment_counter_fields [simp]:
  "b2_h (blake2b_increment_counter S i) = b2_h S"
  "b2_f0 (blake2b_increment_counter S i) = b2_f0 S"
  "b2_f1 (blake2b_increment_counter S i) = b2_f1 S"
  "b2_buf (blake2b_increment_counter S i) = b2_buf S"
  "b2_buflen (blake2b_increment_counter S i) = b2_buflen S"
  "b2_outlen (blake2b_increment_counter S i) = b2_outlen S"
  "b2_last_node (blake2b_increment_counter S i) = b2_last_node S"
  by (simp_all add: blake2b_increment_counter_def Let_def)

lemma compress_fields [simp]:
  "b2_t0 (blake2b_compress S b) = b2_t0 S"
  "b2_t1 (blake2b_compress S b) = b2_t1 S"
  "b2_f0 (blake2b_compress S b) = b2_f0 S"
  "b2_f1 (blake2b_compress S b) = b2_f1 S"
  "b2_buf (blake2b_compress S b) = b2_buf S"
  "b2_buflen (blake2b_compress S b) = b2_buflen S"
  "b2_outlen (blake2b_compress S b) = b2_outlen S"
  "b2_last_node (blake2b_compress S b) = b2_last_node S"
  by (simp_all add: blake2b_compress_def)

lemma length_compress_h [simp]: "length (blake2b_compress_h h t0 t1 f0 f1 b) = 8"
  by (simp add: blake2b_compress_h_def Let_def)

text \<open>
  \<open>b2_open S h t n\<close>: chain value, bytes compressed, output length of a state that is not
  finalised; \<open>b2_rep S h t p n\<close>: moreover the buffer holds the pending bytes \<open>p\<close>.
\<close>

definition b2_open :: "blake2b_state \<Rightarrow> u64 list \<Rightarrow> nat \<Rightarrow> nat \<Rightarrow> bool" where
  "b2_open S h t n = (b2_h S = h \<and> counter_is S t \<and> b2_f0 S = 0 \<and> b2_f1 S = 0 \<and>
     b2_last_node S = 0 \<and> length (b2_buf S) = 128 \<and> b2_outlen S = n)"

definition b2_rep :: "blake2b_state \<Rightarrow> u64 list \<Rightarrow> nat \<Rightarrow> byte list \<Rightarrow> nat \<Rightarrow> bool" where
  "b2_rep S h t p n = (b2_open S h t n \<and> b2_buflen S = length p \<and> length p \<le> 128 \<and>
     take (length p) (b2_buf S) = p)"

lemma b2_open_step:
  assumes "b2_open S h t n"
  shows "b2_open (blake2b_compress (blake2b_increment_counter S (of_nat 128)) b)
    (rfc_F h (t + 128) False b) (t + 128) n"
proof -
  let ?S = "blake2b_increment_counter S (of_nat 128)"
  have "counter_is ?S (t + 128)"
    using assms by (intro increment_counter) (simp_all add: b2_open_def)
  then show ?thesis using assms
    by (simp add: b2_open_def counter_is_def rfc_F_def blake2b_compress_def del: of_nat_numeral)
qed

lemma update_loop_rep:
  assumes "b2_open S h t n" "b2_buflen S = 0"
  obtains S' h' t' p where "blake2b_update_loop S x = (S', p)" "rfc_absorb h t x = (h', t', p)"
    "b2_open S' h' t' n" "b2_buflen S' = 0" "length p \<le> 128"
  using assms
proof (induction S x arbitrary: h t thesis rule: blake2b_update_loop.induct)
  case (1 S x)
  show ?case
  proof (cases "length x > 128")
    case True
    note step = b2_open_step [OF "1.prems"(2), of "take 128 x"]
    show ?thesis
    proof (rule "1.IH" [OF True _ step])
      fix S' h' t' p
      assume "blake2b_update_loop (blake2b_compress (blake2b_increment_counter S (of_nat 128))
          (take 128 x)) (drop 128 x) = (S', p)"
        "rfc_absorb (rfc_F h (t + 128) False (take 128 x)) (t + 128) (drop 128 x) = (h', t', p)"
        "b2_open S' h' t' n" "b2_buflen S' = 0" "length p \<le> 128"
      then show thesis using True
        by (intro "1.prems"(1) [of S' p h' t'])
          (simp_all add: blake2b_update_loop.simps [of S x] rfc_absorb.simps [of h t x])
    qed (simp add: "1.prems"(3))
  next
    case False
    then show ?thesis using "1.prems"
      by (intro "1.prems"(1) [of S x h t])
        (simp_all add: blake2b_update_loop.simps [of S x] rfc_absorb.simps [of h t x])
  qed
qed

text \<open>\<open>update\<close> implements absorption: the buffer and the loop cut the stream where the reference does.\<close>

lemma update_rep:
  assumes "b2_rep S h t p n" "rfc_absorb h t (p @ x) = (h', t', p')"
  shows "b2_rep (blake2b_update S x) h' t' p' n"
proof -
  have o: "b2_open S h t n" and bl: "b2_buflen S = length p" "length p \<le> 128"
    and bf: "take (length p) (b2_buf S) = p"
    using assms(1) by (simp_all add: b2_rep_def)
  have len: "length (b2_buf S) = 128" using o by (simp add: b2_open_def)
  show ?thesis
  proof (cases "length (p @ x) > 128")
    case True
    let ?f = "128 - length p"
    have x: "length x > 0" "length x > ?f" using True bl by auto
    have blk: "take 128 (p @ x) = p @ take ?f x" "drop 128 (p @ x) = drop ?f x" using bl by simp_all
    define S1 where "S1 = S\<lparr>b2_buflen := 0, b2_buf := mem_write (b2_buf S) (length p) (take ?f x)\<rparr>"
    have b1: "b2_buf S1 = p @ take ?f x"
      using x bl len bf by (simp add: S1_def mem_write_full)
    have o1: "b2_open S1 h t n"
      using o x bl by (simp add: S1_def b2_open_def counter_is_def length_mem_write)
    define S3 where "S3 = blake2b_compress (blake2b_increment_counter S1 (of_nat 128)) (b2_buf S1)"
    have o3: "b2_open S3 (rfc_F h (t + 128) False (take 128 (p @ x))) (t + 128) n"
      unfolding S3_def b1 blk(1) by (rule b2_open_step [OF o1])
    have l3: "b2_buflen S3 = 0" by (simp add: S3_def S1_def)
    obtain S' h2 t2 p2 where r: "blake2b_update_loop S3 (drop ?f x) = (S', p2)"
      "rfc_absorb (rfc_F h (t + 128) False (take 128 (p @ x))) (t + 128) (drop ?f x) = (h2, t2, p2)"
      "b2_open S' h2 t2 n" "b2_buflen S' = 0" "length p2 \<le> 128"
      by (rule update_loop_rep [OF o3 l3])
    have eq: "h' = h2" "t' = t2" "p' = p2"
      using assms(2) True r(2) bl by (simp_all add: rfc_absorb.simps [of h t "p @ x"])
    have u: "blake2b_update S x = S'\<lparr>b2_buf := mem_write (b2_buf S') 0 p2, b2_buflen := length p2\<rparr>"
      using x r(1,4) by (simp add: blake2b_update_def bl S3_def S1_def Let_def)
    have "length (b2_buf S') = 128" using r(3) by (simp add: b2_open_def)
    then show ?thesis using r(3,5)
      by (simp add: u eq b2_rep_def b2_open_def counter_is_def mem_write_def)
  next
    case False
    then have p': "h' = h" "t' = t" "p' = p @ x"
      using assms(2) by (simp_all add: rfc_absorb.simps [of h t "p @ x"])
    show ?thesis
    proof (cases "x = []")
      case True
      then show ?thesis using assms(1) p' by (simp add: blake2b_update_def)
    next
      case ne: False
      have fit: "length p + length x \<le> 128" using False by simp
      have u: "blake2b_update S x =
          S\<lparr>b2_buf := mem_write (b2_buf S) (length p) x, b2_buflen := length p + length x\<rparr>"
        using ne fit by (simp add: blake2b_update_def bl Let_def)
      show ?thesis using o fit bf len
        by (simp add: u p' b2_rep_def b2_open_def counter_is_def length_mem_write take_mem_write)
    qed
  qed
qed

lemma absorb_append:
  "rfc_absorb h t p = (h1, t1, p1) \<Longrightarrow> rfc_absorb h t (p @ q) = rfc_absorb h1 t1 (p1 @ q)"
proof (induction h t p rule: rfc_absorb.induct)
  case (1 h t p)
  show ?case
  proof (cases "length p > 128")
    case True
    then have "rfc_absorb (rfc_F h (t + 128) False (take 128 p)) (t + 128) (drop 128 p @ q) =
        rfc_absorb h1 t1 (p1 @ q)"
      using "1.IH" "1.prems" by (simp add: rfc_absorb.simps [of h t p])
    then show ?thesis using True by (simp add: rfc_absorb.simps [of h t "p @ q"])
  next
    case False
    then show ?thesis using "1.prems" by (simp add: rfc_absorb.simps [of h t p])
  qed
qed

lemma rfc_absorb_pending: "rfc_absorb h t p = (h', t', p') \<Longrightarrow> length p' \<le> 128"
proof (induction h t p rule: rfc_absorb.induct)
  case (1 h t p)
  then show ?case by (cases "length p > 128") (simp_all add: rfc_absorb.simps [of h t p])
qed

text \<open>What \<open>final\<close> writes, and the state it leaves: further calls of \<open>final\<close> fail.\<close>

lemma concat_store64: "concat (map store64 ws) = words_bytes ws"
  by (simp add: words_bytes_def store64_le cong: map_cong)

lemma final_rep:
  assumes "b2_rep S h t p n" "n \<le> m"
  obtains S' where "blake2b_final S True m = Some (S',
      take n (words_bytes (rfc_F h (t + length p) True (p @ replicate (128 - length p) 0))))"
    "blake2b_is_lastblock S'"
proof -
  have o: "b2_open S h t n" and bl: "b2_buflen S = length p" "length p \<le> 128"
    and bf: "take (length p) (b2_buf S) = p"
    using assms(1) by (simp_all add: b2_rep_def)
  have len: "length (b2_buf S) = 128" using o by (simp add: b2_open_def)
  have pad: "mem_write (b2_buf S) (length p) (replicate (128 - length p) 0) =
      p @ replicate (128 - length p) 0"
    using bl len bf by (simp add: mem_write_full)
  have c: "counter_is (blake2b_increment_counter S (of_nat (length p))) (t + length p)"
    using o bl by (intro increment_counter) (simp_all add: b2_open_def)
  let ?S = "(blake2b_increment_counter S (of_nat (length p)))\<lparr>b2_f0 := -1,
    b2_buf := p @ replicate (128 - length p) 0\<rparr>"
  have "blake2b_final S True m = Some (blake2b_compress ?S (b2_buf ?S),
      take n (words_bytes (b2_h (blake2b_compress ?S (b2_buf ?S)))))"
    using o bl pad assms(2)
    by (simp add: blake2b_final_def blake2b_is_lastblock_def blake2b_set_lastblock_def b2_open_def
        Let_def concat_store64)
  moreover have "b2_h (blake2b_compress ?S (b2_buf ?S)) =
      rfc_F h (t + length p) True (p @ replicate (128 - length p) 0)"
    using o c by (simp add: blake2b_compress_def rfc_F_def counter_is_def b2_open_def)
  moreover have "blake2b_is_lastblock (blake2b_compress ?S (b2_buf ?S))"
    by (simp add: blake2b_is_lastblock_def)
  ultimately show thesis using that by auto
qed

section \<open>Initialisation\<close>

definition std_param :: "nat \<Rightarrow> nat \<Rightarrow> blake2b_param" where
  "std_param outlen keylen =
     \<lparr>digest_length = of_nat outlen, key_length = of_nat keylen, fanout = 1, depth = 1,
      leaf_length = 0, node_offset = 0, xof_length = 0, node_depth = 0, inner_length = 0,
      reserved = replicate 14 0, salt = replicate 16 0, personal = replicate 16 0\<rparr>"

lemma or_push_8: "(ucast (b :: byte) :: u64) OR push_bit 8 w = ucast b + 256 * w"
proof -
  have "(ucast b :: u64) AND push_bit 8 w = 0"
    by (rule bit_word_eqI) (auto simp: bit_simps dest: bit_imp_le_length)
  then have "(ucast b :: u64) OR push_bit 8 w = ucast b + push_bit 8 w"
    by (simp add: disjunctive_add_eq_or)
  then show ?thesis by (simp add: push_bit_eq_mult)
qed

lemma load64_low: "load64 [a, b, c, d, 0, 0, 0, 0] =
    ucast a + 256 * (ucast b + 256 * (ucast c + 256 * ucast d))"
  by (simp add: load64_le or_push_8)

lemma std_param_word0:
  assumes "n \<le> 64" "k \<le> 64"
  shows "load64 (take 8 (param_bytes (std_param n k))) = of_nat (0x01010000 + 256 * k + n)"
proof -
  have u: "(ucast (of_nat m :: byte) :: u64) = of_nat m" if "m \<le> 64" for m
    using that by (simp add: unsigned_of_nat take_bit_nat_eq_self)
  have "load64 (take 8 (param_bytes (std_param n k))) = load64 [of_nat n, of_nat k, 1, 1, 0, 0, 0, 0]"
    by (simp add: param_bytes_def std_param_def store32_def)
  then show ?thesis by (simp only: load64_low) (simp add: u assms algebra_simps)
qed

lemma load64_zeros: "load64 (replicate 8 0) = 0"
  by (simp add: load64_def eval_nat_numeral)

lemma std_param_words:
  assumes "0 < i" "i < 8"
  shows "load64 (take 8 (drop (8 * i) (param_bytes (std_param n k)))) = 0"
proof -
  have p: "drop 8 (param_bytes (std_param n k)) = replicate 56 0"
    by (simp add: param_bytes_def std_param_def store32_def eval_nat_numeral)
  have "drop (8 * i) (param_bytes (std_param n k)) = drop (8 * i - 8) (replicate 56 0)"
    using assms by (simp add: p [symmetric])
  also have "take 8 \<dots> = replicate 8 0" using assms by (simp add: min_def)
  finally show ?thesis by (simp only: load64_zeros)
qed

lemma init_param_rep:
  assumes "1 \<le> n" "n \<le> 64" "k \<le> 64"
  shows "b2_rep (blake2b_init_param (std_param n k)) (rfc_h0 n k) 0 [] n"
proof -
  have IV: "length blake2b_IV = 8" by (simp add: blake2b_IV_def)
  have "map (\<lambda>i. blake2b_IV ! i XOR
      load64 (take 8 (drop (8 * i) (param_bytes (std_param n k))))) [0..<8] = rfc_h0 n k"
  proof (rule nth_equalityI)
    fix i assume "i < length (map (\<lambda>i. blake2b_IV ! i XOR
        load64 (take 8 (drop (8 * i) (param_bytes (std_param n k))))) [0..<8])"
    then have i: "i < 8" by simp
    show "map (\<lambda>i. blake2b_IV ! i XOR
        load64 (take 8 (drop (8 * i) (param_bytes (std_param n k))))) [0..<8] ! i = rfc_h0 n k ! i"
    proof (cases "i = 0")
      case True
      then show ?thesis using std_param_word0 [OF assms(2,3)] by (simp add: rfc_h0_def IV)
    next
      case False
      then show ?thesis using i std_param_words [of i] by (simp add: rfc_h0_def)
    qed
  qed (simp add: rfc_h0_def IV)
  moreover have "unat (of_nat n :: byte) = n" using assms by (simp add: unat_of_nat)
  ultimately show ?thesis
    by (simp add: b2_rep_def b2_open_def counter_is_def blake2b_init_param_def blake2b_init0_def
        Let_def std_param_def)
qed

lemma blake2b_init_std: "1 \<le> n \<Longrightarrow> n \<le> 64 \<Longrightarrow> blake2b_init n = Some (blake2b_init_param (std_param n 0))"
  by (simp add: blake2b_init_def std_param_def)

lemma blake2b_init_key_std:
  assumes "1 \<le> n" "n \<le> 64" "1 \<le> length key" "length key \<le> 64"
  shows "blake2b_init_key n (Some key) (length key) =
    Some (blake2b_update (blake2b_init_param (std_param n (length key)))
      (key @ replicate (128 - length key) 0))"
proof -
  have "mem_write (replicate 128 0) 0 (take (length key) key) = key @ replicate (128 - length key) 0"
    by (simp add: mem_write_def)
  then show ?thesis using assms by (auto simp: blake2b_init_key_def std_param_def Let_def)
qed

lemma init_any_rep:
  assumes "1 \<le> n" "n \<le> 64" "length key \<le> 64"
  obtains S where
    "(if length key > 0 then blake2b_init_key n (Some key) (length key) else blake2b_init n) = Some S"
    "b2_rep S (rfc_h0 n (length key)) 0
      (if key = [] then [] else key @ replicate (128 - length key) 0) n"
proof (cases "key = []")
  case True
  then show ?thesis using that init_param_rep [OF assms(1,2), of 0] assms
    by (simp add: blake2b_init_std)
next
  case False
  let ?b = "key @ replicate (128 - length key) 0"
  have "b2_rep (blake2b_update (blake2b_init_param (std_param n (length key))) ?b)
      (rfc_h0 n (length key)) 0 ?b n"
    using assms(3)
    by (intro update_rep [OF init_param_rep [OF assms]]) (simp add: rfc_absorb.simps)
  then show ?thesis using that False assms
    by (simp add: blake2b_init_key_std Suc_le_eq)
qed

lemma blake2b_computes_rfc:
  assumes "1 \<le> n" "n \<le> 64" "length key \<le> 64"
  shows "blake2b True n (Some msg) (length msg) (Some key) (length key) =
    Some (rfc_blake2b n key msg)"
proof -
  let ?p = "if key = [] then [] else key @ replicate (128 - length key) 0"
  obtain S where i:
    "(if length key > 0 then blake2b_init_key n (Some key) (length key) else blake2b_init n) = Some S"
    and r: "b2_rep S (rfc_h0 n (length key)) 0 ?p n"
    by (rule init_any_rep [OF assms])
  obtain h t p where a: "rfc_absorb (rfc_h0 n (length key)) 0 (?p @ msg) = (h, t, p)"
    by (metis prod_cases3)
  obtain S' where f: "blake2b_final (blake2b_update S msg) True n = Some (S',
      take n (words_bytes (rfc_F h (t + length p) True (p @ replicate (128 - length p) 0))))"
    by (rule final_rep [OF update_rep [OF r a] order_refl])
  have "(if key = [] then msg else key @ replicate (128 - length key) 0 @ msg) = ?p @ msg" by simp
  with a have spec: "rfc_blake2b n key msg =
      take n (words_bytes (rfc_F h (t + length p) True (p @ replicate (128 - length p) 0)))"
    by (simp only: rfc_blake2b_def Let_def prod.case)
  show ?thesis using assms by (simp only: blake2b_def i) (simp add: Let_def f spec)
qed

lemma blake2b_unkeyed:
  assumes "1 \<le> n" "n \<le> 64"
  shows "blake2b True n (Some msg) (length msg) None 0 = Some (rfc_blake2b n [] msg)"
proof -
  have "blake2b True n (Some msg) (length msg) None 0 =
      blake2b True n (Some msg) (length msg) (Some []) (length [])"
    by (simp add: blake2b_def)
  then show ?thesis using blake2b_computes_rfc [OF assms, of "[]" msg] by (simp only: list.size)
qed

lemma length_rfc_blake2b: "n \<le> 64 \<Longrightarrow> length (rfc_blake2b n key msg) = n"
  by (simp add: rfc_blake2b_def rfc_F_def Let_def split: prod.split)

lemma blake2b_errors:
  assumes "\<not> out_ok \<or> n = 0 \<or> n > 64 \<or> keylen > 64 \<or> (input = None \<and> inlen > 0) \<or>
    (key = None \<and> keylen > 0)"
  shows "blake2b out_ok n input inlen key keylen = None"
  using assms by (auto simp: blake2b_def)

text \<open>Any number of updates absorbs the concatenation of their inputs.\<close>

lemma foldl_update_rep:
  "b2_rep S h t p n \<Longrightarrow> rfc_absorb h t (p @ concat xs) = (h', t', p') \<Longrightarrow>
    b2_rep (foldl blake2b_update S xs) h' t' p' n"
proof (induction xs arbitrary: S h t p)
  case Nil
  then show ?case by (auto simp: b2_rep_def rfc_absorb.simps [of h t p])
next
  case (Cons x xs)
  obtain h1 t1 p1 where a: "rfc_absorb h t (p @ x) = (h1, t1, p1)" by (metis prod_cases3)
  have "rfc_absorb h1 t1 (p1 @ concat xs) = (h', t', p')"
    using absorb_append [OF a, of "concat xs"] Cons.prems(2) by simp
  then show ?case using Cons.IH [OF update_rep [OF Cons.prems(1) a]] by simp
qed

lemma blake2b_streaming:
  assumes "1 \<le> n" "n \<le> 64"
  obtains S S' where "blake2b_init n = Some S"
    "blake2b_final (foldl blake2b_update S xs) True n = Some (S', rfc_blake2b n [] (concat xs))"
    "blake2b_final S' True n = None"
proof -
  let ?S = "blake2b_init_param (std_param n 0)"
  obtain h t p where a: "rfc_absorb (rfc_h0 n 0) 0 ([] @ concat xs) = (h, t, p)" by (metis prod_cases3)
  have r: "b2_rep (foldl blake2b_update ?S xs) h t p n"
    by (rule foldl_update_rep [OF init_param_rep [OF assms, of 0] a]) simp
  obtain S' where f: "blake2b_final (foldl blake2b_update ?S xs) True n = Some (S',
      take n (words_bytes (rfc_F h (t + length p) True (p @ replicate (128 - length p) 0))))"
    "blake2b_is_lastblock S'"
    by (rule final_rep [OF r order_refl])
  have "rfc_blake2b n [] (concat xs) =
      take n (words_bytes (rfc_F h (t + length p) True (p @ replicate (128 - length p) 0)))"
    using a by (simp add: rfc_blake2b_def)
  moreover have "blake2b_final S' True n = None" using f(2) by (simp add: blake2b_final_def)
  ultimately show ?thesis using that f(1) blake2b_init_std [OF assms] by simp
qed

end
