(* ===== verification/Hash_Utils.thy ===== *)
theory Hash_Utils
  imports Label_Bits Blake2b
begin

text \<open>
  The hashing and index helpers of \<open>oZKS/utilities.cpp\<close> and the hash interface \<open>oZKS/hash/hash.cpp\<close>
  (its default build, BLAKE2b): domain-separated hashes, leaf and node hashes with the dirty bit
  cleared, payload commitments, the batch index of a label and the integer logarithm. A
  \<open>hash_type\<close> is a list of 32 bytes; the dirty bit of a node is the least significant bit of
  byte 0 of its hash.
\<close>

type_synonym hash_type = "byte list"

datatype PayloadCommitmentType = UncommitedPayload | CommitedPayload
datatype LabelType = VRFLabels | HashedLabels
datatype TrieType = Stored | Linked | LinkedNoStorage

abbreviation hash_size :: nat where "hash_size \<equiv> 32"

definition zero_hash :: hash_type where
  "zero_hash = replicate hash_size 0"

section \<open>Hashing\<close>

text \<open>\<open>hash<sz>\<close> ignores the return value of \<open>blake2b\<close>; on failure the output stays as it was.\<close>

definition hash_sz :: "nat \<Rightarrow> byte list \<Rightarrow> byte list \<Rightarrow> byte list" where
  "hash_sz sz data hash_out =
     (case blake2b True sz (Some data) (length data) None 0 of None \<Rightarrow> hash_out | Some out \<Rightarrow> out)"

definition str_bytes :: "string \<Rightarrow> byte list" where
  "str_bytes s = map of_char s"

definition compute_hash :: "byte list \<Rightarrow> string \<Rightarrow> hash_type" where
  "compute_hash input domain_str = hash_sz hash_size (str_bytes domain_str @ input) zero_hash"

definition compute_hash_plain :: "byte list \<Rightarrow> hash_type" where
  "compute_hash_plain input = hash_sz hash_size input zero_hash"

definition clear_lsb :: "hash_type \<Rightarrow> hash_type" where
  "clear_lsb hash = hash[0 := hash ! 0 AND 0xFE]"

definition compute_key_hash :: "byte list \<Rightarrow> hash_type" where
  "compute_key_hash key = compute_hash key ''key_hash''"

definition compute_leaf_hash :: "partial_label \<Rightarrow> hash_type \<Rightarrow> u64 \<Rightarrow> hash_type" where
  "compute_leaf_hash label hash epoch =
     clear_lsb (compute_hash (words_bytes (pl_label label) @ hash @ le_bytes 8 epoch) ''leaf_hash'')"

definition compute_node_hash ::
  "partial_label \<Rightarrow> hash_type \<Rightarrow> partial_label \<Rightarrow> hash_type \<Rightarrow> hash_type" where
  "compute_node_hash left_label left_hash right_label right_hash =
     clear_lsb (compute_hash
       (words_bytes (pl_label left_label) @ left_hash @ words_bytes (pl_label right_label) @ right_hash)
       ''node_hash'')"

text \<open>
  \<open>random\<close>: what the random generator returns, \<open>None\<close> when it fails. The uncommitted case leaves
  the randomness as it was (\<open>uninit\<close>).
\<close>

definition compute_randomness_hash :: "byte list option \<Rightarrow> byte list \<Rightarrow> (hash_type \<times> byte list) result"
where
  "compute_randomness_hash random buffer =
     (case random of
        None \<Rightarrow> Inl (RuntimeError ''Failed to get random bytes'')
      | Some randomness \<Rightarrow> Inr (compute_hash (buffer @ randomness) ''randomness_hash'', randomness))"

definition commit_payload ::
  "byte list option \<Rightarrow> byte list \<Rightarrow> byte list \<Rightarrow> PayloadCommitmentType \<Rightarrow> (hash_type \<times> byte list) result"
where
  "commit_payload random uninit payload payload_commitment =
     (if payload_commitment = CommitedPayload then compute_randomness_hash random payload
      else Inr (compute_hash payload ''commitment_hash'', uninit))"

section \<open>Indices\<close>

text \<open>\<open>result\<close> is a \<open>size_t\<close>: the shift drops the top bit.\<close>

function insertion_index_loop :: "nat \<Rightarrow> partial_label \<Rightarrow> nat \<Rightarrow> u64 \<Rightarrow> u64 result" where
  "insertion_index_loop bit_count label idx res =
     (if idx < bit_count \<and> idx < pl_bit_count label then
        (case pl_bit label idx of
           Inl e \<Rightarrow> Inl e
         | Inr b \<Rightarrow>
             insertion_index_loop bit_count label (Suc idx) (push_bit 1 res OR of_bool b))
      else Inr res)"
  by pat_completeness auto
termination by (relation "measure (\<lambda>(n, _, idx, _). n - idx)") auto

declare insertion_index_loop.simps [simp del]

definition get_insertion_index :: "nat \<Rightarrow> partial_label \<Rightarrow> u64 result" where
  "get_insertion_index bit_count label = insertion_index_loop bit_count label 0 0"

function log2_loop :: "nat \<Rightarrow> nat \<Rightarrow> nat" where
  "log2_loop n r = (let n' = n div 2 in if n' \<noteq> 0 then log2_loop n' (Suc r) else r)"
  by pat_completeness auto
termination by (relation "measure fst") (auto simp: Let_def)

declare log2_loop.simps [simp del]

definition get_log2 :: "nat \<Rightarrow> nat" where
  "get_log2 n = log2_loop n 0"

section \<open>Hashes are 32 bytes and clean\<close>

definition dirty_bit :: "hash_type \<Rightarrow> bool" where
  "dirty_bit hash = (hash ! 0 AND 1 \<noteq> 0)"

definition is_hash :: "hash_type \<Rightarrow> bool" where
  "is_hash h = (length h = hash_size)"

lemma is_hash_zero [simp]: "is_hash zero_hash"
  by (simp add: is_hash_def zero_hash_def)

lemma and_1_word: "((w :: byte) AND 1 \<noteq> 0) = bit w 0"
  by (simp add: and_one_eq odd_iff_mod_2_eq_one [symmetric] bit_0)

lemma dirty_bit_iff: "dirty_bit h = bit (h ! 0) 0"
  by (simp only: dirty_bit_def and_1_word)

lemma bit_0xFE: "bit (0xFE :: byte) n = (1 \<le> n \<and> n < 8)"
proof -
  have eq: "(0xFE :: byte) = NOT 1" by simp
  show ?thesis unfolding eq bit_not_iff by (auto simp: bit_1_iff)
qed

lemma clear_lsb_clean [simp]: "h \<noteq> [] \<Longrightarrow> \<not> dirty_bit (clear_lsb h)"
  by (simp add: dirty_bit_iff clear_lsb_def bit_and_iff bit_0xFE)

lemma clear_lsb_id: "\<not> dirty_bit h \<Longrightarrow> h \<noteq> [] \<Longrightarrow> clear_lsb h = h"
proof -
  assume d: "\<not> dirty_bit h" and "h \<noteq> []"
  have "h ! 0 AND 0xFE = h ! 0"
  proof (rule bit_word_eqI)
    fix n assume "n < LENGTH(8)"
    then show "bit (h ! 0 AND 0xFE) n = bit (h ! 0) n"
      using d by (cases n) (simp_all only: bit_and_iff bit_0xFE dirty_bit_iff, simp_all)
  qed
  then show ?thesis by (simp add: clear_lsb_def)
qed

lemma length_clear_lsb [simp]: "length (clear_lsb h) = length h"
  by (simp add: clear_lsb_def)

lemma hash_sz_eq: "1 \<le> sz \<Longrightarrow> sz \<le> 64 \<Longrightarrow> hash_sz sz data out = rfc_blake2b sz [] data"
  by (simp add: hash_sz_def blake2b_unkeyed)

lemma length_compute_hash [simp]: "length (compute_hash x d) = 32"
  by (simp add: compute_hash_def hash_sz_eq length_rfc_blake2b)

lemma is_hash_compute [simp]: "is_hash (compute_hash x d)"
  "is_hash (compute_leaf_hash l h e)" "is_hash (compute_node_hash l1 h1 l2 h2)"
  by (simp_all add: is_hash_def compute_leaf_hash_def compute_node_hash_def)

lemma is_hash_ne: "is_hash h \<Longrightarrow> h \<noteq> []"
  by (auto simp: is_hash_def)

lemma compute_clean [simp]:
  "\<not> dirty_bit (compute_leaf_hash l h e)" "\<not> dirty_bit (compute_node_hash l1 h1 l2 h2)"
  by (simp_all add: compute_leaf_hash_def compute_node_hash_def is_hash_ne)

section \<open>The index functions\<close>

lemma log2_loop_spec:
  "0 < n \<Longrightarrow> 2 ^ (log2_loop n r - r) \<le> n \<and> n < 2 ^ Suc (log2_loop n r - r) \<and> r \<le> log2_loop n r"
proof (induction n r rule: log2_loop.induct)
  case (1 n r)
  show ?case
  proof (cases "n div 2 = 0")
    case False
    define k where "k = log2_loop (n div 2) (Suc r)"
    have IH: "2 ^ (k - Suc r) \<le> n div 2" "n div 2 < 2 ^ Suc (k - Suc r)" "Suc r \<le> k"
      using "1.IH" [OF refl] False by (simp_all add: k_def)
    have k: "log2_loop n r = k" using False by (simp add: log2_loop.simps [of n r] Let_def k_def)
    have s: "k - r = Suc (k - Suc r)" using IH(3) by simp
    show ?thesis unfolding k s power_Suc using IH by (simp only: power_Suc) linarith
  next
    case True
    then have "n = 1" "log2_loop n r = r"
      using "1.prems" by (auto simp: log2_loop.simps [of n r])
    then show ?thesis by simp
  qed
qed

lemma get_log2_spec:
  assumes "0 < n"
  shows "2 ^ get_log2 n \<le> n \<and> n < 2 ^ Suc (get_log2 n)"
  using log2_loop_spec [OF assms, of 0] by (simp add: get_log2_def)

lemma get_log2_power: "get_log2 (2 ^ k) = k"
proof -
  have "(2 :: nat) ^ get_log2 (2 ^ k) \<le> 2 ^ k" "(2 :: nat) ^ k < 2 ^ Suc (get_log2 (2 ^ k))"
    using get_log2_spec [of "2 ^ k"] by simp_all
  then have "get_log2 (2 ^ k) \<le> k" "k < Suc (get_log2 (2 ^ k))"
    by (simp_all del: power_Suc)
  then show ?thesis by simp
qed

text \<open>The value of a bit string, most significant bit first.\<close>

definition bits_value :: "bool list \<Rightarrow> nat" where
  "bits_value bs = foldl (\<lambda>v b. 2 * v + of_bool b) 0 bs"

lemma bits_value_snoc: "bits_value (bs @ [b]) = 2 * bits_value bs + of_bool b"
  by (simp add: bits_value_def)

lemma bits_value_less: "bits_value bs < 2 ^ length bs"
  by (induction bs rule: rev_induct) (auto simp: bits_value_snoc bits_value_def split: if_splits)

lemma pl_bits_take_Suc: "i < pl_bit_count l \<Longrightarrow> take (Suc i) (pl_bits l) = take i (pl_bits l) @ [pl_bits l ! i]"
  by (simp add: take_Suc_conv_app_nth)

lemma push_or_bit: "push_bit 1 (of_nat v :: u64) OR of_bool b = of_nat (2 * v + of_bool b)"
proof -
  have "push_bit 1 (of_nat v :: u64) AND of_bool b = 0"
    by (rule bit_word_eqI) (auto simp only: bit_and_iff bit_push_bit_iff bit_of_bool_iff, simp_all)
  then have "push_bit 1 (of_nat v :: u64) OR of_bool b = push_bit 1 (of_nat v) + of_bool b"
    by (simp add: disjunctive_add_eq_or)
  then show ?thesis by (simp add: push_bit_eq_mult)
qed

lemma insertion_index_loop_spec:
  assumes "pl_valid label" "idx \<le> min bit_count (pl_bit_count label)"
  shows "insertion_index_loop bit_count label idx (of_nat (bits_value (take idx (pl_bits label)))) =
    Inr (of_nat (bits_value (take bit_count (pl_bits label))))"
  using assms(2)
proof (induction "min bit_count (pl_bit_count label) - idx" arbitrary: idx)
  case 0
  then have "\<not> (idx < bit_count \<and> idx < pl_bit_count label)" by auto
  moreover have "take idx (pl_bits label) = take bit_count (pl_bits label)"
    using 0 by (auto simp: min_def split: if_splits)
  ultimately show ?case by (simp only: insertion_index_loop.simps [of _ _ idx] if_False)
next
  case (Suc n)
  then have i: "idx < bit_count" "idx < pl_bit_count label" by auto
  have "pl_bit label idx = Inr (pl_bits label ! idx)"
    using i pl_validD [OF assms(1)] by (intro pl_bit_nth) auto
  moreover have "insertion_index_loop bit_count label (Suc idx)
      (of_nat (bits_value (take (Suc idx) (pl_bits label)))) =
      Inr (of_nat (bits_value (take bit_count (pl_bits label))))"
    using Suc i by (intro Suc.hyps(1)) auto
  ultimately show ?case using i
    by (simp only: insertion_index_loop.simps [of _ _ idx] push_or_bit pl_bits_take_Suc
        bits_value_snoc conj_absorb if_True sum.case simp_thms)
qed

lemma get_insertion_index_spec:
  assumes "pl_valid label"
  shows "get_insertion_index n label = Inr (of_nat (bits_value (take n (pl_bits label))))"
  using insertion_index_loop_spec [OF assms, of 0 n] by (simp add: get_insertion_index_def bits_value_def)

lemma insertion_index_bound:
  assumes "pl_valid label" "n < 64"
  obtains i where "get_insertion_index n label = Inr i" "unat i < 2 ^ n"
    "unat i = bits_value (take n (pl_bits label))"
proof -
  have "bits_value (take n (pl_bits label)) < 2 ^ length (take n (pl_bits label))"
    by (rule bits_value_less)
  also have "\<dots> \<le> 2 ^ n" by (rule power_increasing) simp_all
  finally have b: "bits_value (take n (pl_bits label)) < 2 ^ n" .
  also have "(2 :: nat) ^ n < 2 ^ 64" using assms(2) by (rule power_strict_increasing) simp
  finally have "unat (of_nat (bits_value (take n (pl_bits label))) :: u64) =
      bits_value (take n (pl_bits label))"
    by (simp add: unat_of_nat)
  with b show ?thesis using that get_insertion_index_spec [OF assms(1), of n] by metis
qed

end
