(* ===== verification/CT_Node.thy ===== *)
theory CT_Node
  imports Hash_Utils
begin

text \<open>
  The nodes of the compressed trie (\<open>oZKS/ct_node.h\<close>, \<open>oZKS/ct_node.cpp\<close>) in their in-memory
  form \<open>CTNodeLinked\<close> (\<open>oZKS/ct_node_linked.h\<close>, \<open>oZKS/ct_node_linked.cpp\<close>): label, hash with the
  dirty bit, two child pointers. No node is shared, so a subtree is a value of the datatype
  \<open>ctnode\<close>; the null pointer is \<open>Nullptr\<close>. Each operation returns the node it leaves behind and
  the nodes it handed to \<open>save_to_storage\<close>, in program order; whether they reach a storage or a
  map of updated nodes is decided by the trie. Calling a method on the null pointer, which the
  code never does, is an exception in the model.
\<close>

section \<open>Data\<close>

datatype ctnode =
    Nullptr
  | Node (n_label: partial_label) (n_hash: hash_type) (n_left: ctnode) (n_right: ctnode)

text \<open>What \<open>save_to_storage\<close> writes: a \<open>CTNodeStored\<close> with the labels of its children.\<close>

datatype stored_node =
  StoredNode (s_label: partial_label) (s_hash: hash_type) (s_left: partial_label) (s_right: partial_label)

type_synonym lookup_path_type = "(partial_label \<times> hash_type) list"

definition set_dirty_bit :: "bool \<Rightarrow> hash_type \<Rightarrow> hash_type" where
  "set_dirty_bit dirty hash = hash[0 := (hash ! 0 AND 0xFE) OR (if dirty then 1 else 0)]"

text \<open>\<open>label()\<close> of a child pointer, default-constructed where there is none, and \<open>hash()\<close>.\<close>

definition node_label :: "ctnode \<Rightarrow> partial_label" where
  "node_label n = (case n of Nullptr \<Rightarrow> pl_default | Node l _ _ _ \<Rightarrow> l)"

definition node_hash :: "ctnode \<Rightarrow> hash_type" where
  "node_hash n = (case n of Nullptr \<Rightarrow> zero_hash | Node _ h _ _ \<Rightarrow> clear_lsb h)"

definition get_dirty_bit :: "ctnode \<Rightarrow> bool" where
  "get_dirty_bit n = (case n of Nullptr \<Rightarrow> False | Node _ h _ _ \<Rightarrow> dirty_bit h)"

definition is_leaf :: "ctnode \<Rightarrow> bool" where
  "is_leaf n = (case n of Nullptr \<Rightarrow> False | Node _ _ l r \<Rightarrow> l = Nullptr \<and> r = Nullptr)"

definition is_root :: "ctnode \<Rightarrow> bool" where
  "is_root n = pl_empty (node_label n)"

definition save_node :: "ctnode \<Rightarrow> stored_node" where
  "save_node n =
     (case n of
        Nullptr \<Rightarrow> StoredNode pl_default zero_hash pl_default pl_default
      | Node lbl h l r \<Rightarrow>
          StoredNode lbl (set_dirty_bit False h) (node_label l) (node_label r))"

text \<open>The constructors: an empty root, a leaf, a copied leaf, a fresh internal node.\<close>

definition new_root :: ctnode where
  "new_root = Node pl_default zero_hash Nullptr Nullptr"

definition new_leaf :: "partial_label \<Rightarrow> hash_type \<Rightarrow> u64 \<Rightarrow> ctnode" where
  "new_leaf lbl hash epoch =
     Node lbl (set_dirty_bit False (compute_leaf_hash lbl hash epoch)) Nullptr Nullptr"

definition new_leaf_hash :: "partial_label \<Rightarrow> hash_type \<Rightarrow> ctnode" where
  "new_leaf_hash lbl hash = Node lbl (set_dirty_bit False hash) Nullptr Nullptr"

definition new_internal :: "partial_label \<Rightarrow> ctnode" where
  "new_internal lbl = Node lbl (set_dirty_bit True zero_hash) Nullptr Nullptr"

text \<open>\<open>set_left_node\<close> and \<open>set_right_node\<close>: store the child and mark the node dirty.\<close>

fun set_left_node :: "ctnode \<Rightarrow> ctnode \<Rightarrow> ctnode" where
  "set_left_node c (Node lbl h l r) = Node lbl (set_dirty_bit True h) c r"
| "set_left_node c Nullptr = Nullptr"

fun set_right_node :: "ctnode \<Rightarrow> ctnode \<Rightarrow> ctnode" where
  "set_right_node c (Node lbl h l r) = Node lbl (set_dirty_bit True h) l c"
| "set_right_node c Nullptr = Nullptr"

text \<open>\<open>init(label)\<close> turns a node into an internal one; a non-root leaf is refused.\<close>

definition init_label :: "partial_label \<Rightarrow> ctnode \<Rightarrow> ctnode result" where
  "init_label lbl n =
     (if \<not> is_root n \<and> is_leaf n then Inl (RuntimeError ''Should not be used for leaf nodes'')
      else case n of
             Nullptr \<Rightarrow> Inr Nullptr
           | Node _ h l r \<Rightarrow> Inr (Node lbl (set_dirty_bit True h) l r))"

section \<open>Insertion\<close>

text \<open>\<open>nullptr != child && child->label()[i] == b\<close>.\<close>

definition has_route :: "bool \<Rightarrow> nat \<Rightarrow> ctnode \<Rightarrow> bool result" where
  "has_route b i child =
     (case child of
        Nullptr \<Rightarrow> Inr False
      | Node lbl _ _ _ \<Rightarrow> (case pl_bit lbl i of Inl e \<Rightarrow> Inl e | Inr c \<Rightarrow> Inr (c = b)))"

text \<open>Converting a leaf: the old leaf and the new one become children of the node.\<close>

definition insert_at_leaf ::
  "partial_label \<Rightarrow> hash_type \<Rightarrow> u64 \<Rightarrow> partial_label \<Rightarrow> bool \<Rightarrow> ctnode \<Rightarrow> (ctnode \<times> stored_node list) result"
where
  "insert_at_leaf insert_label insert_hash epoch common next_bit n =
     (let old = new_leaf_hash (node_label n) (node_hash n);
          new = new_leaf insert_label insert_hash epoch;
          left = (if \<not> next_bit then new else old);
          right = (if \<not> next_bit then old else new)
      in case init_label common (set_right_node right (set_left_node left n)) of
           Inl e \<Rightarrow> Inl e
         | Inr n' \<Rightarrow> Inr (n', [save_node left, save_node right, save_node n']))"

text \<open>
  No route to follow: either the slot is free, or the node is pushed down, with its children,
  next to the new leaf.
\<close>

definition insert_here ::
  "partial_label \<Rightarrow> hash_type \<Rightarrow> u64 \<Rightarrow> partial_label \<Rightarrow> bool \<Rightarrow> ctnode \<Rightarrow> (ctnode \<times> stored_node list) result"
where
  "insert_here insert_label insert_hash epoch common next_bit n =
     (let new = new_leaf insert_label insert_hash epoch;
          moved0 = new_internal (node_label n);
          moved1 = (if n_left n \<noteq> Nullptr then set_left_node (n_left n) moved0 else moved0);
          moved = (if n_right n \<noteq> Nullptr then set_right_node (n_right n) moved1 else moved1)
      in
      if next_bit then
        if n_right n = Nullptr then
          let n' = set_right_node new n in Inr (n', [save_node n', save_node new])
        else
          (case init_label common (set_right_node new (set_left_node moved n)) of
             Inl e \<Rightarrow> Inl e
           | Inr n' \<Rightarrow> Inr (n', [save_node moved, save_node new, save_node n']))
      else
        if n_left n = Nullptr then
          let n' = set_left_node new n in Inr (n', [save_node n', save_node new])
        else
          (case init_label common (set_right_node moved (set_left_node new n)) of
             Inl e \<Rightarrow> Inl e
           | Inr n' \<Rightarrow> Inr (n', [save_node new, save_node moved, save_node n'])))"

text \<open>An exception leaves the tree as it was: nothing is written before the recursive call returns.\<close>

fun ct_insert ::
  "partial_label \<Rightarrow> hash_type \<Rightarrow> u64 \<Rightarrow> ctnode \<Rightarrow> (ctnode \<times> stored_node list) result" where
  "ct_insert insert_label insert_hash epoch Nullptr = Inl (LogicError ''null pointer'')"
| "ct_insert insert_label insert_hash epoch (Node lbl h l r) =
     (if insert_label = lbl then Inl (RuntimeError ''Attempting to insert the same label'')
      else
        let n = Node lbl h l r;
            common = common_prefix insert_label lbl;
            i = pl_bit_count common
        in case pl_bit insert_label i of
             Inl e \<Rightarrow> Inl e
           | Inr next_bit \<Rightarrow>
               if is_leaf n \<and> \<not> is_root n then
                 insert_at_leaf insert_label insert_hash epoch common next_bit n
               else if next_bit then
                 (case has_route True i r of
                    Inl e \<Rightarrow> Inl e
                  | Inr True \<Rightarrow>
                      (case ct_insert insert_label insert_hash epoch r of
                         Inl e \<Rightarrow> Inl e
                       | Inr (r', saved) \<Rightarrow>
                           let n' = Node lbl (set_dirty_bit True h) l r'
                           in Inr (n', saved @ [save_node n']))
                  | Inr False \<Rightarrow> insert_here insert_label insert_hash epoch common next_bit n)
               else
                 (case has_route False i l of
                    Inl e \<Rightarrow> Inl e
                  | Inr True \<Rightarrow>
                      (case ct_insert insert_label insert_hash epoch l of
                         Inl e \<Rightarrow> Inl e
                       | Inr (l', saved) \<Rightarrow>
                           let n' = Node lbl (set_dirty_bit True h) l' r
                           in Inr (n', saved @ [save_node n']))
                  | Inr False \<Rightarrow> insert_here insert_label insert_hash epoch common next_bit n))"

section \<open>Hash updates\<close>

definition update_hash :: "nat \<Rightarrow> nat \<Rightarrow> ctnode \<Rightarrow> bool result \<times> ctnode" where
  "update_hash level root_levels n =
     (if root_levels > 0 \<and> level < root_levels then (Inr False, n)
      else if \<not> get_dirty_bit n then (Inr False, n)
      else if is_leaf n then (Inl (RuntimeError ''Should not be used for leaf nodes''), n)
      else if get_dirty_bit (n_left n) then (Inr False, n)
      else if get_dirty_bit (n_right n) then (Inr False, n)
      else (Inr True,
            Node (n_label n)
              (compute_node_hash (node_label (n_left n)) (node_hash (n_left n))
                 (node_label (n_right n)) (node_hash (n_right n)))
              (n_left n) (n_right n)))"

text \<open>\<open>if (n->update_hash(..)) n->save_to_storage(..)\<close>.\<close>

definition update_and_save ::
  "nat \<Rightarrow> nat \<Rightarrow> ctnode \<Rightarrow> ozks_error option \<times> ctnode \<times> stored_node list" where
  "update_and_save level root_levels n =
     (case update_hash level root_levels n of
        (Inl e, n') \<Rightarrow> (Some e, n', [])
      | (Inr b, n') \<Rightarrow> (None, n', if b then [save_node n'] else []))"

section \<open>Recursive lookup\<close>

text \<open>The path entries the recursive lookup adds when the label is not there.\<close>

definition path_entry :: "ctnode \<Rightarrow> lookup_path_type" where
  "path_entry n = (if n = Nullptr then [] else [(node_label n, node_hash n)])"

text \<open>
  The private member \<open>lookup\<close>. It returns the outcome, the path, the node as it is left behind
  (hashes may have been updated below it even when an exception is thrown) and the nodes saved.
\<close>

fun ct_lookup_rec ::
  "partial_label \<Rightarrow> bool \<Rightarrow> bool \<Rightarrow> nat \<Rightarrow> nat \<Rightarrow> lookup_path_type \<Rightarrow> ctnode \<Rightarrow>
     bool result \<times> lookup_path_type \<times> ctnode \<times> stored_node list" where
  "ct_lookup_rec lookup_label include_searched upd level root_levels path Nullptr =
     (Inl (LogicError ''null pointer''), path, Nullptr, [])"
| "ct_lookup_rec lookup_label include_searched upd level root_levels path (Node lbl h l r) =
     (let n = Node lbl h l r in
      if lbl = lookup_label then
        if include_searched \<and> upd then
          (Inl (LogicError ''Should not use both update_hashes and include_searched''), path, n, [])
        else
          let path' = (if include_searched then path @ path_entry n else path) in
          if upd then
            (case update_and_save level root_levels n of
               (Some e, n', saved) \<Rightarrow> (Inl e, path', n', saved)
             | (None, n', saved) \<Rightarrow> (Inr True, path', n', saved))
          else (Inr True, path', n, [])
      else if is_leaf n then (Inr False, path, n, [])
      else
        let common_count = common_prefix_count lookup_label lbl in
        case pl_bit lookup_label common_count of
          Inl e \<Rightarrow> (Inl e, path, n, [])
        | Inr next_bit \<Rightarrow>
            (case has_route next_bit common_count (if next_bit then r else l) of
               Inl e \<Rightarrow> (Inl e, path, n, [])
             | Inr False \<Rightarrow>
                 if path = [] then
                   (Inr False,
                    (if upd then path
                     else path_entry l @ path_entry r @ (if pl_empty lbl then [] else path_entry n)),
                    n, [])
                 else if upd then
                   (case update_and_save level root_levels n of
                      (Some e, n', saved) \<Rightarrow> (Inl e, path, n', saved)
                    | (None, n', saved) \<Rightarrow> (Inr False, path, n', saved))
                 else (Inr False, path, n, [])
             | Inr True \<Rightarrow>
                 (case ct_lookup_rec lookup_label include_searched upd (level + 1) root_levels path
                         (if next_bit then r else l) of
                    (res, path', child', saved) \<Rightarrow>
                      let n1 = (if next_bit then Node lbl h l child' else Node lbl h child' r);
                          sibling = (if next_bit then l else r)
                      in (case res of
                            Inl e \<Rightarrow> (Inl e, path', n1, saved)
                          | Inr found \<Rightarrow>
                              if \<not> found \<and> path' = [] then
                                (Inr found,
                                 (if upd then path'
                                  else path_entry (n_left n1) @ path_entry (n_right n1) @
                                    (if pl_empty lbl then [] else path_entry n1)),
                                 n1, saved)
                              else if upd then
                                (case (if sibling = Nullptr then (None, sibling, [])
                                       else update_and_save (level + 1) root_levels sibling) of
                                   (err, sibling', saved1) \<Rightarrow>
                                     let n2 = (if next_bit then Node lbl h sibling' child'
                                               else Node lbl h child' sibling')
                                     in (case err of
                                           Some e \<Rightarrow> (Inl e, path', n2, saved @ saved1)
                                         | None \<Rightarrow>
                                             (case update_and_save level root_levels n2 of
                                                (Some e, n3, saved2) \<Rightarrow>
                                                  (Inl e, path', n3, saved @ saved1 @ saved2)
                                              | (None, n3, saved2) \<Rightarrow>
                                                  (Inr found, path', n3, saved @ saved1 @ saved2))))
                              else (Inr found, path' @ path_entry sibling, n1, saved)))))"

definition ct_lookup_member ::
  "partial_label \<Rightarrow> bool \<Rightarrow> lookup_path_type \<Rightarrow> ctnode \<Rightarrow> bool result \<times> lookup_path_type" where
  "ct_lookup_member lookup_label include_searched path n =
     (case ct_lookup_rec lookup_label include_searched False 0 0 path n of
        (res, path', _, _) \<Rightarrow> (res, path'))"

definition update_hashes ::
  "partial_label \<Rightarrow> nat \<Rightarrow> ctnode \<Rightarrow> unit result \<times> ctnode \<times> stored_node list" where
  "update_hashes lbl root_levels n =
     (case ct_lookup_rec lbl False True 0 root_levels [] n of
        (Inl e, _, n', saved) \<Rightarrow> (Inl e, n', saved)
      | (Inr found, _, n', saved) \<Rightarrow>
          (if found then Inr ()
           else Inl (RuntimeError ''Should have found the path of the label to update hashes''),
           n', saved))"

section \<open>Iterative lookup\<close>

text \<open>
  The static \<open>lookup\<close>. \<open>lookup_path\<close> is the vector of visited siblings; at a leaf that is not the
  label the leaf is put at the end, or before the last element when the last sibling is a right
  child. A null child ends the loop.
\<close>

fun ct_lookup_loop ::
  "partial_label \<Rightarrow> bool \<Rightarrow> bool \<Rightarrow> lookup_path_type \<Rightarrow> ctnode \<Rightarrow> (bool \<times> lookup_path_type) result"
where
  "ct_lookup_loop lookup_label include_searched sibling_is_left lookup_path Nullptr =
     Inr (False, lookup_path)"
| "ct_lookup_loop lookup_label include_searched sibling_is_left lookup_path (Node lbl h l r) =
     (let n = Node lbl h l r in
      if get_dirty_bit n then
        Inl (RuntimeError ''Cannot perform lookup with a dirty node - current'')
      else if lbl = lookup_label then
        Inr (True, if include_searched then lookup_path @ path_entry n else lookup_path)
      else if is_leaf n then
        Inr (False,
          if sibling_is_left then lookup_path @ path_entry n
          else butlast lookup_path @ path_entry n @ (if lookup_path = [] then [] else [last lookup_path]))
      else
        case pl_bit lookup_label (common_prefix_count lookup_label lbl) of
          Inl e \<Rightarrow> Inl e
        | Inr next_bit \<Rightarrow>
            let sibling = (if next_bit then l else r) in
            if get_dirty_bit sibling then
              Inl (RuntimeError ''Cannot perform lookup with a dirty node - sibling'')
            else
              ct_lookup_loop lookup_label include_searched next_bit
                (lookup_path @ path_entry sibling) (if next_bit then r else l))"

definition ct_lookup ::
  "partial_label \<Rightarrow> bool \<Rightarrow> ctnode \<Rightarrow> (bool \<times> lookup_path_type) result" where
  "ct_lookup lookup_label include_searched root =
     (case ct_lookup_loop lookup_label include_searched False [] root of
        Inl e \<Rightarrow> Inl e
      | Inr (found, lookup_path) \<Rightarrow> Inr (found, rev lookup_path))"

end
