(* ===== verification/CT_Insert.thy ===== *)
theory CT_Insert
  imports CT_Node
begin

text \<open>
  Insertion into the trie: the structural invariant (\<open>ct_wf\<close> for subtrees, \<open>root_wf\<close> for the
  root), what an insertion adds, when it throws, and what it saves. A trie stands for the set of
  its leaves; \<open>ct_shape\<close> and \<open>leaves_determine_shape\<close> show that this set determines the tree up to
  the hashes of internal nodes, whatever the order of insertions.
\<close>

section \<open>Invariant and abstraction\<close>

fun ct_wf :: "ctnode \<Rightarrow> bool" where
  "ct_wf Nullptr = False"
| "ct_wf (Node lbl h l r) =
     (pl_valid lbl \<and> is_hash h \<and>
      ((l = Nullptr \<and> r = Nullptr \<and> \<not> dirty_bit h) \<or>
       (ct_wf l \<and> ct_wf r \<and>
        is_prefix (pl_bits lbl @ [False]) (pl_bits (node_label l)) \<and>
        is_prefix (pl_bits lbl @ [True]) (pl_bits (node_label r)))))"

definition child_wf :: "bool \<Rightarrow> ctnode \<Rightarrow> bool" where
  "child_wf b c = (c = Nullptr \<or> ct_wf c \<and> is_prefix [b] (pl_bits (node_label c)))"

definition root_wf :: "ctnode \<Rightarrow> bool" where
  "root_wf t = (case t of Nullptr \<Rightarrow> False
     | Node lbl h l r \<Rightarrow> lbl = pl_default \<and> is_hash h \<and> child_wf False l \<and> child_wf True r)"

fun ct_leaves :: "ctnode \<Rightarrow> (partial_label \<times> hash_type) list" where
  "ct_leaves Nullptr = []"
| "ct_leaves (Node lbl h l r) =
     (if l = Nullptr \<and> r = Nullptr then [(lbl, h)] else ct_leaves l @ ct_leaves r)"

definition trie_leaves :: "ctnode \<Rightarrow> (partial_label \<times> hash_type) set" where
  "trie_leaves t = set (ct_leaves (n_left t)) \<union> set (ct_leaves (n_right t))"

fun ct_nodes :: "ctnode \<Rightarrow> ctnode list" where
  "ct_nodes Nullptr = []"
| "ct_nodes (Node lbl h l r) = Node lbl h l r # ct_nodes l @ ct_nodes r"

text \<open>Neither label is a prefix of the other: what fixed-length labels guarantee.\<close>

definition incomparable :: "partial_label \<Rightarrow> partial_label \<Rightarrow> bool" where
  "incomparable a b = (\<not> is_prefix (pl_bits a) (pl_bits b) \<and> \<not> is_prefix (pl_bits b) (pl_bits a))"

definition fits :: "partial_label \<Rightarrow> (partial_label \<times> hash_type) set \<Rightarrow> bool" where
  "fits k L = (\<forall>(k', _) \<in> L. incomparable k k')"

lemma same_length_incomparable:
  assumes "pl_valid a" "pl_valid b" "pl_bit_count a = pl_bit_count b" "a \<noteq> b"
  shows "incomparable a b"
  using assms pl_bits_inj [of a b] by (auto simp: incomparable_def is_prefix_def)

lemma node_sel [simp]:
  "node_label (Node lbl h l r) = lbl" "node_hash (Node lbl h l r) = clear_lsb h"
  "node_label Nullptr = pl_default" "node_hash Nullptr = zero_hash"
  "get_dirty_bit (Node lbl h l r) = dirty_bit h" "\<not> get_dirty_bit Nullptr"
  by (simp_all add: node_label_def node_hash_def get_dirty_bit_def)

lemma is_leaf_simps [simp]:
  "is_leaf (Node lbl h l r) = (l = Nullptr \<and> r = Nullptr)" "\<not> is_leaf Nullptr"
  by (simp_all add: is_leaf_def)

lemma is_root_simps: "is_root n = (pl_bits (node_label n) = [])"
  by (simp add: is_root_def pl_empty_bits)

section \<open>Hash bytes\<close>

lemma set_dirty_True [simp]: "is_hash h \<Longrightarrow> dirty_bit (set_dirty_bit True h)"
  by (simp add: set_dirty_bit_def dirty_bit_iff is_hash_def bit_or_iff)

lemma set_dirty_False: "set_dirty_bit False h = clear_lsb h"
  by (simp add: set_dirty_bit_def clear_lsb_def)

lemma is_hash_set_dirty [simp]: "is_hash (set_dirty_bit b h) = is_hash h" "is_hash (clear_lsb h) = is_hash h"
  by (simp_all add: set_dirty_bit_def is_hash_def)

lemma clear_clean [simp]: "is_hash h \<Longrightarrow> \<not> dirty_bit (clear_lsb h)"
  by (simp add: is_hash_ne)

lemma clear_id [simp]: "is_hash h \<Longrightarrow> \<not> dirty_bit h \<Longrightarrow> clear_lsb h = h"
  by (simp add: clear_lsb_id is_hash_ne)

lemma and_0xFE_or_1: "((w :: byte) AND 0xFE OR 1) AND 0xFE = w AND 0xFE"
proof (rule bit_word_eqI)
  fix n assume "n < LENGTH(8)"
  then show "bit ((w AND 0xFE OR 1) AND 0xFE) n = bit (w AND 0xFE) n"
    by (simp only: bit_and_iff bit_or_iff bit_0xFE bit_1_iff) auto
qed

lemma clear_set_dirty [simp]: "clear_lsb (set_dirty_bit b h) = clear_lsb h"
  by (cases "h = []") (simp_all add: clear_lsb_def set_dirty_bit_def and_0xFE_or_1 and.assoc)

section \<open>Leaves and labels\<close>

lemma leaves_extend:
  "ct_wf t \<Longrightarrow> (k, h) \<in> set (ct_leaves t) \<Longrightarrow> is_prefix (pl_bits (node_label t)) (pl_bits k) \<and> pl_valid k"
proof (induction t)
  case (Node lbl h0 l r)
  show ?case
  proof (cases "l = Nullptr \<and> r = Nullptr")
    case False
    then have "(k, h) \<in> set (ct_leaves l) \<or> (k, h) \<in> set (ct_leaves r)" using Node.prems by auto
    then show ?thesis using Node False by (auto intro: is_prefix_trans is_prefix_append)
  qed (use Node in auto)
qed simp

lemma leaves_nonempty: "ct_wf t \<Longrightarrow> \<exists>k h. (k, h) \<in> set (ct_leaves t)"
  by (induction t) fastforce+

lemma fits_subset: "fits k L \<Longrightarrow> L' \<subseteq> L \<Longrightarrow> fits k L'"
  by (auto simp: fits_def)

lemma fitsD: "fits k L \<Longrightarrow> (k', h) \<in> L \<Longrightarrow> incomparable k k'"
  by (auto simp: fits_def)

lemma fits_node:
  assumes "ct_wf t" "fits k (set (ct_leaves t))"
  shows "\<not> is_prefix (pl_bits k) (pl_bits (node_label t))"
proof
  assume p: "is_prefix (pl_bits k) (pl_bits (node_label t))"
  obtain k' h where k': "(k', h) \<in> set (ct_leaves t)" using leaves_nonempty [OF assms(1)] by blast
  then have "is_prefix (pl_bits k) (pl_bits k')"
    using leaves_extend [OF assms(1) k'] p is_prefix_trans by blast
  then show False using fitsD [OF assms(2) k'] by (simp add: incomparable_def)
qed

lemma prefix_step:
  assumes "is_prefix p xs" "\<not> is_prefix xs p"
  obtains b ys where "xs = p @ b # ys"
proof -
  obtain zs where "xs = p @ zs" using assms(1) by (auto simp: is_prefix_iff)
  then show ?thesis using that assms(2) by (cases zs) auto
qed

lemma prefix_snoc: "is_prefix (p @ [b]) xs \<Longrightarrow> \<exists>ys. xs = p @ b # ys"
  by (auto simp: is_prefix_iff)

lemma is_prefix_snoc [simp]: "is_prefix (p @ [b]) (p @ b # ys)"
  by (simp add: is_prefix_def)

lemma lcp_extend [simp]: "lcp (p @ xs) p = p"
  by (induction p) auto

lemma prefix_lcp: "is_prefix p xs \<Longrightarrow> is_prefix p ys \<Longrightarrow> is_prefix p (lcp xs ys)"
  by (auto simp: is_prefix_iff)

lemma prefix_snoc_diff: "is_prefix (p @ [b]) xs \<Longrightarrow> is_prefix (p @ [c]) xs \<Longrightarrow> b = c"
  by (auto simp: is_prefix_iff)

lemma ct_wf_valid: "ct_wf t \<Longrightarrow> pl_valid (node_label t)"
  by (cases t) auto

lemma ct_wf_hash: "ct_wf t \<Longrightarrow> is_hash (n_hash t)"
  by (cases t) auto

lemma ct_wf_ne [simp]: "ct_wf t \<Longrightarrow> t \<noteq> Nullptr"
  by auto

section \<open>Routing\<close>

lemma has_route_below:
  assumes "ct_wf c" "is_prefix (p @ [b]) (pl_bits (node_label c))"
  shows "has_route b' (length p) c = Inr (b = b')"
proof -
  obtain ys where ys: "pl_bits (node_label c) = p @ b # ys" using prefix_snoc [OF assms(2)] by blast
  have "pl_bit (node_label c) (length p) = Inr b"
    using pl.bit_at_ok [OF ct_wf_valid [OF assms(1)], of "length p"] by (simp add: ys)
  then show ?thesis using assms(1) by (cases c) (auto simp: has_route_def)
qed

lemma new_leaf_wf: "pl_valid k \<Longrightarrow> ct_wf (new_leaf k h e)"
  by (simp add: new_leaf_def set_dirty_False)

lemma new_leaf_leaves [simp]: "ct_leaves (new_leaf k h e) = [(k, compute_leaf_hash k h e)]"
  by (simp add: new_leaf_def set_dirty_False)

lemma new_leaf_clean [simp]: "\<not> get_dirty_bit (new_leaf k h e)"
  by (simp add: new_leaf_def set_dirty_False)

lemma new_leaf_sel [simp]: "node_label (new_leaf k h e) = k" "new_leaf k h e \<noteq> Nullptr"
  "ct_nodes (new_leaf k h e) = [new_leaf k h e]"
  by (simp_all add: new_leaf_def)

section \<open>Pending hash updates\<close>

text \<open>
  \<open>pend U\<close> is the invariant between the insertions and the hash updates of the labels \<open>U\<close>: the
  hash of a clean node is the hash of its clean children, and a dirty child has a pending label
  below it, or has clean children and a pending label below its sibling (the node that an
  insertion pushed down, which the code updates as a sibling).
\<close>

definition digest :: "ctnode \<Rightarrow> ctnode \<Rightarrow> hash_type" where
  "digest l r = compute_node_hash (node_label l) (node_hash l) (node_label r) (node_hash r)"

lemma digest_clean [simp]: "is_hash (digest l r)" "\<not> dirty_bit (digest l r)"
  by (simp_all add: digest_def)

definition shallow :: "ctnode \<Rightarrow> bool" where
  "shallow t = (case t of Nullptr \<Rightarrow> True | Node _ _ l r \<Rightarrow> \<not> get_dirty_bit l \<and> \<not> get_dirty_bit r)"

definition below :: "partial_label set \<Rightarrow> ctnode \<Rightarrow> bool" where
  "below U t = (\<exists>k v. k \<in> U \<and> (k, v) \<in> set (ct_leaves t))"

definition ok_child :: "partial_label set \<Rightarrow> ctnode \<Rightarrow> ctnode \<Rightarrow> bool" where
  "ok_child U c s = (get_dirty_bit c \<longrightarrow> below U c \<or> below U s \<and> shallow c)"

fun pend :: "partial_label set \<Rightarrow> ctnode \<Rightarrow> bool" where
  "pend U Nullptr = True"
| "pend U (Node lbl h l r) =
     (l = Nullptr \<and> r = Nullptr \<or>
      pend U l \<and> pend U r \<and> ok_child U l r \<and> ok_child U r l \<and>
      (\<not> dirty_bit h \<longrightarrow> \<not> get_dirty_bit l \<and> \<not> get_dirty_bit r \<and> h = digest l r))"

lemma shallow_Node [simp]: "shallow (Node lbl h l r) = (\<not> get_dirty_bit l \<and> \<not> get_dirty_bit r)"
  by (simp add: shallow_def)

lemma below_mono: "below U t \<Longrightarrow> U \<subseteq> U' \<Longrightarrow> set (ct_leaves t) \<subseteq> set (ct_leaves t') \<Longrightarrow> below U' t'"
  by (auto simp: below_def)

lemma pend_mono: "pend U t \<Longrightarrow> U \<subseteq> U' \<Longrightarrow> pend U' t"
proof (induction t)
  case (Node lbl h l r)
  have "ok_child U c s \<Longrightarrow> ok_child U' c s" for c s
    using below_mono [OF _ Node.prems(2) subset_refl] by (auto simp: ok_child_def)
  then show ?case using Node by auto
qed simp

lemma pend_simps [simp]: "ok_child U Nullptr s" "ok_child U (new_leaf k h e) s" "pend U (new_leaf k h e)"
  by (simp_all add: ok_child_def new_leaf_def set_dirty_False)

lemma pend_free_slot:
  assumes "is_hash h0"
  shows "pend U (Node lbl h0 l Nullptr) \<Longrightarrow>
      pend (insert k U) (Node lbl (set_dirty_bit True h0) l (new_leaf k h e))"
    and "pend U (Node lbl h0 Nullptr r) \<Longrightarrow>
      pend (insert k U) (Node lbl (set_dirty_bit True h0) (new_leaf k h e) r)"
proof -
  have "pend (insert k U) c \<and> ok_child (insert k U) c (new_leaf k h e)"
    if "pend U c" "ok_child U c Nullptr" for c
    using that pend_mono [of U c "insert k U"] by (auto simp: ok_child_def below_def)
  then show "pend U (Node lbl h0 l Nullptr) \<Longrightarrow>
      pend (insert k U) (Node lbl (set_dirty_bit True h0) l (new_leaf k h e))"
    "pend U (Node lbl h0 Nullptr r) \<Longrightarrow>
      pend (insert k U) (Node lbl (set_dirty_bit True h0) (new_leaf k h e) r)"
    using assms by auto
qed

definition keeps_pend :: "partial_label \<Rightarrow> ctnode \<Rightarrow> ctnode \<Rightarrow> bool" where
  "keeps_pend k t t' = (\<forall>U. pend U t \<longrightarrow> (get_dirty_bit t \<longrightarrow> below U t \<or> shallow t) \<longrightarrow>
     pend (insert k U) t')"

lemma keeps_pend_child:
  assumes "keeps_pend k c c'" "pend U c" "ok_child U c s" "pend U s" "ok_child U s c"
    and "set (ct_leaves c') = insert (k, v) (set (ct_leaves c))"
  shows "pend (insert k U) c'" "pend (insert k U) s" "ok_child (insert k U) c' s"
    "ok_child (insert k U) s c'"
proof -
  show "pend (insert k U) c'" using assms(1-3) by (auto simp: keeps_pend_def ok_child_def)
  show "pend (insert k U) s" using assms(4) by (rule pend_mono) auto
  show "ok_child (insert k U) c' s" using assms(6) by (auto simp: ok_child_def below_def)
  show "ok_child (insert k U) s c'" using assms(5,6) by (auto simp: ok_child_def below_def)
qed

section \<open>What an insertion does\<close>

text \<open>
  The nodes written are nodes of the new tree, and every node of the new tree is written or was
  there before.
\<close>

definition saves_ok :: "ctnode \<Rightarrow> ctnode \<Rightarrow> stored_node list \<Rightarrow> bool" where
  "saves_ok t t' saved =
     (set saved \<subseteq> save_node ` set (ct_nodes t') \<and>
      save_node ` set (ct_nodes t') \<subseteq> set saved \<union> save_node ` set (ct_nodes t))"

definition inserted :: "partial_label \<Rightarrow> hash_type \<Rightarrow> ctnode \<Rightarrow> ctnode \<Rightarrow> stored_node list \<Rightarrow> bool" where
  "inserted k h t t' saved =
     (ct_wf t' \<and> get_dirty_bit t' \<and> set (ct_leaves t') = insert (k, h) (set (ct_leaves t)) \<and>
      pl_bits (node_label t') = lcp (pl_bits k) (pl_bits (node_label t)) \<and> saves_ok t t' saved \<and> keeps_pend k t t')"

lemma pend_route:
  assumes "is_hash h0" "pend U (Node lbl h0 l r)"
  shows "inserted k v r r' s \<Longrightarrow> r \<noteq> Nullptr \<Longrightarrow> pend (insert k U) (Node lbl (set_dirty_bit True h0) l r')"
    and "inserted k v l l' s \<Longrightarrow> l \<noteq> Nullptr \<Longrightarrow> pend (insert k U) (Node lbl (set_dirty_bit True h0) l' r)"
proof -
  show "inserted k v r r' s \<Longrightarrow> r \<noteq> Nullptr \<Longrightarrow> pend (insert k U) (Node lbl (set_dirty_bit True h0) l r')"
    using assms keeps_pend_child [of k r r' U l v] by (auto simp: inserted_def)
  show "inserted k v l l' s \<Longrightarrow> l \<noteq> Nullptr \<Longrightarrow> pend (insert k U) (Node lbl (set_dirty_bit True h0) l' r)"
    using assms keeps_pend_child [of k l l' U r v] by (auto simp: inserted_def)
qed

lemma incomparable_diverge:
  assumes "pl_valid k" "pl_valid l" "incomparable k l"
  obtains x xs ys where "pl_bits k = pl_bits (common_prefix k l) @ x # xs"
    "pl_bits l = pl_bits (common_prefix k l) @ (\<not> x) # ys"
    "pl_bit k (pl_bit_count (common_prefix k l)) = Inr x"
proof -
  have "\<not> is_prefix (pl_bits k) (pl_bits l)" "\<not> is_prefix (pl_bits l) (pl_bits k)"
    using assms(3) by (simp_all add: incomparable_def)
  then show ?thesis by (rule pl.common_diverge [OF assms(1,2)]) (rule that)
qed

lemma insert_at_leaf_inserted:
  assumes wf: "ct_wf (Node lbl h0 Nullptr Nullptr)" and k: "pl_valid k" "incomparable k lbl"
    and lbl: "pl_bits lbl \<noteq> []"
    and b: "pl_bit k (pl_bit_count (common_prefix k lbl)) = Inr b"
  shows "\<exists>t' saved. insert_at_leaf k h e (common_prefix k lbl) b (Node lbl h0 Nullptr Nullptr) =
      Inr (t', saved) \<and> inserted k (compute_leaf_hash k h e) (Node lbl h0 Nullptr Nullptr) t' saved"
proof -
  let ?c = "common_prefix k lbl" and ?old = "Node lbl h0 Nullptr Nullptr"
  have v: "pl_valid lbl" "is_hash h0" "\<not> dirty_bit h0" using wf by auto
  obtain x xs ys where d: "pl_bits k = pl_bits ?c @ x # xs" "pl_bits lbl = pl_bits ?c @ (\<not> x) # ys"
    "pl_bit k (pl_bit_count ?c) = Inr x"
    by (rule incomparable_diverge [OF k(1) v(1) k(2)])
  have x: "x = b" using d(3) b by simp
  have c: "pl_valid ?c" using k v by (simp add: common_prefix_valid)
  have old: "new_leaf_hash lbl (clear_lsb h0) = ?old"
    using v by (simp add: new_leaf_hash_def set_dirty_False)
  define new where "new = new_leaf k h e"
  define t' where "t' = Node ?c (set_dirty_bit True (set_dirty_bit True (set_dirty_bit True h0)))
    (if b then ?old else new) (if b then new else ?old)"
  have "insert_at_leaf k h e ?c b ?old =
      Inr (t', [save_node (if b then ?old else new), save_node (if b then new else ?old), save_node t'])"
    by (simp add: insert_at_leaf_def old Let_def init_label_def t'_def new_def)
  moreover have "inserted k (compute_leaf_hash k h e) ?old t'
      [save_node (if b then ?old else new), save_node (if b then new else ?old), save_node t']"
    using v k c d
    by (auto simp: inserted_def t'_def x new_def new_leaf_wf saves_ok_def lcp_diff keeps_pend_def
        ok_child_def)
  ultimately show ?thesis by blast
qed

text \<open>Pushing an internal node down next to the new leaf.\<close>

lemma insert_here_push_inserted:
  assumes wf: "ct_wf (Node lbl h0 l r)" and lr: "l \<noteq> Nullptr" "r \<noteq> Nullptr"
    and k: "pl_valid k" "incomparable k lbl" and lbl: "pl_bits lbl \<noteq> []"
    and b: "pl_bit k (pl_bit_count (common_prefix k lbl)) = Inr b"
  shows "\<exists>t' saved. insert_here k h e (common_prefix k lbl) b (Node lbl h0 l r) = Inr (t', saved) \<and>
    inserted k (compute_leaf_hash k h e) (Node lbl h0 l r) t' saved"
proof -
  let ?c = "common_prefix k lbl" and ?t = "Node lbl h0 l r"
  have v: "pl_valid lbl" "is_hash h0" using wf by auto
  obtain x xs ys where d: "pl_bits k = pl_bits ?c @ x # xs" "pl_bits lbl = pl_bits ?c @ (\<not> x) # ys"
    "pl_bit k (pl_bit_count ?c) = Inr x"
    by (rule incomparable_diverge [OF k(1) v(1) k(2)])
  have x: "x = b" using d(3) b by simp
  have c: "pl_valid ?c" using k v by (simp add: common_prefix_valid)
  define new where "new = new_leaf k h e"
  define moved where
    "moved = Node lbl (set_dirty_bit True (set_dirty_bit True (set_dirty_bit True zero_hash))) l r"
  have moved: "ct_wf moved" "set (ct_leaves moved) = set (ct_leaves ?t)" "node_label moved = lbl"
    using wf lr by (auto simp: moved_def)
  define t' where "t' = Node ?c (set_dirty_bit True (set_dirty_bit True (set_dirty_bit True h0)))
    (if b then moved else new) (if b then new else moved)"
  have "insert_here k h e ?c b ?t =
      Inr (t', [save_node (if b then moved else new), save_node (if b then new else moved), save_node t'])"
    using lr by (simp add: insert_here_def Let_def init_label_def t'_def new_def moved_def new_internal_def)
  moreover have "inserted k (compute_leaf_hash k h e) ?t t'
      [save_node (if b then moved else new), save_node (if b then new else moved), save_node t']"
  proof -
    have "saves_ok ?t t' [save_node (if b then moved else new), save_node (if b then new else moved), save_node t']"
      by (auto simp: saves_ok_def t'_def new_def moved_def)
    moreover have "ct_wf t'" using moved v k c d
      by (auto simp: t'_def x new_def new_leaf_wf)
    moreover have "set (ct_leaves t') = insert (k, compute_leaf_hash k h e) (set (ct_leaves ?t))"
      using moved by (auto simp: t'_def new_def moved_def)
    moreover have "keeps_pend k ?t t'"
      unfolding keeps_pend_def
    proof (intro allI impI)
      fix U assume U: "pend U ?t" "get_dirty_bit ?t \<longrightarrow> below U ?t \<or> shallow ?t"
      have p: "pend (insert k U) ?t" using U(1) by (rule pend_mono) auto
      have "pend (insert k U) moved" using p lr by (simp add: moved_def)
      moreover have "ok_child (insert k U) moved new"
        using U lr moved(2) by (auto simp: ok_child_def below_def moved_def new_def)
      ultimately show "pend (insert k U) t'" using v(2)
        by (simp add: t'_def new_def ok_child_def)
    qed
    ultimately show ?thesis using v d
      by (simp add: inserted_def t'_def lcp_diff)
  qed
  ultimately show ?thesis by blast
qed

text \<open>Following the route into a child.\<close>

lemma inserted_child_prefix:
  assumes "inserted k h c c' saved" "is_prefix p (pl_bits (node_label c))" "is_prefix p (pl_bits k)"
  shows "is_prefix p (pl_bits (node_label c'))"
  using assms by (simp add: inserted_def prefix_lcp)

lemma saves_sets:
  assumes "B \<subseteq> A'" "A' \<subseteq> B \<union> A" "A' \<subseteq> T'" "x \<in> T'" "T' \<subseteq> insert x (A' \<union> S)" "A \<union> S \<subseteq> T"
  shows "insert x B \<subseteq> T'" "T' \<subseteq> insert x B \<union> T"
  using assms by blast+

lemma saves_ok_child:
  assumes "saves_ok c c' saved" "t' = Node lbl h l r"
    and "set (ct_nodes l) \<union> set (ct_nodes r) = set (ct_nodes c') \<union> set (ct_nodes s)"
    and "set (ct_nodes c) \<union> set (ct_nodes s) \<subseteq> set (ct_nodes t)"
  shows "saves_ok t t' (saved @ [save_node t'])"
proof -
  let ?S = "\<lambda>n. save_node ` set (ct_nodes n)"
  have t': "set (ct_nodes t') = insert t' (set (ct_nodes c') \<union> set (ct_nodes s))"
    using assms(2,3) by simp
  have 1: "set saved \<subseteq> ?S c'" "?S c' \<subseteq> set saved \<union> ?S c"
    using assms(1) by (simp_all add: saves_ok_def)
  have 2: "?S c' \<subseteq> ?S t'" "save_node t' \<in> ?S t'" "?S t' \<subseteq> insert (save_node t') (?S c' \<union> ?S s)"
    unfolding t' by (auto simp: image_Un)
  have 3: "?S c \<union> ?S s \<subseteq> ?S t"
    using image_mono [OF assms(4), of save_node] by (simp only: image_Un)
  show ?thesis using saves_sets [OF 1 2 3] by (simp add: saves_ok_def)
qed

lemma saves_ok_left: "saves_ok l l' saved \<Longrightarrow> t' = Node lbl h l' r \<Longrightarrow>
    saves_ok (Node lbl h0 l r) t' (saved @ [save_node t'])"
  by (rule saves_ok_child [where c = l and c' = l' and s = r and l = l' and r = r]) auto

lemma saves_ok_right: "saves_ok r r' saved \<Longrightarrow> t' = Node lbl h l r' \<Longrightarrow>
    saves_ok (Node lbl h0 l r) t' (saved @ [save_node t'])"
  by (rule saves_ok_child [where c = r and c' = r' and s = l and l = l and r = r']) auto

text \<open>Insertion under a node: no exception, and exactly the new leaf is added.\<close>

lemma ct_insert_inserted:
  "ct_wf t \<Longrightarrow> pl_bits (node_label t) \<noteq> [] \<Longrightarrow> pl_valid k \<Longrightarrow> fits k (set (ct_leaves t)) \<Longrightarrow>
    \<exists>t' saved. ct_insert k h e t = Inr (t', saved) \<and> inserted k (compute_leaf_hash k h e) t t' saved"
proof (induction t)
  case (Node lbl h0 l r)
  let ?t = "Node lbl h0 l r"
  have v: "pl_valid lbl" "is_hash h0" and root: "\<not> is_root ?t"
    using Node.prems by (auto simp: is_root_simps)
  have nk: "\<not> is_prefix (pl_bits k) (pl_bits lbl)"
    using fits_node [OF Node.prems(1,4)] by simp
  then have ne: "k \<noteq> lbl" by auto
  show ?case
  proof (cases "is_prefix (pl_bits lbl) (pl_bits k)")
    case True
    obtain b ys where kb: "pl_bits k = pl_bits lbl @ b # ys" by (rule prefix_step [OF True nk])
    note route = pl.bit_after_common [OF Node.prems(3) v(1) kb]
    have int: "\<not> (l = Nullptr \<and> r = Nullptr)"
    proof
      assume "l = Nullptr \<and> r = Nullptr"
      then have "incomparable k lbl" using fitsD [OF Node.prems(4)] by auto
      with True show False by (simp add: incomparable_def)
    qed
    then have lr: "ct_wf l" "ct_wf r" "is_prefix (pl_bits lbl @ [False]) (pl_bits (node_label l))"
      "is_prefix (pl_bits lbl @ [True]) (pl_bits (node_label r))" using Node.prems by auto
    have fit: "fits k (set (ct_leaves l))" "fits k (set (ct_leaves r))"
      using Node.prems(4) int by (auto elim: fits_subset)
    have lnb: "pl_bits (node_label l) \<noteq> []" "pl_bits (node_label r) \<noteq> []"
      using lr by (auto simp: is_prefix_iff)
    have kp: "is_prefix (pl_bits lbl @ [b]) (pl_bits k)" by (simp add: kb)
    have rt: "has_route True (pl_bit_count lbl) r = Inr True"
      "has_route False (pl_bit_count lbl) l = Inr True"
      using has_route_below [OF lr(2,4)] has_route_below [OF lr(1,3)] by simp_all
    show ?thesis
    proof (cases b)
      case True
      obtain r' saved where r': "ct_insert k h e r = Inr (r', saved)"
        "inserted k (compute_leaf_hash k h e) r r' saved"
        using Node.IH(2) [OF lr(2) lnb(2) Node.prems(3) fit(2)] by blast
      define t' where "t' = Node lbl (set_dirty_bit True h0) l r'"
      have pr: "is_prefix (pl_bits lbl @ [True]) (pl_bits (node_label r'))"
        using inserted_child_prefix [OF r'(2) lr(4)] kp True by simp
      have "ct_insert k h e ?t = Inr (t', saved @ [save_node t'])"
        using ne ct_wf_ne [OF lr(1)] root True route rt r'(1) by (simp add: Let_def t'_def)
      moreover have "inserted k (compute_leaf_hash k h e) ?t t' (saved @ [save_node t'])"
      proof -
        have "keeps_pend k ?t t'"
          using pend_route(1) [OF v(2) _ r'(2)] ct_wf_ne [OF lr(2)] by (simp add: keeps_pend_def t'_def)
        then show ?thesis
          using r'(2) lr v pr kb int saves_ok_right [of r r' saved t' lbl _ l h0]
          by (auto simp: inserted_def t'_def)
      qed
      ultimately show ?thesis by blast
    next
      case False
      obtain l' saved where l': "ct_insert k h e l = Inr (l', saved)"
        "inserted k (compute_leaf_hash k h e) l l' saved"
        using Node.IH(1) [OF lr(1) lnb(1) Node.prems(3) fit(1)] by blast
      define t' where "t' = Node lbl (set_dirty_bit True h0) l' r"
      have pl: "is_prefix (pl_bits lbl @ [False]) (pl_bits (node_label l'))"
        using inserted_child_prefix [OF l'(2) lr(3)] kp False by simp
      have "ct_insert k h e ?t = Inr (t', saved @ [save_node t'])"
        using ne ct_wf_ne [OF lr(1)] root False route rt l'(1) by (simp add: Let_def t'_def)
      moreover have "inserted k (compute_leaf_hash k h e) ?t t' (saved @ [save_node t'])"
      proof -
        have "keeps_pend k ?t t'"
          using pend_route(2) [OF v(2) _ l'(2)] ct_wf_ne [OF lr(1)] by (simp add: keeps_pend_def t'_def)
        then show ?thesis
          using l'(2) lr v pl kb int saves_ok_left [of l l' saved t' lbl _ r h0]
          by (auto simp: inserted_def t'_def)
      qed
      ultimately show ?thesis by blast
    qed
  next
    case False
    have inc: "incomparable k lbl" using False nk by (simp add: incomparable_def)
    obtain b xs ys where d: "pl_bits k = pl_bits (common_prefix k lbl) @ b # xs"
      "pl_bits lbl = pl_bits (common_prefix k lbl) @ (\<not> b) # ys"
      "pl_bit k (pl_bit_count (common_prefix k lbl)) = Inr b"
      by (rule incomparable_diverge [OF Node.prems(3) v(1) inc])
    show ?thesis
    proof (cases "l = Nullptr \<and> r = Nullptr")
      case True
      with Node.prems root inc d ne show ?thesis
        using insert_at_leaf_inserted [of lbl h0 k b h e] by (simp add: Let_def)
    next
      case False
      then have lr: "ct_wf l" "ct_wf r" "is_prefix (pl_bits lbl @ [False]) (pl_bits (node_label l))"
        "is_prefix (pl_bits lbl @ [True]) (pl_bits (node_label r))" using Node.prems by auto
      let ?p = "pl_bits (common_prefix k lbl)"
      have "is_prefix (?p @ [\<not> b]) (pl_bits lbl)" by (subst d(2)) simp
      then have "is_prefix (?p @ [\<not> b]) (pl_bits (node_label l))"
        "is_prefix (?p @ [\<not> b]) (pl_bits (node_label r))"
        using lr(3,4) is_prefix_append is_prefix_trans by blast+
      then have rt: "has_route b (pl_bit_count (common_prefix k lbl)) r = Inr False"
        "has_route b (pl_bit_count (common_prefix k lbl)) l = Inr False"
        using has_route_below [OF lr(2), of ?p "\<not> b" b] has_route_below [OF lr(1), of ?p "\<not> b" b]
        by simp_all
      have "ct_insert k h e ?t = insert_here k h e (common_prefix k lbl) b ?t"
        using ne ct_wf_ne [OF lr(1)] d(3) rt root by (cases b) (simp_all add: Let_def)
      then show ?thesis
        using insert_here_push_inserted [OF Node.prems(1) ct_wf_ne [OF lr(1)] ct_wf_ne [OF lr(2)]
            Node.prems(3) inc _ d(3)] Node.prems(2) by simp
    qed
  qed
qed simp

section \<open>Insertion at the root\<close>

definition root_inserted :: "partial_label \<Rightarrow> hash_type \<Rightarrow> ctnode \<Rightarrow> ctnode \<Rightarrow> stored_node list \<Rightarrow> bool" where
  "root_inserted k h t t' saved =
     (root_wf t' \<and> get_dirty_bit t' \<and> trie_leaves t' = insert (k, h) (trie_leaves t) \<and>
      saves_ok t t' saved \<and> (\<forall>U. pend U t \<longrightarrow> pend (insert k U) t'))"

lemma root_wf_cases:
  assumes "root_wf t"
  obtains h l r where "t = Node pl_default h l r" "is_hash h" "child_wf False l" "child_wf True r"
  using assms by (cases t) (auto simp: root_wf_def)

lemma trie_leaves_Node [simp]:
  "trie_leaves (Node lbl h l r) = set (ct_leaves l) \<union> set (ct_leaves r)"
  by (simp add: trie_leaves_def)

lemma bit_at_root:
  assumes "pl_valid k" "pl_bits k = b # bs"
  shows "common_prefix k pl_default = pl_default" "pl_bit k (pl_bit_count pl_default) = Inr b"
  using pl.bit_after_common [of k pl_default b bs] assms by simp_all

text \<open>Both slots are alike: the route in the child on side \<open>b\<close>, or a free slot.\<close>

lemma root_child_insert:
  assumes c: "child_wf b c" and k: "pl_valid k" "pl_bits k = b # bs" "fits k (set (ct_leaves c))"
    and ne: "c \<noteq> Nullptr"
  shows "has_route b 0 c = Inr True"
    and "\<exists>c' saved. ct_insert k h e c = Inr (c', saved) \<and> child_wf b c' \<and> c' \<noteq> Nullptr \<and>
      inserted k (compute_leaf_hash k h e) c c' saved"
proof -
  have wf: "ct_wf c" "is_prefix [b] (pl_bits (node_label c))"
    using c ne by (simp_all add: child_wf_def)
  show "has_route b 0 c = Inr True" using has_route_below [OF wf(1), of "[]" b b] wf(2) by simp
  have "pl_bits (node_label c) \<noteq> []" using wf(2) by (auto simp: is_prefix_iff)
  then obtain c' saved where i: "ct_insert k h e c = Inr (c', saved)"
    "inserted k (compute_leaf_hash k h e) c c' saved"
    using ct_insert_inserted [OF wf(1) _ k(1,3)] by blast
  have "is_prefix [b] (pl_bits (node_label c'))"
    using inserted_child_prefix [OF i(2) wf(2)] k(2) by (simp add: is_prefix_iff)
  then have "child_wf b c'" "c' \<noteq> Nullptr" using i(2) by (auto simp: child_wf_def inserted_def)
  with i show "\<exists>c' saved. ct_insert k h e c = Inr (c', saved) \<and> child_wf b c' \<and> c' \<noteq> Nullptr \<and>
      inserted k (compute_leaf_hash k h e) c c' saved" by blast
qed

lemma ct_insert_root:
  assumes "root_wf t" "pl_valid k" "pl_bits k \<noteq> []" "fits k (trie_leaves t)"
  shows "\<exists>t' saved. ct_insert k h e t = Inr (t', saved) \<and>
    root_inserted k (compute_leaf_hash k h e) t t' saved"
proof -
  obtain h0 l r where t: "t = Node pl_default h0 l r" "is_hash h0" "child_wf False l" "child_wf True r"
    using assms(1) by (rule root_wf_cases)
  obtain b bs where k: "pl_bits k = b # bs" using assms(3) by (cases "pl_bits k") auto
  note bit = bit_at_root [OF assms(2) k]
  have ne: "k \<noteq> pl_default" using assms(3) by auto
  have root: "is_root t" using t(1) by (simp add: is_root_simps)
  have fit: "fits k (set (ct_leaves l))" "fits k (set (ct_leaves r))"
    using assms(4) t(1) by (auto elim: fits_subset)
  have pbc: "pl_bit_count pl_default = 0" by (simp add: pl_default_def)
  have leaf: "child_wf b (new_leaf k h e)"
    using assms(2) k by (simp add: child_wf_def new_leaf_wf is_prefix_iff)
  show ?thesis
  proof (cases b)
    case True
    show ?thesis
    proof (cases "r = Nullptr")
      case rN: True
      define t' where "t' = Node pl_default (set_dirty_bit True h0) l (new_leaf k h e)"
      have "ct_insert k h e t = Inr (t', [save_node t', save_node (new_leaf k h e)])"
        using ne bit root True rN t(1)
        by (simp add: Let_def has_route_def insert_here_def t'_def)
      moreover have "root_inserted k (compute_leaf_hash k h e) t t'
          [save_node t', save_node (new_leaf k h e)]"
        using t leaf True rN pend_free_slot(1) [OF t(2)]
        by (auto simp: root_inserted_def root_wf_def t'_def saves_ok_def simp del: pend.simps)
      ultimately show ?thesis by blast
    next
      case rne: False
      have kb: "pl_bits k = True # bs" using k True by simp
      note ch = root_child_insert [OF t(4) assms(2) kb fit(2) rne]
      obtain r' saved where r': "ct_insert k h e r = Inr (r', saved)" "child_wf True r'"
        "r' \<noteq> Nullptr" "inserted k (compute_leaf_hash k h e) r r' saved" using ch(2) by metis
      define t' where "t' = Node pl_default (set_dirty_bit True h0) l r'"
      have "ct_insert k h e t = Inr (t', saved @ [save_node t'])"
        using ne bit root True ch(1) r'(1) t(1) rne by (simp add: Let_def t'_def pbc)
      moreover have "root_inserted k (compute_leaf_hash k h e) t t' (saved @ [save_node t'])"
        using t r' saves_ok_right [of r r' saved t' _ _ l h0] pend_route(1) [OF t(2) _ r'(4) rne]
        by (auto simp: root_inserted_def root_wf_def t'_def inserted_def simp del: pend.simps)
      ultimately show ?thesis by blast
    qed
  next
    case False
    show ?thesis
    proof (cases "l = Nullptr")
      case lN: True
      define t' where "t' = Node pl_default (set_dirty_bit True h0) (new_leaf k h e) r"
      have "ct_insert k h e t = Inr (t', [save_node t', save_node (new_leaf k h e)])"
        using ne bit root False lN t(1)
        by (simp add: Let_def has_route_def insert_here_def t'_def)
      moreover have "root_inserted k (compute_leaf_hash k h e) t t'
          [save_node t', save_node (new_leaf k h e)]"
        using t leaf False lN pend_free_slot(2) [OF t(2)]
        by (auto simp: root_inserted_def root_wf_def t'_def saves_ok_def simp del: pend.simps)
      ultimately show ?thesis by blast
    next
      case lne: False
      have kb: "pl_bits k = False # bs" using k False by simp
      note ch = root_child_insert [OF t(3) assms(2) kb fit(1) lne]
      obtain l' saved where l': "ct_insert k h e l = Inr (l', saved)" "child_wf False l'"
        "l' \<noteq> Nullptr" "inserted k (compute_leaf_hash k h e) l l' saved" using ch(2) by metis
      define t' where "t' = Node pl_default (set_dirty_bit True h0) l' r"
      have "ct_insert k h e t = Inr (t', saved @ [save_node t'])"
        using ne bit root False ch(1) l'(1) t(1) lne by (simp add: Let_def t'_def pbc)
      moreover have "root_inserted k (compute_leaf_hash k h e) t t' (saved @ [save_node t'])"
        using t l' saves_ok_left [of l l' saved t' _ _ r h0] pend_route(2) [OF t(2) _ l'(4) lne]
        by (auto simp: root_inserted_def root_wf_def t'_def inserted_def simp del: pend.simps)
      ultimately show ?thesis by blast
    qed
  qed
qed

section \<open>When insertion throws\<close>

lemma prefix_linear: "is_prefix a c \<Longrightarrow> is_prefix b c \<Longrightarrow> is_prefix a b \<or> is_prefix b a"
proof -
  assume "is_prefix a c" "is_prefix b c"
  then obtain x y where "a @ x = c" "b @ y = c" unfolding is_prefix_iff by metis
  then have "a @ x = b @ y" by simp
  then show ?thesis by (auto simp: append_eq_append_conv2 is_prefix_iff)
qed

lemma leaf_side:
  assumes "ct_wf (Node lbl h l r)" "l \<noteq> Nullptr" "(k, v) \<in> set (ct_leaves (Node lbl h l r))"
  shows "(k, v) \<in> set (ct_leaves l) \<and> is_prefix (pl_bits lbl @ [False]) (pl_bits k) \<or>
    (k, v) \<in> set (ct_leaves r) \<and> is_prefix (pl_bits lbl @ [True]) (pl_bits k)"
proof -
  have w: "ct_wf l" "ct_wf r" "is_prefix (pl_bits lbl @ [False]) (pl_bits (node_label l))"
    "is_prefix (pl_bits lbl @ [True]) (pl_bits (node_label r))"
    using assms(1,2) by auto
  have "(k, v) \<in> set (ct_leaves l) \<or> (k, v) \<in> set (ct_leaves r)" using assms(2,3) by simp
  then show ?thesis
    using leaves_extend [OF w(1)] leaves_extend [OF w(2)] w(3,4) is_prefix_trans by blast
qed

lemma ct_insert_clash:
  "ct_wf t \<Longrightarrow> pl_valid k \<Longrightarrow> (k', v) \<in> set (ct_leaves t) \<Longrightarrow> is_prefix (pl_bits k) (pl_bits k') \<Longrightarrow>
    pl_bits (node_label t) \<noteq> [] \<Longrightarrow> \<exists>err. ct_insert k h e t = Inl err"
proof (induction t)
  case (Node lbl h0 l r)
  let ?t = "Node lbl h0 l r"
  have v: "pl_valid lbl" and root: "\<not> is_root ?t" using Node.prems by (auto simp: is_root_simps)
  show ?case
  proof (cases "k = lbl \<or> is_prefix (pl_bits k) (pl_bits lbl)")
    case True
    then show ?thesis using pl.common_prefix_error [OF Node.prems(2) v] by (auto simp: Let_def)
  next
    case False
    have "is_prefix (pl_bits lbl) (pl_bits k')" using leaves_extend [OF Node.prems(1,3)] by simp
    then have "is_prefix (pl_bits lbl) (pl_bits k)" using prefix_linear [OF Node.prems(4)] False by auto
    then obtain b ys where kb: "pl_bits k = pl_bits lbl @ b # ys"
      by (rule prefix_step) (use False in auto)
    note route = pl.bit_after_common [OF Node.prems(2) v kb]
    have int: "l \<noteq> Nullptr" using Node.prems(1,3,4) False by auto
    then have lr: "ct_wf l" "ct_wf r" "is_prefix (pl_bits lbl @ [False]) (pl_bits (node_label l))"
      "is_prefix (pl_bits lbl @ [True]) (pl_bits (node_label r))" using Node.prems by auto
    have ne: "pl_bits (node_label l) \<noteq> []" "pl_bits (node_label r) \<noteq> []"
      using lr by (auto simp: is_prefix_iff)
    have rt: "has_route True (pl_bit_count lbl) r = Inr True"
      "has_route False (pl_bit_count lbl) l = Inr True"
      using has_route_below [OF lr(2,4)] has_route_below [OF lr(1,3)] by simp_all
    have "is_prefix (pl_bits lbl @ [b]) (pl_bits k)" by (simp add: kb)
    then have kb': "is_prefix (pl_bits lbl @ [b]) (pl_bits k')" using Node.prems(4) is_prefix_trans by blast
    note side = leaf_side [OF Node.prems(1) int Node.prems(3)]
    show ?thesis
    proof (cases b)
      case True
      then have "(k', v) \<in> set (ct_leaves r)" using side prefix_snoc_diff [OF kb'] by auto
      then obtain err where "ct_insert k h e r = Inl err"
        using Node.IH(2) [OF lr(2) Node.prems(2) _ Node.prems(4) ne(2)] by blast
      then show ?thesis using False int root True route rt by (simp add: Let_def)
    next
      case b: False
      then have "(k', v) \<in> set (ct_leaves l)" using side prefix_snoc_diff [OF kb'] by auto
      then obtain err where "ct_insert k h e l = Inl err"
        using Node.IH(1) [OF lr(1) Node.prems(2) _ Node.prems(4) ne(1)] by blast
      then show ?thesis using False int root b route rt by (simp add: Let_def)
    qed
  qed
qed simp

lemma ct_insert_root_clash:
  assumes "root_wf t" "pl_valid k" "(k', v) \<in> trie_leaves t" "is_prefix (pl_bits k) (pl_bits k')"
  shows "\<exists>err. ct_insert k h e t = Inl err"
proof -
  obtain h0 l r where t: "t = Node pl_default h0 l r" "child_wf False l" "child_wf True r"
    using assms(1) by (rule root_wf_cases)
  show ?thesis
  proof (cases "pl_bits k")
    case Nil
    then show ?thesis using t(1) assms(2) pl.empty_iff by auto
  next
    case (Cons b bs)
    note bit = bit_at_root [OF assms(2) Cons]
    have root: "is_root t" "pl_bit_count pl_default = 0" "k \<noteq> pl_default"
      using t(1) Cons by (auto simp: is_root_simps pl_default_def pl_bits_def)
    have kb: "is_prefix [b] (pl_bits k')" using Cons assms(4) by (auto simp: is_prefix_iff)
    have side: "(k', v) \<in> set (ct_leaves (if b then r else l))"
    proof -
      have "c \<noteq> Nullptr \<and> is_prefix [x] (pl_bits k')"
        if "(k', v) \<in> set (ct_leaves c)" "child_wf x c" for x c
        using that leaves_extend [of c k' v] is_prefix_trans unfolding child_wf_def by fastforce
      then show ?thesis using assms(3) t kb by (fastforce simp: is_prefix_iff)
    qed
    have "\<exists>err. has_route b 0 c = Inr True \<and> ct_insert k h e c = Inl err"
      if c: "child_wf b c" "(k', v) \<in> set (ct_leaves c)" for c
    proof -
      have w: "ct_wf c" "is_prefix [b] (pl_bits (node_label c))" using c by (auto simp: child_wf_def)
      have "pl_bits (node_label c) \<noteq> []" using w(2) by (auto simp: is_prefix_iff)
      moreover have "has_route b 0 c = Inr True" using has_route_below [OF w(1), of "[]" b b] w(2) by simp
      ultimately show ?thesis using ct_insert_clash [OF w(1) assms(2) c(2) assms(4)] by blast
    qed
    from this [of "if b then r else l"] side t(2,3)
    obtain err where "has_route b 0 (if b then r else l) = Inr True"
      "ct_insert k h e (if b then r else l) = Inl err" by (cases b) auto
    then show ?thesis using bit root t(1) by (cases b) (simp_all add: Let_def)
  qed
qed

section \<open>The leaves determine the tree\<close>

text \<open>\<open>ct_shape\<close> forgets the hashes of internal nodes.\<close>

fun ct_shape :: "ctnode \<Rightarrow> ctnode" where
  "ct_shape Nullptr = Nullptr"
| "ct_shape (Node lbl h l r) =
     (if l = Nullptr \<and> r = Nullptr then Node lbl h Nullptr Nullptr
      else Node lbl [] (ct_shape l) (ct_shape r))"

text \<open>In an internal node the label is the longest common prefix of a left and a right leaf.\<close>

lemma internal_label:
  assumes "ct_wf (Node lbl h l r)" "l \<noteq> Nullptr"
  obtains a b x y where "(a, x) \<in> set (ct_leaves l)" "(b, y) \<in> set (ct_leaves r)"
    "lcp (pl_bits a) (pl_bits b) = pl_bits lbl" "a \<noteq> b"
proof -
  have w: "ct_wf l" "ct_wf r" "is_prefix (pl_bits lbl @ [False]) (pl_bits (node_label l))"
    "is_prefix (pl_bits lbl @ [True]) (pl_bits (node_label r))"
    using assms by auto
  obtain a x b y where m: "(a, x) \<in> set (ct_leaves l)" "(b, y) \<in> set (ct_leaves r)"
    using leaves_nonempty [OF w(1)] leaves_nonempty [OF w(2)] by blast
  have "is_prefix (pl_bits lbl @ [False]) (pl_bits a)" "is_prefix (pl_bits lbl @ [True]) (pl_bits b)"
    using leaves_extend [OF w(1) m(1)] leaves_extend [OF w(2) m(2)] w(3,4) is_prefix_trans by blast+
  then have "lcp (pl_bits a) (pl_bits b) = pl_bits lbl" "a \<noteq> b"
    by (auto dest!: prefix_snoc)
  with that m show ?thesis by blast
qed

lemma same_leaves_label:
  assumes "ct_wf (Node p h l r)" "ct_wf (Node p' h' l' r')" "l \<noteq> Nullptr" "l' \<noteq> Nullptr"
    and "set (ct_leaves (Node p h l r)) = set (ct_leaves (Node p' h' l' r'))"
  shows "p = p'"
proof -
  have le: "is_prefix (pl_bits q) (pl_bits q')"
    if w: "ct_wf (Node q g c d)" "ct_wf (Node q' g' c' d')" "c' \<noteq> Nullptr"
      and s: "set (ct_leaves (Node q g c d)) = set (ct_leaves (Node q' g' c' d'))"
    for q g c d q' g' c' d'
  proof -
    obtain a x b y where m: "(a, x) \<in> set (ct_leaves c')" "(b, y) \<in> set (ct_leaves d')"
      "lcp (pl_bits a) (pl_bits b) = pl_bits q'"
      using internal_label [OF w(2,3)] by metis
    then have "(a, x) \<in> set (ct_leaves (Node q g c d))" "(b, y) \<in> set (ct_leaves (Node q g c d))"
      unfolding s using w(3) by auto
    then have "is_prefix (pl_bits q) (pl_bits a)" "is_prefix (pl_bits q) (pl_bits b)"
      using leaves_extend [OF w(1)] by fastforce+
    then show ?thesis using prefix_lcp m(3) by metis
  qed
  have "is_prefix (pl_bits p) (pl_bits p')" "is_prefix (pl_bits p') (pl_bits p)"
    using le [OF assms(1,2,4,5)] le [OF assms(2,1,3) assms(5) [symmetric]] by simp_all
  then have "pl_bits p = pl_bits p'"
    by (metis append_eq_conv_conj is_prefix_def is_prefix_length le_antisym take_all_iff)
  then show ?thesis using assms(1,2) pl_bits_inj by auto
qed

lemma leaves_side:
  assumes "ct_wf (Node q g c d)" "c \<noteq> Nullptr"
  shows "set (ct_leaves (if b then d else c)) =
    {z \<in> set (ct_leaves (Node q g c d)). is_prefix (pl_bits q @ [b]) (pl_bits (fst z))}"
proof (rule set_eqI)
  fix z show "z \<in> set (ct_leaves (if b then d else c)) \<longleftrightarrow>
    z \<in> {z \<in> set (ct_leaves (Node q g c d)). is_prefix (pl_bits q @ [b]) (pl_bits (fst z))}"
  proof (cases z)
    case (Pair k v)
    have w: "ct_wf c" "ct_wf d" "is_prefix (pl_bits q @ [False]) (pl_bits (node_label c))"
      "is_prefix (pl_bits q @ [True]) (pl_bits (node_label d))" using assms by auto
    have c: "is_prefix (pl_bits q @ [False]) (pl_bits k)" if "(k, v) \<in> set (ct_leaves c)"
      using leaves_extend [OF w(1) that] w(3) is_prefix_trans by blast
    have d: "is_prefix (pl_bits q @ [True]) (pl_bits k)" if "(k, v) \<in> set (ct_leaves d)"
      using leaves_extend [OF w(2) that] w(4) is_prefix_trans by blast
    show ?thesis using c d assms(2) prefix_snoc_diff [of "pl_bits q" _ "pl_bits k"]
      by (cases b) (auto simp: Pair)
  qed
qed

lemma two_leaves:
  assumes "ct_wf (Node q g c d)" "c \<noteq> Nullptr"
  shows "\<not> set (ct_leaves (Node q g c d)) \<subseteq> {z}"
proof -
  obtain a b x y where "(a, x) \<in> set (ct_leaves c)" "(b, y) \<in> set (ct_leaves d)" "a \<noteq> b"
    using internal_label [OF assms] by metis
  then have "(a, x) \<in> set (ct_leaves (Node q g c d))" "(b, y) \<in> set (ct_leaves (Node q g c d))"
    using assms(2) by auto
  then show ?thesis using \<open>a \<noteq> b\<close> by (metis prod.inject singletonD subsetD)
qed

lemma wf_children: "ct_wf (Node p h l r) \<Longrightarrow> (l = Nullptr) = (r = Nullptr)"
  by auto

lemma same_leaves_kind:
  assumes "ct_wf (Node p h l r)" "ct_wf (Node p' h' l' r')"
    and "set (ct_leaves (Node p h l r)) = set (ct_leaves (Node p' h' l' r'))"
  shows "(l = Nullptr) = (l' = Nullptr)"
proof
  assume "l = Nullptr"
  then have "set (ct_leaves (Node p h l r)) \<subseteq> {(p, h)}" using wf_children [OF assms(1)] by simp
  then show "l' = Nullptr" using two_leaves [OF assms(2)] assms(3) by blast
next
  assume "l' = Nullptr"
  then have "set (ct_leaves (Node p' h' l' r')) \<subseteq> {(p', h')}" using wf_children [OF assms(2)] by simp
  then show "l = Nullptr" using two_leaves [OF assms(1)] assms(3) by blast
qed

lemma leaves_determine_shape:
  "ct_wf t \<Longrightarrow> ct_wf t' \<Longrightarrow> set (ct_leaves t) = set (ct_leaves t') \<Longrightarrow> ct_shape t = ct_shape t'"
proof (induction t arbitrary: t')
  case (Node p h l r)
  obtain p' h' l' r' where t': "t' = Node p' h' l' r'" using Node.prems(2) by (cases t') auto
  note w = Node.prems(1) Node.prems(2) [unfolded t']
  note same = Node.prems(3) [unfolded t']
  note kind = same_leaves_kind [OF w same] and nn = wf_children [OF w(1)] wf_children [OF w(2)]
  show ?case
  proof (cases "l = Nullptr")
    case True
    then show ?thesis using nn kind t' same by simp
  next
    case False
    then have l': "l' \<noteq> Nullptr" using kind by simp
    have p: "p = p'" by (rule same_leaves_label [OF w False l' same])
    have "set (ct_leaves (if b then r else l)) = set (ct_leaves (if b then r' else l'))" for b
      using leaves_side [OF w(1) False, of b] leaves_side [OF w(2) l', of b] same p by simp
    from this [of False] this [of True]
    have s: "set (ct_leaves l) = set (ct_leaves l')" "set (ct_leaves r) = set (ct_leaves r')" by simp_all
    have c: "ct_wf l" "ct_wf r" "ct_wf l'" "ct_wf r'" using w False l' by auto
    show ?thesis using p False l' nn t' Node.IH(1) [OF c(1,3) s(1)] Node.IH(2) [OF c(2,4) s(2)] by simp
  qed
qed simp

end
