(* ===== verification/CT_Update.thy ===== *)
theory CT_Update
  imports CT_Insert
begin

text \<open>
  The hash updates after insertions. \<open>ct_fresh\<close> says that every internal hash of a subtree is the
  hash of its children. \<open>ct_upd\<close> is the effect of one \<open>update_hashes\<close> call on the tree; it keeps the
  invariant \<open>pend U\<close> of \<open>CT_Insert\<close> for the labels that are still to be updated, and leaves a
  subtree without pending labels fresh.
\<close>

section \<open>Fresh hashes\<close>

fun ct_fresh :: "ctnode \<Rightarrow> bool" where
  "ct_fresh Nullptr = True"
| "ct_fresh (Node lbl h l r) =
     (\<not> dirty_bit h \<and>
      (l = Nullptr \<and> r = Nullptr \<or> h = digest l r \<and> ct_fresh l \<and> ct_fresh r))"

definition refresh :: "ctnode \<Rightarrow> ctnode" where
  "refresh t = (case t of Nullptr \<Rightarrow> Nullptr
     | Node lbl h l r \<Rightarrow> if dirty_bit h \<and> shallow t then Node lbl (digest l r) l r else t)"

definition refresh_at :: "nat \<Rightarrow> nat \<Rightarrow> ctnode \<Rightarrow> ctnode" where
  "refresh_at level root_levels t = (if level < root_levels then t else refresh t)"

lemma refresh_label [simp]: "node_label (refresh t) = node_label t" "refresh Nullptr = Nullptr"
  "refresh t = Nullptr \<longleftrightarrow> t = Nullptr" "ct_leaves (refresh t) = (if is_leaf t \<and> get_dirty_bit t
    then [(node_label t, digest Nullptr Nullptr)] else ct_leaves t)"
  by (cases t; simp add: refresh_def)+

lemma refresh_at_label [simp]: "node_label (refresh_at i n t) = node_label t"
  "refresh_at i n Nullptr = Nullptr" "refresh_at i n t = Nullptr \<longleftrightarrow> t = Nullptr"
  by (simp_all add: refresh_at_def)

lemma refresh_clean: "\<not> get_dirty_bit t \<Longrightarrow> refresh t = t" "\<not> get_dirty_bit t \<Longrightarrow> refresh_at i n t = t"
  by (cases t; simp add: refresh_def refresh_at_def)+

lemma refresh_shallow: "shallow t \<Longrightarrow> \<not> get_dirty_bit (refresh t)"
  by (cases t) (simp_all add: refresh_def)

lemma wf_leaf_clean: "ct_wf t \<Longrightarrow> is_leaf t \<Longrightarrow> \<not> get_dirty_bit t"
  by (cases t) auto

lemma refresh_wf:
  assumes "ct_wf t"
  shows "ct_wf (refresh t)" "ct_leaves (refresh t) = ct_leaves t"
  using assms wf_leaf_clean [OF assms] by (cases t; auto simp: refresh_def)+

lemma refresh_at_wf:
  assumes "ct_wf t"
  shows "ct_wf (refresh_at i n t)" "ct_leaves (refresh_at i n t) = ct_leaves t"
  using refresh_wf [OF assms] assms by (simp_all add: refresh_at_def del: refresh_label)

text \<open>The code of \<open>update_hash\<close> is \<open>refresh_at\<close> on every node but a dirty leaf.\<close>

lemma update_and_save_refresh:
  assumes "is_leaf t \<Longrightarrow> \<not> get_dirty_bit t" "t \<noteq> Nullptr"
  shows "update_and_save level root_levels t =
    (None, refresh_at level root_levels t,
     if \<not> level < root_levels \<and> get_dirty_bit t \<and> shallow t then [save_node (refresh t)] else [])"
  using assms
  by (cases t) (auto simp: update_and_save_def update_hash_def refresh_at_def refresh_def digest_def
      split: if_splits)

section \<open>The effect of a hash update\<close>

text \<open>Nodes below which a label can be routed: the root and the well-formed inner nodes.\<close>

definition child_ok :: "partial_label \<Rightarrow> bool \<Rightarrow> ctnode \<Rightarrow> bool" where
  "child_ok lbl b c = (c = Nullptr \<or> ct_wf c \<and> is_prefix (pl_bits lbl @ [b]) (pl_bits (node_label c)))"

fun node_ok :: "ctnode \<Rightarrow> bool" where
  "node_ok Nullptr = False"
| "node_ok (Node lbl h l r) = (pl_valid lbl \<and> is_hash h \<and> child_ok lbl False l \<and> child_ok lbl True r)"

lemma wf_node_ok: "ct_wf t \<Longrightarrow> node_ok t"
  by (cases t) (auto simp: child_ok_def)

lemma root_node_ok: "root_wf t \<Longrightarrow> node_ok t"
  by (cases t) (auto simp: root_wf_def child_ok_def child_wf_def)

fun ct_upd :: "partial_label \<Rightarrow> nat \<Rightarrow> nat \<Rightarrow> ctnode \<Rightarrow> ctnode" where
  "ct_upd k level root_levels Nullptr = Nullptr"
| "ct_upd k level root_levels (Node lbl h l r) =
     (if lbl = k then Node lbl h l r
      else refresh_at level root_levels
        (if pl_bits k ! length (pl_bits lbl)
         then Node lbl h (refresh_at (level + 1) root_levels l) (ct_upd k (level + 1) root_levels r)
         else Node lbl h (ct_upd k (level + 1) root_levels l) (refresh_at (level + 1) root_levels r)))"

lemma ct_upd_label [simp]: "node_label (ct_upd k i n t) = node_label t"
  "ct_upd k i n t = Nullptr \<longleftrightarrow> t = Nullptr"
  by (cases t; simp)+

lemma ct_upd_wf:
  "ct_wf t \<Longrightarrow> ct_wf (ct_upd k i n t) \<and> ct_leaves (ct_upd k i n t) = ct_leaves t"
proof (induction t arbitrary: i)
  case (Node lbl h l r)
  show ?case
  proof (cases "lbl = k \<or> l = Nullptr \<and> r = Nullptr")
    case True
    then show ?thesis
    proof
      assume "lbl = k"
      then show ?thesis using Node.prems by simp
    qed (use Node.prems in \<open>auto simp: refresh_at_def refresh_def\<close>)
  next
    case False
    then have c: "ct_wf l" "ct_wf r" using Node.prems by auto
    let ?n = "if pl_bits k ! length (pl_bits lbl)
         then Node lbl h (refresh_at (i + 1) n l) (ct_upd k (i + 1) n r)
         else Node lbl h (ct_upd k (i + 1) n l) (refresh_at (i + 1) n r)"
    have "ct_wf ?n" "ct_leaves ?n = ct_leaves (Node lbl h l r)"
      using False c Node.prems Node.IH(1) [OF c(1), of "i + 1"] Node.IH(2) [OF c(2), of "i + 1"]
        refresh_at_wf [OF c(1)] refresh_at_wf [OF c(2)] by auto
    then show ?thesis using refresh_at_wf [of ?n i n] False by simp
  qed
qed simp

text \<open>
  The recursive lookup in update mode: on a label that is in the tree it throws nothing, finds the
  label, leaves the path empty and changes the tree as \<open>ct_upd\<close> says.
\<close>

lemma leaf_below_child:
  assumes "node_ok (Node lbl h l r)" "(k, v) \<in> set (ct_leaves l) \<union> set (ct_leaves r)"
  obtains b ys c where "pl_bits k = pl_bits lbl @ b # ys" "c = (if b then r else l)"
    "(k, v) \<in> set (ct_leaves c)" "ct_wf c" "is_prefix (pl_bits lbl @ [b]) (pl_bits (node_label c))"
    "pl_valid k"
proof -
  have "\<exists>b. (k, v) \<in> set (ct_leaves (if b then r else l))" using assms(2) by (metis Un_iff)
  then obtain b where b: "(k, v) \<in> set (ct_leaves (if b then r else l))" ..
  define c where "c = (if b then r else l)"
  have c: "ct_wf c" "is_prefix (pl_bits lbl @ [b]) (pl_bits (node_label c))"
    using assms(1) b by (cases b; auto simp: child_ok_def c_def)+
  have "is_prefix (pl_bits (node_label c)) (pl_bits k)" "pl_valid k"
    using leaves_extend [OF c(1)] b by (simp_all add: c_def)
  then obtain ys where "pl_bits k = pl_bits lbl @ b # ys"
    using c(2) is_prefix_trans prefix_snoc by metis
  then show ?thesis using that b c \<open>pl_valid k\<close> by (simp add: c_def)
qed

lemma saves_ok_refl: "saves_ok t t []"
  by (simp add: saves_ok_def)

lemma saves_ok_refresh:
  "saves_ok t (refresh_at i n t)
    (if \<not> i < n \<and> get_dirty_bit t \<and> shallow t then [save_node (refresh t)] else [])"
proof (cases "\<not> i < n \<and> get_dirty_bit t \<and> shallow t")
  case True
  then show ?thesis
    by (cases t) (auto simp: saves_ok_def refresh_at_def refresh_def)
next
  case False
  then have "refresh_at i n t = t" by (cases t) (auto simp: refresh_at_def refresh_def)
  then show ?thesis using False by (simp only: if_False saves_ok_refl)
qed

lemma saves_ok_node:
  assumes "saves_ok l l' sl" "saves_ok r r' sr" "node_label l' = node_label l" "node_label r' = node_label r"
    and "set saved = set sl \<union> set sr \<union> set es"
    and "h' = h \<and> es = [] \<or> es = [save_node (Node lbl h' l' r')]"
  shows "saves_ok (Node lbl h l r) (Node lbl h' l' r') saved"
proof -
  let ?S = "\<lambda>n. save_node ` set (ct_nodes n)"
  have l: "set sl \<subseteq> ?S l'" "?S l' \<subseteq> set sl \<union> ?S l" and r: "set sr \<subseteq> ?S r'" "?S r' \<subseteq> set sr \<union> ?S r"
    using assms(1,2) by (simp_all add: saves_ok_def)
  have same: "h' = h \<Longrightarrow> save_node (Node lbl h' l' r') = save_node (Node lbl h l r)"
    using assms(3,4) by (simp add: save_node_def)
  have S': "?S (Node lbl h' l' r') = insert (save_node (Node lbl h' l' r')) (?S l' \<union> ?S r')"
    and S: "?S (Node lbl h l r) = insert (save_node (Node lbl h l r)) (?S l \<union> ?S r)"
    by (simp_all add: image_Un)
  show ?thesis
    unfolding saves_ok_def S' S assms(5) using l r same assms(6) by auto
qed

lemma lookup_upd_step:
  assumes ok: "node_ok (Node lbl h l r)" and k: "pl_valid k" "pl_bits k = pl_bits lbl @ b # ys"
    and c: "c = (if b then r else l)" "ct_wf c" "is_prefix (pl_bits lbl @ [b]) (pl_bits (node_label c))"
    and rec: "ct_lookup_rec k False True (Suc i) n [] c = (Inr True, [], ct_upd k (Suc i) n c, sc)"
    and sc: "saves_ok c (ct_upd k (Suc i) n c) sc"
  shows "\<exists>saved. ct_lookup_rec k False True i n [] (Node lbl h l r) =
      (Inr True, [], ct_upd k i n (Node lbl h l r), saved) \<and>
    saves_ok (Node lbl h l r) (ct_upd k i n (Node lbl h l r)) saved"
proof -
  have v: "pl_valid lbl" and ne: "lbl \<noteq> k" using ok k by auto
  note route = pl.bit_after_common [OF k(1) v k(2)]
  define s where "s = (if b then l else r)"
  define ss where "ss = (if \<not> Suc i < n \<and> get_dirty_bit s \<and> shallow s then [save_node (refresh s)] else [])"
  define c' where "c' = ct_upd k (Suc i) n c"
  define s' where "s' = refresh_at (Suc i) n s"
  define t2 where "t2 = (if b then Node lbl h s' c' else Node lbl h c' s')"
  define st where "st = (if \<not> i < n \<and> get_dirty_bit t2 \<and> shallow t2 then [save_node (refresh t2)] else [])"
  have us: "(if s = Nullptr then (None, s, []) else update_and_save (Suc i) n s) = (None, s', ss)"
  proof (cases "s = Nullptr")
    case False
    then have "ct_wf s" using ok by (auto simp: s_def child_ok_def split: if_splits)
    then show ?thesis using False update_and_save_refresh [of s "Suc i" n] wf_leaf_clean [of s]
      by (simp add: s'_def ss_def)
  qed (simp add: s'_def ss_def)
  have cN: "c \<noteq> Nullptr" "c' \<noteq> Nullptr" using c(2) by (auto simp: c'_def)
  have "\<not> is_leaf t2" "t2 \<noteq> Nullptr" using cN by (simp_all add: t2_def)
  then have ut: "update_and_save i n t2 = (None, refresh_at i n t2, st)"
    unfolding st_def by (intro update_and_save_refresh) simp_all
  have rt: "has_route b (pl_bit_count lbl) c = Inr True" using has_route_below [OF c(2,3)] by simp
  have b: "pl_bits k ! length (pl_bits lbl) = b" by (simp only: k(2) nth_append_length)
  have upd: "ct_upd k i n (Node lbl h l r) = refresh_at i n t2"
    using ne b by (simp add: t2_def s'_def c'_def c(1) s_def)
  have leaf: "\<not> is_leaf (Node lbl h l r)" using cN(1) c(1) by (auto split: if_splits)
  have res: "ct_lookup_rec k False True i n [] (Node lbl h l r) =
      (Inr True, [], refresh_at i n t2, sc @ ss @ st)"
  proof (cases b)
    case True
    then show ?thesis using ne leaf route rt rec us ut c(1)
      by (cases "l = Nullptr")
        (simp_all add: Let_def common_prefix_count_def s_def c'_def t2_def del: is_leaf_simps)
  next
    case False
    then show ?thesis using ne leaf route rt rec us ut c(1)
      by (cases "r = Nullptr")
        (simp_all add: Let_def common_prefix_count_def s_def c'_def t2_def del: is_leaf_simps)
  qed
  have fin: "\<exists>h'. refresh_at i n t2 = (if b then Node lbl h' s' c' else Node lbl h' c' s') \<and>
      (h' = h \<and> st = [] \<or> st = [save_node (refresh_at i n t2)])"
    by (cases b) (auto simp: t2_def st_def refresh_at_def refresh_def)
  have so: "saves_ok s s' ss" unfolding s'_def ss_def by (rule saves_ok_refresh)
  have sl: "node_label s' = node_label s" "node_label c' = node_label c" by (simp_all add: s'_def c'_def)
  have "saves_ok (Node lbl h l r) (refresh_at i n t2) (sc @ ss @ st)"
  proof (cases b)
    case True
    obtain h' where h': "refresh_at i n t2 = Node lbl h' s' c'"
      "h' = h \<and> st = [] \<or> st = [save_node (refresh_at i n t2)]" using fin True by auto
    have lr: "l = s" "r = c" using True c(1) by (simp_all add: s_def)
    show ?thesis unfolding h'(1) lr using h'(2) [unfolded h'(1)] sl
      by (intro saves_ok_node [OF so sc [folded c'_def], of _ st]) auto
  next
    case False
    obtain h' where h': "refresh_at i n t2 = Node lbl h' c' s'"
      "h' = h \<and> st = [] \<or> st = [save_node (refresh_at i n t2)]" using fin False by auto
    have lr: "l = c" "r = s" using False c(1) by (simp_all add: s_def)
    show ?thesis unfolding h'(1) lr using h'(2) [unfolded h'(1)] sl
      by (intro saves_ok_node [OF sc [folded c'_def] so, of _ st]) auto
  qed
  then show ?thesis using res upd by auto
qed

lemma lookup_upd:
  "ct_wf t \<Longrightarrow> (k, v) \<in> set (ct_leaves t) \<Longrightarrow>
    \<exists>saved. ct_lookup_rec k False True i n [] t = (Inr True, [], ct_upd k i n t, saved) \<and>
      saves_ok t (ct_upd k i n t) saved"
proof (induction t arbitrary: i)
  case (Node lbl h l r)
  show ?case
  proof (cases "l = Nullptr \<and> r = Nullptr")
    case True
    then have "lbl = k" "\<not> dirty_bit h" using Node.prems by auto
    then show ?thesis using True
      by (simp add: Let_def update_and_save_def update_hash_def saves_ok_refl)
  next
    case False
    then have "(k, v) \<in> set (ct_leaves l) \<union> set (ct_leaves r)"
      using Node.prems(2) by (simp split: if_splits)
    then obtain b ys c where c: "pl_bits k = pl_bits lbl @ b # ys" "c = (if b then r else l)"
      "(k, v) \<in> set (ct_leaves c)" "ct_wf c" "is_prefix (pl_bits lbl @ [b]) (pl_bits (node_label c))"
      "pl_valid k"
      by (rule leaf_below_child [OF wf_node_ok [OF Node.prems(1)]])
    have "\<exists>saved. ct_lookup_rec k False True (Suc i) n [] c = (Inr True, [], ct_upd k (Suc i) n c, saved) \<and>
        saves_ok c (ct_upd k (Suc i) n c) saved"
      using Node.IH(1) [of "Suc i"] Node.IH(2) [of "Suc i"] c(2,3,4) by (cases b) simp_all
    then show ?thesis using lookup_upd_step [OF wf_node_ok [OF Node.prems(1)] c(6,1,2,4,5)] by blast
  qed
qed simp

lemma update_hashes_upd:
  assumes "root_wf t" "(k, v) \<in> trie_leaves t"
  shows "\<exists>saved. update_hashes k n t = (Inr (), ct_upd k 0 n t, saved) \<and> saves_ok t (ct_upd k 0 n t) saved"
proof -
  obtain h l r where t: "t = Node pl_default h l r" using root_wf_cases [OF assms(1)] by metis
  have m: "(k, v) \<in> set (ct_leaves l) \<union> set (ct_leaves r)" using assms(2) t by simp
  obtain b ys c where c: "pl_bits k = pl_bits pl_default @ b # ys" "c = (if b then r else l)"
    "(k, v) \<in> set (ct_leaves c)" "ct_wf c" "is_prefix (pl_bits pl_default @ [b]) (pl_bits (node_label c))"
    "pl_valid k"
    using leaf_below_child [OF root_node_ok [OF assms(1), unfolded t] m] by blast
  obtain sc where "ct_lookup_rec k False True (Suc 0) n [] c = (Inr True, [], ct_upd k (Suc 0) n c, sc)"
    "saves_ok c (ct_upd k (Suc 0) n c) sc"
    using lookup_upd [OF c(4,3)] by blast
  from lookup_upd_step [OF root_node_ok [OF assms(1), unfolded t] c(6,1,2,4,5) this]
  show ?thesis using t by (auto simp: update_hashes_def)
qed

section \<open>The invariant between insertions and updates\<close>

lemma pend_fresh: "ct_fresh t \<Longrightarrow> pend U t \<and> \<not> get_dirty_bit t"
  by (induction t) (auto simp: ok_child_def)

lemma clean_fresh: "pend U t \<Longrightarrow> \<not> get_dirty_bit t \<Longrightarrow> ct_fresh t"
  by (induction t) auto

lemma below_cong:
  "(\<And>k v. (k, v) \<in> set (ct_leaves t) \<Longrightarrow> (k \<in> U) = (k \<in> U')) \<Longrightarrow> below U t = below U' t"
  by (auto simp: below_def)

lemma pend_cong:
  "(\<And>k v. (k, v) \<in> set (ct_leaves t) \<Longrightarrow> (k \<in> U) = (k \<in> U')) \<Longrightarrow> pend U t = pend U' t"
proof (induction t)
  case (Node lbl h l r)
  show ?case
  proof (cases "l = Nullptr \<and> r = Nullptr")
    case False
    then have m: "(k \<in> U) = (k \<in> U')" if "(k, v) \<in> set (ct_leaves l) \<union> set (ct_leaves r)" for k v
      using Node.prems [of k v] that by (auto split: if_splits)
    have "pend U l = pend U' l" "pend U r = pend U' r" "below U l = below U' l" "below U r = below U' r"
      using m by (auto intro!: Node.IH below_cong)
    then show ?thesis by (simp add: ok_child_def)
  qed simp
qed simp

lemma shallow_refresh: "shallow (refresh t) = shallow t"
  by (cases t) (simp_all add: refresh_def)

lemma pend_refresh: "pend U t \<Longrightarrow> pend U (refresh t)"
  by (cases t) (auto simp: refresh_def)

lemma pend_refresh_at: "pend U t \<Longrightarrow> pend U (refresh_at i n t)"
  by (simp add: refresh_at_def pend_refresh)

lemma refresh_dirty: "get_dirty_bit (refresh t) \<Longrightarrow> get_dirty_bit t \<and> \<not> shallow t \<and> refresh t = t"
  by (cases t) (auto simp: refresh_def split: if_splits)

subsection \<open>A hash update keeps it\<close>

lemma fresh_refresh_at: "ct_fresh t \<Longrightarrow> refresh_at i n t = t"
  by (rule refresh_clean) (use pend_fresh in blast)

lemma fresh_upd: "ct_fresh t \<Longrightarrow> ct_upd k i n t = t"
proof (induction t arbitrary: i)
  case (Node lbl h l r)
  have "ct_fresh l" "ct_fresh r" using Node.prems by auto
  then show ?case using Node fresh_refresh_at by (simp add: fresh_refresh_at del: ct_fresh.simps)
qed simp

lemma ct_upd_Node:
  assumes "node_ok (Node lbl h l r)" "pl_bits k = pl_bits lbl @ b # ys"
  shows "ct_upd k i n (Node lbl h l r) = refresh_at i n
    (if b then Node lbl h (refresh_at (Suc i) n l) (ct_upd k (Suc i) n r)
     else Node lbl h (ct_upd k (Suc i) n l) (refresh_at (Suc i) n r))"
proof -
  have "lbl \<noteq> k" "pl_bits k ! length (pl_bits lbl) = b"
    using assms(2) by auto (metis assms(2) length_pl_bits nth_append_length)+
  then show ?thesis by simp
qed

text \<open>
  One level: the child on the path has been updated and satisfies the claim; the sibling is
  refreshed. The children of the node then satisfy the invariant, and are clean when no pending
  label is left below the node.
\<close>

lemma upd_children:
  assumes "pend U' c'" "below U' c' \<or> \<not> get_dirty_bit c'" "pend U s" "ok_child U s c"
    and "\<And>v. (k, v) \<notin> set (ct_leaves s)" "U' = U - {k}" "n \<le> Suc i" "s = Nullptr \<or> ct_wf s"
  defines "s' \<equiv> refresh_at (Suc i) n s"
  shows "pend U' s'" "ok_child U' c' s'" "ok_child U' s' c'" "\<not> below U' s' \<Longrightarrow> \<not> get_dirty_bit s'"
    "ct_leaves s' = ct_leaves s"
proof -
  have s': "s' = refresh s" using assms(7) by (simp add: s'_def refresh_at_def)
  show l: "ct_leaves s' = ct_leaves s" using assms(8) refresh_wf(2) by (auto simp: s' simp del: refresh_label(4))
  have U: "pend U s = pend U' s" "below U s = below U' s"
    using assms(5,6) by (intro pend_cong below_cong; auto)+
  show "pend U' s'" using assms(3) U by (simp add: s' pend_refresh)
  show "ok_child U' c' s'" using assms(2) by (auto simp: ok_child_def)
  have d: "get_dirty_bit s' \<Longrightarrow> below U' s'"
    using assms(4) refresh_dirty [of s] U l by (auto simp: s' ok_child_def below_def)
  then show "ok_child U' s' c'" "\<not> below U' s' \<Longrightarrow> \<not> get_dirty_bit s'" by (auto simp: ok_child_def)
qed

lemma upd_step_pend:
  assumes ok: "node_ok (Node lbl h l r)" and p: "pend U (Node lbl h l r)" and d: "dirty_bit h"
    and k: "pl_bits k = pl_bits lbl @ b # ys" and c: "c = (if b then r else l)" "c \<noteq> Nullptr"
    and rec: "pend (U - {k}) (ct_upd k (Suc i) n c)"
      "below (U - {k}) (ct_upd k (Suc i) n c) \<or> \<not> get_dirty_bit (ct_upd k (Suc i) n c)"
    and n: "n \<le> Suc i"
  defines "t' \<equiv> ct_upd k i n (Node lbl h l r)"
  shows "pend (U - {k}) t'" "ct_leaves t' = ct_leaves (Node lbl h l r)"
    "\<not> below (U - {k}) t' \<Longrightarrow> shallow t'"
    "\<not> below (U - {k}) t' \<Longrightarrow> n \<le> i \<Longrightarrow> \<not> get_dirty_bit t'"
proof -
  let ?U = "U - {k}"
  define s where "s = (if b then l else r)"
  define c' where "c' = ct_upd k (Suc i) n c"
  define s' where "s' = refresh_at (Suc i) n s"
  define t2 where "t2 = (if b then Node lbl h s' c' else Node lbl h c' s')"
  have t': "t' = refresh_at i n t2"
    unfolding t'_def ct_upd_Node [OF ok k] t2_def s'_def c'_def s_def c(1) by simp
  have swf: "s = Nullptr \<or> ct_wf s \<and> is_prefix (pl_bits lbl @ [\<not> b]) (pl_bits (node_label s))"
    and cwf: "ct_wf c"
    using ok c by (auto simp: s_def child_ok_def)
  have nk: "(k, v) \<notin> set (ct_leaves s)" for v
  proof
    assume m: "(k, v) \<in> set (ct_leaves s)"
    then have "is_prefix (pl_bits lbl @ [\<not> b]) (pl_bits k)"
      using swf leaves_extend [of s k v] is_prefix_trans by fastforce
    then show False using prefix_snoc_diff [of "pl_bits lbl" "\<not> b" "pl_bits k" b] k by simp
  qed
  have ps: "pend U s" "ok_child U s c" using p c by (auto simp: s_def split: if_splits)
  note ch = upd_children [OF rec [folded c'_def] ps nk refl n, folded s'_def]
  have ch: "pend ?U s'" "ok_child ?U c' s'" "ok_child ?U s' c'" "\<not> below ?U s' \<Longrightarrow> \<not> get_dirty_bit s'"
    "ct_leaves s' = ct_leaves s"
    using ch swf by auto
  have lc: "ct_leaves c' = ct_leaves c" using ct_upd_wf [OF cwf] by (simp add: c'_def)
  have nN: "c' \<noteq> Nullptr" using c(2) by (simp add: c'_def)
  have s'N: "s' = Nullptr \<longleftrightarrow> s = Nullptr" by (simp add: s'_def)
  have p2: "pend ?U t2" using ch rec(1) d by (auto simp: t2_def c'_def)
  then show "pend ?U t'" by (simp add: t' pend_refresh_at)
  have l2: "ct_leaves t2 = ct_leaves (Node lbl h l r)"
    using lc ch(5) c nN by (auto simp: t2_def s_def split: if_splits)
  have "\<not> is_leaf t2" using nN by (simp add: t2_def)
  then show lt: "ct_leaves t' = ct_leaves (Node lbl h l r)" using l2 by (simp add: t' refresh_at_def)
  have "shallow t2" if "\<not> below ?U t'"
  proof -
    have "set (ct_leaves t') = set (ct_leaves c') \<union> set (ct_leaves s')"
      unfolding lt l2 [symmetric] using nN by (auto simp: t2_def)
    then have "\<not> below ?U c'" "\<not> below ?U s'" using that by (auto simp: below_def)
    then show ?thesis using rec(2) ch(4) by (auto simp: t2_def c'_def)
  qed
  then show "\<not> below ?U t' \<Longrightarrow> shallow t'" "\<not> below ?U t' \<Longrightarrow> n \<le> i \<Longrightarrow> \<not> get_dirty_bit t'"
    by (simp_all add: t' refresh_at_def shallow_refresh refresh_shallow)
qed

lemma ct_upd_pend:
  "ct_wf t \<Longrightarrow> (k, v) \<in> set (ct_leaves t) \<Longrightarrow> pend U t \<Longrightarrow> n \<le> i \<Longrightarrow>
    pend (U - {k}) (ct_upd k i n t) \<and>
    (below (U - {k}) (ct_upd k i n t) \<or> \<not> get_dirty_bit (ct_upd k i n t))"
proof (induction t arbitrary: i)
  case (Node lbl h l r)
  show ?case
  proof (cases "dirty_bit h")
    case False
    then have "ct_fresh (Node lbl h l r)" using clean_fresh [OF Node.prems(3)] by simp
    then show ?thesis using pend_fresh by (simp only: fresh_upd) blast
  next
    case d: True
    then have "\<not> (l = Nullptr \<and> r = Nullptr)" using Node.prems(1) by auto
    then have m: "(k, v) \<in> set (ct_leaves l) \<union> set (ct_leaves r)"
      using Node.prems(2) by (simp split: if_splits)
    note ok = wf_node_ok [OF Node.prems(1)]
    obtain b ys c where c: "pl_bits k = pl_bits lbl @ b # ys" "c = (if b then r else l)"
      "(k, v) \<in> set (ct_leaves c)" "ct_wf c"
      using leaf_below_child [OF ok m] by metis
    have "pend U c" using Node.prems(3) m c(2,3) by (cases b) auto
    then have "pend (U - {k}) (ct_upd k (Suc i) n c) \<and>
        (below (U - {k}) (ct_upd k (Suc i) n c) \<or> \<not> get_dirty_bit (ct_upd k (Suc i) n c))"
      using Node.IH(1) [of "Suc i"] Node.IH(2) [of "Suc i"] c(2-4) Node.prems(4) by (cases b) simp_all
    then show ?thesis
      using upd_step_pend [OF ok Node.prems(3) d c(1,2) ct_wf_ne [OF c(4)], of i n] Node.prems(4) by auto
  qed
qed simp

section \<open>The root\<close>

lemma child_wf_child_ok: "child_wf b c = child_ok pl_default b c"
  by (simp add: child_wf_def child_ok_def)

lemma child_ok_refresh: "child_ok p b c \<Longrightarrow> child_ok p b (refresh_at i n c)"
  using refresh_at_wf by (auto simp: child_ok_def)

lemma child_ok_upd: "child_ok p b c \<Longrightarrow> child_ok p b (ct_upd k i n c)"
  using ct_upd_wf by (auto simp: child_ok_def)

lemma refresh_at_Node: "\<exists>h'. refresh_at i n (Node lbl h l r) = Node lbl h' l r \<and> (is_hash h \<longrightarrow> is_hash h')"
  by (auto simp: refresh_at_def refresh_def)

lemma refresh_root_wf: "root_wf t \<Longrightarrow> root_wf (refresh_at i n t) \<and> trie_leaves (refresh_at i n t) = trie_leaves t"
proof -
  assume "root_wf t"
  then obtain h l r where t: "t = Node pl_default h l r" "is_hash h" "child_wf False l" "child_wf True r"
    by (rule root_wf_cases)
  obtain h' where "refresh_at i n t = Node pl_default h' l r" "is_hash h'"
    using refresh_at_Node [of i n pl_default h l r] t by auto
  then show ?thesis using t by (simp add: root_wf_def)
qed

lemma child_leaves_refresh: "child_ok p b c \<Longrightarrow> ct_leaves (refresh_at i n c) = ct_leaves c"
  using refresh_at_wf(2) by (auto simp: child_ok_def)

lemma child_leaves_upd: "child_ok p b c \<Longrightarrow> ct_leaves (ct_upd k i n c) = ct_leaves c"
  using ct_upd_wf by (auto simp: child_ok_def)

lemma ct_upd_root_wf:
  assumes "root_wf t" "pl_bits k \<noteq> []"
  shows "root_wf (ct_upd k i n t) \<and> trie_leaves (ct_upd k i n t) = trie_leaves t"
proof -
  obtain h l r where t: "t = Node pl_default h l r" "is_hash h" "child_wf False l" "child_wf True r"
    using assms(1) by (rule root_wf_cases)
  obtain b bs where k: "pl_bits k = pl_bits pl_default @ b # bs" using assms(2) by (cases "pl_bits k") auto
  let ?t2 = "if b then Node pl_default h (refresh_at (Suc i) n l) (ct_upd k (Suc i) n r)
     else Node pl_default h (ct_upd k (Suc i) n l) (refresh_at (Suc i) n r)"
  have c: "child_ok pl_default False l" "child_ok pl_default True r" using t child_wf_child_ok by auto
  have "root_wf ?t2" "trie_leaves ?t2 = trie_leaves t"
    using t c by (auto simp: root_wf_def child_wf_child_ok child_ok_refresh child_ok_upd
        child_leaves_refresh child_leaves_upd)
  then show ?thesis
    using ct_upd_Node [OF root_node_ok [OF assms(1), unfolded t(1)] k, of i n] refresh_root_wf [of ?t2 i n]
    by (simp add: t(1))
qed

lemma root_upd_pend:
  assumes "root_wf t" "(k, v) \<in> trie_leaves t" "pend U t" "get_dirty_bit t" "n \<le> Suc 0"
  defines "t' \<equiv> ct_upd k 0 n t"
  shows "pend (U - {k}) t'" "\<not> below (U - {k}) t' \<Longrightarrow> shallow t'"
    "\<not> below (U - {k}) t' \<Longrightarrow> n = 0 \<Longrightarrow> \<not> get_dirty_bit t'"
proof -
  obtain h l r where t: "t = Node pl_default h l r" using root_wf_cases [OF assms(1)] by metis
  note ok = root_node_ok [OF assms(1), unfolded t]
  have d: "dirty_bit h" using assms(4) t by simp
  have m: "(k, v) \<in> set (ct_leaves l) \<union> set (ct_leaves r)" using assms(2) t by simp
  obtain b ys c where c: "pl_bits k = pl_bits pl_default @ b # ys" "c = (if b then r else l)"
    "(k, v) \<in> set (ct_leaves c)" "ct_wf c"
    using leaf_below_child [OF ok m] by metis
  have "pend U c" using assms(3) t c(2,3) by (cases b) auto
  then have rec: "pend (U - {k}) (ct_upd k (Suc 0) n c)"
    "below (U - {k}) (ct_upd k (Suc 0) n c) \<or> \<not> get_dirty_bit (ct_upd k (Suc 0) n c)"
    using ct_upd_pend [OF c(4,3) _ assms(5)] by auto
  note st = upd_step_pend [OF ok assms(3) [unfolded t] d c(1,2) ct_wf_ne [OF c(4)] rec assms(5),
      folded t, folded t'_def]
  then show "pend (U - {k}) t'" "\<not> below (U - {k}) t' \<Longrightarrow> shallow t'"
    "\<not> below (U - {k}) t' \<Longrightarrow> n = 0 \<Longrightarrow> \<not> get_dirty_bit t'" by auto
qed

section \<open>A fresh trie is determined by its leaves\<close>

lemma fresh_shape_eq:
  "ct_wf t \<Longrightarrow> ct_wf t' \<Longrightarrow> ct_fresh t \<Longrightarrow> ct_fresh t' \<Longrightarrow> ct_shape t = ct_shape t' \<Longrightarrow> t = t'"
proof (induction t arbitrary: t')
  case (Node p h l r)
  obtain p' h' l' r' where t': "t' = Node p' h' l' r'" using Node.prems(2) by (cases t') auto
  note w = Node.prems(1) Node.prems(2) [unfolded t'] and sh = Node.prems(5) [unfolded t']
  have sN: "ct_shape x = Nullptr \<longleftrightarrow> x = Nullptr" for x by (cases x) simp_all
  have lf: "ct_shape (Node q g c d) = Node q g Nullptr Nullptr \<and> d = Nullptr"
    if "ct_wf (Node q g c d)" "c = Nullptr" for q g c d
    using that by simp
  have nd: "ct_shape (Node q g c d) = Node q [] (ct_shape c) (ct_shape d) \<and> ct_shape c \<noteq> Nullptr"
    if "c \<noteq> Nullptr" for q g c d
    using that sN by simp
  show ?case
  proof (cases "l = Nullptr")
    case True
    have "l' = Nullptr"
    proof (rule ccontr)
      assume "l' \<noteq> Nullptr"
      then show False using nd [of l' p' h' r'] lf [OF w(1) True] sh True by simp
    qed
    then show ?thesis using lf [OF w(1) True] lf [OF w(2)] sh True t' by simp
  next
    case False
    have l': "l' \<noteq> Nullptr"
    proof
      assume "l' = Nullptr"
      then show False using nd [OF False, of p h r] lf [OF w(2)] sh False by simp
    qed
    have s: "ct_shape l = ct_shape l'" "ct_shape r = ct_shape r'" "p = p'"
      using nd [OF False, of p h r] nd [OF l', of p' h' r'] sh False l' by simp_all
    have c: "ct_wf l" "ct_wf r" "ct_wf l'" "ct_wf r'" using w False l' by simp_all
    have f: "h = digest l r" "h' = digest l' r'" "ct_fresh l" "ct_fresh r" "ct_fresh l'" "ct_fresh r'"
      using Node.prems(3,4) t' False l' by simp_all
    have "l = l'" "r = r'"
      using Node.IH(1) [OF c(1,3) f(3,5) s(1)] Node.IH(2) [OF c(2,4) f(4,6) s(2)] by simp_all
    then show ?thesis using f(1,2) s(3) t' by simp
  qed
qed simp

text \<open>A root is fresh when its hash is the hash of its children, and zero when it has none.\<close>

definition root_fresh :: "ctnode \<Rightarrow> bool" where
  "root_fresh t = (ct_fresh t \<and> (trie_leaves t = {} \<longrightarrow> node_hash t = zero_hash))"

lemma root_child_leaf:
  assumes "child_wf b c" "(k, v) \<in> set (ct_leaves c)"
  shows "\<exists>ys. pl_bits k = b # ys"
proof -
  have "ct_wf c" "is_prefix [b] (pl_bits (node_label c))" using assms by (auto simp: child_wf_def)
  then have "is_prefix [b] (pl_bits k)" using leaves_extend assms(2) is_prefix_trans by blast
  then show ?thesis by (auto simp: is_prefix_iff)
qed

lemma child_wf_leaves: "child_wf b c \<Longrightarrow> ct_leaves c = [] \<longleftrightarrow> c = Nullptr"
  using leaves_nonempty [of c] by (auto simp: child_wf_def)

lemma root_sides:
  assumes "root_wf t"
  shows "set (ct_leaves (if b then n_right t else n_left t)) =
    {z \<in> trie_leaves t. \<exists>ys. pl_bits (fst z) = b # ys}"
proof -
  obtain h l r where t: "t = Node pl_default h l r" "child_wf False l" "child_wf True r"
    using assms by (rule root_wf_cases)
  show ?thesis using root_child_leaf [OF t(2)] root_child_leaf [OF t(3)] t(1)
    by (cases b) (fastforce)+
qed

lemma child_determined:
  assumes "child_wf b c" "child_wf b' c'" "ct_fresh c" "ct_fresh c'"
    "set (ct_leaves c) = set (ct_leaves c')"
  shows "c = c'"
proof (cases "c = Nullptr")
  case True
  then have "ct_leaves c' = []" using assms(5) by simp
  then show ?thesis using child_wf_leaves [OF assms(2)] True by simp
next
  case False
  then have "c' \<noteq> Nullptr" using assms(5) child_wf_leaves [OF assms(1)] by auto
  then have w: "ct_wf c" "ct_wf c'" using False assms(1,2) by (auto simp: child_wf_def)
  show ?thesis
    by (rule fresh_shape_eq [OF w assms(3,4) leaves_determine_shape [OF w assms(5)]])
qed

lemma root_determined:
  assumes "root_wf t" "root_wf t'" "root_fresh t" "root_fresh t'" "trie_leaves t = trie_leaves t'"
  shows "t = t'"
proof -
  obtain h l r where t: "t = Node pl_default h l r" "is_hash h" "child_wf False l" "child_wf True r"
    using assms(1) by (rule root_wf_cases)
  obtain h' l' r' where t': "t' = Node pl_default h' l' r'" "is_hash h'" "child_wf False l'" "child_wf True r'"
    using assms(2) by (rule root_wf_cases)
  have side: "set (ct_leaves (if b then n_right t else n_left t)) =
      set (ct_leaves (if b then n_right t' else n_left t'))" for b
    by (simp only: root_sides [OF assms(1)] root_sides [OF assms(2)] assms(5))
  have s: "set (ct_leaves l) = set (ct_leaves l')" "set (ct_leaves r) = set (ct_leaves r')"
    using side [of False] side [of True] t t' by simp_all
  have "ct_fresh l" "ct_fresh r" "ct_fresh l'" "ct_fresh r'"
    using assms(3,4) t t' by (auto simp: root_fresh_def)
  then have lr: "l = l'" "r = r'"
    using child_determined [OF t(3) t'(3) _ _ s(1)] child_determined [OF t(4) t'(4) _ _ s(2)] by auto
  have "h = h'"
  proof (cases "l = Nullptr \<and> r = Nullptr")
    case True
    then have "clear_lsb h = zero_hash" "clear_lsb h' = zero_hash" "\<not> dirty_bit h" "\<not> dirty_bit h'"
      using assms(3,4) t t' lr by (auto simp: root_fresh_def)
    then show ?thesis using t(2) t'(2) by simp
  next
    case False
    then show ?thesis using assms(3,4) t t' lr by (auto simp: root_fresh_def)
  qed
  then show ?thesis using t t' lr by simp
qed

end
