(* ===== verification/Results.thy ===== *)
theory Results
  imports CT_Node
begin

text \<open>
  What a client checks: \<open>InsertResult\<close> (\<open>oZKS/insert_result.h\<close>, \<open>oZKS/insert_result.cpp\<close>) with its
  append proof and \<open>QueryResult\<close> (\<open>oZKS/query_result.h\<close>, \<open>oZKS/query_result.cpp\<close>) with its lookup
  path. The verification of VRF proofs is an argument of \<open>qr_verify\<close>. The lemmas describe the loop
  both classes share.
\<close>

section \<open>The loop up the tree\<close>

text \<open>One iteration: hash the pair in label order and go to the common prefix.\<close>

definition climb_step ::
  "partial_label \<Rightarrow> hash_type \<Rightarrow> partial_label \<times> hash_type \<Rightarrow> (partial_label \<times> hash_type) result" where
  "climb_step partial_label hash sibling =
     (let common = common_prefix (fst sibling) partial_label in
      case pl_bit partial_label (pl_bit_count common) of
        Inl e \<Rightarrow> Inl e
      | Inr b \<Rightarrow>
          Inr (common,
            if \<not> b then compute_node_hash partial_label hash (fst sibling) (snd sibling)
            else compute_node_hash (fst sibling) (snd sibling) partial_label hash))"

fun climb ::
  "partial_label \<Rightarrow> hash_type \<Rightarrow> lookup_path_type \<Rightarrow> (partial_label \<times> hash_type) result" where
  "climb partial_label hash [] = Inr (partial_label, hash)"
| "climb partial_label hash (sibling # rest) =
     (case climb_step partial_label hash sibling of
        Inl e \<Rightarrow> Inl e
      | Inr (common, temp_hash) \<Rightarrow> climb common temp_hash rest)"

text \<open>The last step, for a root with one child.\<close>

definition lone_child_hash :: "partial_label \<Rightarrow> hash_type \<Rightarrow> hash_type result" where
  "lone_child_hash partial_label hash =
     (case pl_bit partial_label 0 of
        Inl e \<Rightarrow> Inl e
      | Inr b \<Rightarrow>
          Inr (if \<not> b then compute_node_hash partial_label hash pl_default zero_hash
               else compute_node_hash pl_default zero_hash partial_label hash))"

section \<open>Insertion results\<close>

text \<open>Each \<open>unique_ptr\<close> is an option.\<close>

record insert_result =
  ir_commitment :: "hash_type option"
  ir_append_proof :: "lookup_path_type option"

definition ir_new :: insert_result where
  "ir_new = \<lparr>ir_commitment = None, ir_append_proof = None\<rparr>"

definition ir_init_result :: "hash_type \<Rightarrow> lookup_path_type \<Rightarrow> insert_result \<Rightarrow> insert_result" where
  "ir_init_result commitment append_proof ir =
     ir\<lparr>ir_commitment := Some commitment, ir_append_proof := Some append_proof\<rparr>"

definition ir_initialized :: "insert_result \<Rightarrow> bool" where
  "ir_initialized ir = (\<not> (ir_commitment ir = None \<or> ir_append_proof ir = None))"

definition ir_get_commitment :: "insert_result \<Rightarrow> hash_type result" where
  "ir_get_commitment ir =
     (case ir_commitment ir of
        None \<Rightarrow> Inl (RuntimeError ''Commitment not initialized yet'') | Some c \<Rightarrow> Inr c)"

definition ir_get_append_proof :: "insert_result \<Rightarrow> lookup_path_type result" where
  "ir_get_append_proof ir =
     (case ir_append_proof ir of
        None \<Rightarrow> Inl (RuntimeError ''Append proof not initialized yet'') | Some p \<Rightarrow> Inr p)"

definition ir_verify :: "insert_result \<Rightarrow> bool result" where
  "ir_verify ir =
     (case (ir_commitment ir, ir_append_proof ir) of
        (Some commitment, Some append_proof) \<Rightarrow>
          (case append_proof of
             [] \<Rightarrow> Inl (RuntimeError ''Append proof cannot be empty'')
           | (label0, hash0) # rest \<Rightarrow>
               (case climb label0 hash0 rest of
                  Inl e \<Rightarrow> Inl e
                | Inr (partial_label, hash) \<Rightarrow>
                    if hash = commitment then Inr True
                    else if pl_bit_count partial_label = 0
                    then Inl (RuntimeError ''partial_label should have 1 bit'')
                    else (case lone_child_hash partial_label hash of
                            Inl e \<Rightarrow> Inl e
                          | Inr temp_hash \<Rightarrow> Inr (temp_hash = commitment))))
      | _ \<Rightarrow> Inl (RuntimeError ''This result has not been initialized''))"

section \<open>Query results\<close>

record 'p query_result =
  qr_is_member :: bool
  qr_key :: "byte list"
  qr_payload :: "byte list"
  qr_lookup_proof :: lookup_path_type
  qr_vrf_proof :: 'p
  qr_randomness :: "byte list"
  qr_use_vrf :: bool

definition verify_lookup_path :: "lookup_path_type \<Rightarrow> hash_type \<Rightarrow> bool result" where
  "verify_lookup_path lookup_proof commitment =
     (case lookup_proof of
        [] \<Rightarrow> Inl (RuntimeError ''Append proof cannot be empty'')
      | (label0, hash0) # rest \<Rightarrow>
          (case climb label0 hash0 rest of
             Inl e \<Rightarrow> Inl e
           | Inr (partial_label, hash) \<Rightarrow>
               if hash = commitment then Inr True
               else if pl_bit_count partial_label = 0 then Inr False
               else (case lone_child_hash partial_label hash of
                       Inl e \<Rightarrow> Inl e
                     | Inr temp_hash \<Rightarrow> Inr (temp_hash = commitment))))"

text \<open>
  \<open>verify_vrf_proof public_key key_hash proof\<close> is the check of the public key class; \<open>&&\<close> calls it
  only when the path verified.
\<close>

definition qr_verify_vrf_proof ::
  "('k \<Rightarrow> hash_type \<Rightarrow> 'p \<Rightarrow> bool result) \<Rightarrow> 'p query_result \<Rightarrow> 'k \<Rightarrow> bool result" where
  "qr_verify_vrf_proof verify_vrf_proof q public_key =
     verify_vrf_proof public_key (compute_key_hash (qr_key q)) (qr_vrf_proof q)"

definition qr_verify ::
  "('k \<Rightarrow> hash_type \<Rightarrow> 'p \<Rightarrow> bool result) \<Rightarrow> 'p query_result \<Rightarrow> 'k \<Rightarrow> hash_type \<Rightarrow> bool result" where
  "qr_verify verify_vrf_proof q public_key root_commitment =
     (case verify_lookup_path (qr_lookup_proof q) root_commitment of
        Inl e \<Rightarrow> Inl e
      | Inr verified \<Rightarrow>
          if qr_use_vrf q \<and> verified then qr_verify_vrf_proof verify_vrf_proof q public_key
          else Inr verified)"

section \<open>Lemmas\<close>

lemma climb_append:
  "climb l h (p @ q) = (case climb l h p of Inl e \<Rightarrow> Inl e | Inr (l', h') \<Rightarrow> climb l' h' q)"
  by (induction p arbitrary: l h) (auto split: sum.splits)

text \<open>A step on two siblings of the tree gives the parent's label and hash, in either order.\<close>

lemma climb_step_siblings:
  assumes "pl_valid a" "pl_valid b" "pl_valid p"
    and "pl_bits a = pl_bits p @ False # xs" "pl_bits b = pl_bits p @ True # ys"
  shows "climb_step a ha (b, hb) = Inr (p, compute_node_hash a ha b hb)"
    "climb_step b hb (a, ha) = Inr (p, compute_node_hash a ha b hb)"
proof -
  have "pl_bits (common_prefix b a) = pl_bits p" "pl_bits (common_prefix a b) = pl_bits p"
    using assms by (simp_all add: common_prefix_lcp lcp_diff)
  then have c: "common_prefix b a = p" "common_prefix a b = p"
    using assms common_prefix_valid pl_bits_inj by auto
  have "pl_bit a (pl_bit_count p) = Inr False" "pl_bit b (pl_bit_count p) = Inr True"
    using pl.bit_after_common(2) [OF assms(1,3,4)] pl.bit_after_common(2) [OF assms(2,3,5)] by simp_all
  then show "climb_step a ha (b, hb) = Inr (p, compute_node_hash a ha b hb)"
    "climb_step b hb (a, ha) = Inr (p, compute_node_hash a ha b hb)"
    using c by (simp_all add: climb_step_def)
qed

text \<open>The two verifiers agree where both return.\<close>

lemma ir_verify_lookup_path:
  "ir_verify (ir_init_result c p ir) =
    (case verify_lookup_path p c of
       Inl e \<Rightarrow> Inl e
     | Inr b \<Rightarrow>
         (case climb (fst (hd p)) (snd (hd p)) (tl p) of
            Inl e \<Rightarrow> Inl e
          | Inr (l, h) \<Rightarrow>
              if h \<noteq> c \<and> pl_bit_count l = 0
              then Inl (RuntimeError ''partial_label should have 1 bit'') else Inr b))"
  by (auto simp: ir_verify_def ir_init_result_def verify_lookup_path_def split: list.splits sum.splits)

lemma ir_verify_uninitialized:
  "\<not> ir_initialized ir \<Longrightarrow> ir_verify ir = Inl (RuntimeError ''This result has not been initialized'')"
  by (auto simp: ir_verify_def ir_initialized_def split: option.splits)

lemma verify_path_ir_verify:
  assumes "verify_lookup_path p c = Inr True"
  shows "ir_verify (ir_init_result c p ir) = Inr True"
  using assms
  by (auto simp: ir_verify_def ir_init_result_def verify_lookup_path_def
      split: list.splits sum.splits if_splits prod.splits)

end
