(* ===== verification/CT_Lookup.thy ===== *)
theory CT_Lookup
  imports CT_Update Results
begin

text \<open>
  Lookups in a fresh trie: the iterative lookup throws nothing on labels of the right length, finds
  a label exactly when it was inserted, and the path it returns, of membership or of
  non-membership, verifies against the root hash.
\<close>

section \<open>Verifying paths\<close>

text \<open>\<open>climbs path l h\<close>: the verification loop goes through the path and ends with label \<open>l\<close>, hash \<open>h\<close>.\<close>

definition climbs :: "lookup_path_type \<Rightarrow> partial_label \<Rightarrow> hash_type \<Rightarrow> bool" where
  "climbs path l h = (path \<noteq> [] \<and> climb (fst (hd path)) (snd (hd path)) (tl path) = Inr (l, h))"

lemma climbs_one: "climbs [(l, h)] l h"
  by (simp add: climbs_def)

lemma climbs_snoc:
  assumes "climbs p l h" "climb_step l h s = Inr (l', h')"
  shows "climbs (p @ [s]) l' h'"
  using assms by (cases p) (auto simp: climbs_def climb_append split: prod.splits)

lemma climbs_two: "climb_step l h s = Inr (l', h') \<Longrightarrow> climbs [(l, h), s] l' h'"
  using climbs_snoc [OF climbs_one] by simp

lemma verify_climbs:
  assumes "climbs p l h"
  shows "verify_lookup_path p c =
    (if h = c then Inr True else if pl_bit_count l = 0 then Inr False
     else (case lone_child_hash l h of Inl e \<Rightarrow> Inl e | Inr g \<Rightarrow> Inr (g = c)))"
  using assms by (cases p) (auto simp: climbs_def verify_lookup_path_def)

lemma path_entry_simps [simp]: "path_entry Nullptr = []"
  "c \<noteq> Nullptr \<Longrightarrow> path_entry c = [(node_label c, node_hash c)]"
  by (simp_all add: path_entry_def)

text \<open>The two children of a fresh internal node climb to it.\<close>

lemma siblings_step:
  assumes "node_ok (Node lbl h l r)" "l \<noteq> Nullptr" "r \<noteq> Nullptr" "b \<longrightarrow> (c = r \<and> s = l)"
    "\<not> b \<longrightarrow> (c = l \<and> s = r)"
  shows "climb_step (node_label c) (node_hash c) (node_label s, node_hash s) = Inr (lbl, digest l r)"
proof -
  have w: "pl_valid lbl" "ct_wf l" "ct_wf r" "is_prefix (pl_bits lbl @ [False]) (pl_bits (node_label l))"
    "is_prefix (pl_bits lbl @ [True]) (pl_bits (node_label r))"
    using assms(1-3) by (auto simp: child_ok_def)
  obtain xs ys where "pl_bits (node_label l) = pl_bits lbl @ False # xs"
    "pl_bits (node_label r) = pl_bits lbl @ True # ys"
    using w(4,5) prefix_snoc by metis
  then show ?thesis
    using climb_step_siblings [OF ct_wf_valid [OF w(2)] ct_wf_valid [OF w(3)] w(1)] assms(4,5)
    by (cases b) (auto simp: digest_def)
qed

section \<open>The iterative lookup below the root\<close>

definition not_strict_prefix :: "partial_label \<Rightarrow> (partial_label \<times> hash_type) set \<Rightarrow> bool" where
  "not_strict_prefix k L = (\<forall>(k', _) \<in> L. is_prefix (pl_bits k) (pl_bits k') \<longrightarrow> k = k')"

lemma not_strict_prefixD:
  "not_strict_prefix k L \<Longrightarrow> (k', v) \<in> L \<Longrightarrow> is_prefix (pl_bits k) (pl_bits k') \<Longrightarrow> k = k'"
  by (auto simp: not_strict_prefix_def)

lemma not_strict_prefix_subset: "not_strict_prefix k L \<Longrightarrow> L' \<subseteq> L \<Longrightarrow> not_strict_prefix k L'"
  by (auto simp: not_strict_prefix_def)

lemma not_strict_prefix_node:
  assumes "ct_wf (Node lbl h l r)" "l \<noteq> Nullptr" "not_strict_prefix k (set (ct_leaves (Node lbl h l r)))"
  shows "\<not> is_prefix (pl_bits k) (pl_bits lbl)"
proof
  assume p: "is_prefix (pl_bits k) (pl_bits lbl)"
  obtain a b x y where ab: "(a, x) \<in> set (ct_leaves l)" "(b, y) \<in> set (ct_leaves r)" "a \<noteq> b"
    using internal_label [OF assms(1,2)] by metis
  then have m: "(a, x) \<in> set (ct_leaves (Node lbl h l r))" "(b, y) \<in> set (ct_leaves (Node lbl h l r))"
    using assms(2) by auto
  then have "is_prefix (pl_bits k) (pl_bits a)" "is_prefix (pl_bits k) (pl_bits b)"
    using leaves_extend [OF assms(1)] p is_prefix_trans by fastforce+
  then show False using not_strict_prefixD [OF assms(3) m(1)] not_strict_prefixD [OF assms(3) m(2)] ab(3) by simp
qed

lemma bit_after_lcp:
  assumes "pl_valid k" "pl_valid lbl" "\<not> is_prefix (pl_bits k) (pl_bits lbl)"
  shows "pl_bit k (common_prefix_count k lbl) = Inr (pl_bits k ! common_prefix_count k lbl)"
proof (rule pl.bit_at_ok [OF assms(1)])
  have "pl_bits k \<noteq> lcp (pl_bits k) (pl_bits lbl)" using assms(3) lcp_is_prefix(2) by metis
  then have "length (lcp (pl_bits k) (pl_bits lbl)) < length (pl_bits k)"
    by (metis lcp_take length_lcp le_neq_implies_less take_all order_refl)
  then show "common_prefix_count k lbl < length (pl_bits k)"
    by (simp add: common_prefix_count_def pl.count_bits [symmetric] common_prefix_lcp assms(1,2)
        del: length_pl_bits) (metis common_prefix_lcp assms(1,2) length_pl_bits)
qed

text \<open>
  What the loop returns from a node on, given the siblings \<open>acc\<close> met so far: the reversed result is
  a path that climbs to the node, or, together with the last sibling met, to the parent, followed
  by the other siblings.
\<close>

definition lookup_goal ::
  "partial_label \<Rightarrow> ctnode \<Rightarrow> lookup_path_type \<Rightarrow> (bool \<times> lookup_path_type) result \<Rightarrow> bool" where
  "lookup_goal k t acc out = (\<exists>f res. out = Inr (f, res) \<and> f = (\<exists>v. (k, v) \<in> set (ct_leaves t)) \<and>
     (f \<longrightarrow> (\<exists>v. (k, v) \<in> set (ct_leaves t) \<and> res \<noteq> [] \<and> last res = (k, v))) \<and>
     (acc = [] \<longrightarrow> climbs (rev res) (node_label t) (node_hash t)) \<and>
     (\<forall>acc0 s p h. acc = acc0 @ [s] \<longrightarrow>
        climb_step (node_label t) (node_hash t) s = Inr (p, h) \<longrightarrow>
        climb_step (fst s) (snd s) (node_label t, node_hash t) = Inr (p, h) \<longrightarrow>
        (\<exists>P. rev res = P @ rev acc0 \<and> climbs P p h)))"

lemma lookup_goal_leaf:
  assumes "ct_wf (Node lbl h Nullptr Nullptr)"
  shows "lookup_goal k (Node lbl h Nullptr Nullptr) acc
    (ct_lookup_loop k True sl acc (Node lbl h Nullptr Nullptr))"
proof -
  have h: "\<not> dirty_bit h" "clear_lsb h = h" using assms by auto
  consider "acc = []" | acc0 s where "acc = acc0 @ [s]" by (cases acc rule: rev_cases) auto
  then show ?thesis
  proof cases
    case 1
    then show ?thesis using h by (auto simp: lookup_goal_def Let_def climbs_one)
  next
    case 2
    obtain s1 s2 where s: "s = (s1, s2)" by (cases s)
    show ?thesis
    proof (cases "lbl = k \<or> sl")
      case True
      then have "ct_lookup_loop k True sl acc (Node lbl h Nullptr Nullptr) = Inr (lbl = k, acc @ [(lbl, h)])"
        using h by (auto simp: Let_def)
      then show ?thesis using h climbs_two [of lbl h s]
        by (auto simp: lookup_goal_def 2 intro!: exI [of _ "[(lbl, h), s]"])
    next
      case False
      then have "ct_lookup_loop k True sl acc (Node lbl h Nullptr Nullptr) =
          Inr (False, acc0 @ [(lbl, h), s])"
        using h by (simp add: Let_def 2)
      then show ?thesis using h False climbs_two [of s1 s2 "(lbl, h)"]
        by (auto simp: lookup_goal_def 2 s intro!: exI [of _ "[s, (lbl, h)]"])
    qed
  qed
qed

lemma lookup_goal_node:
  assumes wf: "ct_wf (Node lbl h l r)" "l \<noteq> Nullptr" "ct_fresh (Node lbl h l r)"
    and c: "c = (if b then r else l)" "s = (if b then l else r)"
    and g: "lookup_goal k c (acc @ path_entry s) out"
    and lv: "set (ct_leaves c) \<subseteq> set (ct_leaves (Node lbl h l r))"
    and f: "(\<exists>v. (k, v) \<in> set (ct_leaves c)) = (\<exists>v. (k, v) \<in> set (ct_leaves (Node lbl h l r)))"
  shows "lookup_goal k (Node lbl h l r) acc out"
proof -
  have rN: "r \<noteq> Nullptr" using wf(1,2) by auto
  have sN: "s \<noteq> Nullptr" using c wf(2) rN by auto
  have ok: "node_ok (Node lbl h l r)" using wf_node_ok [OF wf(1)] .
  have hd: "clear_lsb h = digest l r" using wf by auto
  let ?s = "(node_label s, node_hash s)"
  have steps: "climb_step (node_label c) (node_hash c) ?s = Inr (lbl, digest l r)"
    "climb_step (fst ?s) (snd ?s) (node_label c, node_hash c) = Inr (lbl, digest l r)"
    using siblings_step [OF ok wf(2) rN, of b c s] siblings_step [OF ok wf(2) rN, of "\<not> b" s c] c
    by simp_all
  obtain fd res P where out: "out = Inr (fd, res)" "fd = (\<exists>v. (k, v) \<in> set (ct_leaves c))"
    "rev res = P @ rev acc" "climbs P lbl (digest l r)"
    "fd \<longrightarrow> (\<exists>v. (k, v) \<in> set (ct_leaves c) \<and> res \<noteq> [] \<and> last res = (k, v))"
    using g sN steps unfolding lookup_goal_def by auto
  show ?thesis unfolding lookup_goal_def
  proof (rule exI [of _ fd], rule exI [of _ res], intro conjI allI impI)
    show "out = Inr (fd, res)" by (rule out(1))
    show "fd = (\<exists>v. (k, v) \<in> set (ct_leaves (Node lbl h l r)))" using out(2) f by simp
    show "fd \<Longrightarrow> \<exists>v. (k, v) \<in> set (ct_leaves (Node lbl h l r)) \<and> res \<noteq> [] \<and> last res = (k, v)"
      using out(5) lv by blast
    show "climbs (rev res) (node_label (Node lbl h l r)) (node_hash (Node lbl h l r))" if "acc = []"
      using that out(3,4) hd by simp
    fix acc0 s1 p g1
    assume a: "acc = acc0 @ [s1]" "climb_step (node_label (Node lbl h l r)) (node_hash (Node lbl h l r)) s1 = Inr (p, g1)"
    have "climbs (P @ [s1]) p g1" using climbs_snoc [OF out(4)] a(2) hd by simp
    moreover have "rev res = (P @ [s1]) @ rev acc0" using out(3) a(1) by simp
    ultimately show "\<exists>P. rev res = P @ rev acc0 \<and> climbs P p g1" by blast
  qed
qed

lemma lookup_loop_goal:
  "ct_wf t \<Longrightarrow> ct_fresh t \<Longrightarrow> pl_valid k \<Longrightarrow> not_strict_prefix k (set (ct_leaves t)) \<Longrightarrow>
    lookup_goal k t acc (ct_lookup_loop k True sl acc t)"
proof (induction t arbitrary: acc sl)
  case (Node lbl h l r)
  let ?t = "Node lbl h l r"
  show ?case
  proof (cases "l = Nullptr")
    case True
    then have "r = Nullptr" using wf_children [OF Node.prems(1)] by simp
    then show ?thesis using lookup_goal_leaf Node.prems(1) True by blast
  next
    case False
    have rN: "r \<noteq> Nullptr" using wf_children [OF Node.prems(1)] False by simp
    have w: "ct_wf l" "ct_wf r" "pl_valid lbl" "ct_fresh l" "ct_fresh r" "\<not> dirty_bit h"
      using Node.prems(1,2) False by auto
    have np: "\<not> is_prefix (pl_bits k) (pl_bits lbl)"
      by (rule not_strict_prefix_node [OF Node.prems(1) False Node.prems(4)])
    note bit = bit_after_lcp [OF Node.prems(3) w(3) np]
    define b where "b = pl_bits k ! common_prefix_count k lbl"
    define c where "c = (if b then r else l)"
    define s where "s = (if b then l else r)"
    have cw: "ct_wf c" "ct_fresh c" using w by (simp_all add: c_def)
    have sc: "\<not> get_dirty_bit s" using w pend_fresh by (simp add: s_def)
    have ne: "lbl \<noteq> k" using np by auto
    have lv: "set (ct_leaves c) \<subseteq> set (ct_leaves ?t)" using False by (auto simp: c_def)
    have eq: "ct_lookup_loop k True sl acc ?t = ct_lookup_loop k True b (acc @ path_entry s) c"
      using w(6) ne False bit sc by (simp add: Let_def b_def [symmetric] c_def s_def)
    have "lookup_goal k c (acc @ path_entry s) (ct_lookup_loop k True b (acc @ path_entry s) c)"
      using Node.IH cw Node.prems(3) not_strict_prefix_subset [OF Node.prems(4) lv]
      by (cases b) (simp_all add: c_def)
    moreover have "(\<exists>v. (k, v) \<in> set (ct_leaves c)) = (\<exists>v. (k, v) \<in> set (ct_leaves ?t))"
    proof
      assume "\<exists>v. (k, v) \<in> set (ct_leaves ?t)"
      then obtain v where "(k, v) \<in> set (ct_leaves l) \<union> set (ct_leaves r)" using False by auto
      then obtain b' ys c' where c': "pl_bits k = pl_bits lbl @ b' # ys" "c' = (if b' then r else l)"
        "(k, v) \<in> set (ct_leaves c')"
        using leaf_below_child [OF wf_node_ok [OF Node.prems(1)]] by metis
      have "common_prefix k lbl = lbl" using pl.bit_after_common [OF Node.prems(3) w(3) c'(1)] by simp
      then have "b = b'" unfolding b_def common_prefix_count_def c'(1)
        by (metis length_pl_bits nth_append_length)
      then show "\<exists>v. (k, v) \<in> set (ct_leaves c)" using c' by (auto simp: c_def)
    qed (use lv in blast)
    ultimately show ?thesis unfolding eq
      by (intro lookup_goal_node [OF Node.prems(1) False Node.prems(2) c_def s_def _ lv])
  qed
qed simp

section \<open>The lookup from the root\<close>

lemma lone_child:
  assumes "ct_wf c" "is_prefix [b] (pl_bits (node_label c))"
  shows "lone_child_hash (node_label c) (node_hash c) =
    Inr (if b then digest Nullptr c else digest c Nullptr)"
    "pl_bit_count (node_label c) \<noteq> 0"
proof -
  obtain ys where ys: "pl_bits (node_label c) = b # ys" using assms(2) by (auto simp: is_prefix_iff)
  then have "pl_bit (node_label c) 0 = Inr b"
    using pl.bit_at_ok [OF ct_wf_valid [OF assms(1)], of 0] by simp
  then show "lone_child_hash (node_label c) (node_hash c) =
    Inr (if b then digest Nullptr c else digest c Nullptr)"
    by (simp add: lone_child_hash_def digest_def)
  show "pl_bit_count (node_label c) \<noteq> 0" using ys by (metis length_pl_bits list.size(3) list.distinct(1) length_0_conv)
qed

lemma root_lookup:
  assumes "root_wf t" "root_fresh t" "pl_valid k" "pl_bits k \<noteq> []" "not_strict_prefix k (trie_leaves t)"
  shows "\<exists>f path. ct_lookup k True t = Inr (f, path) \<and> f = (\<exists>v. (k, v) \<in> trie_leaves t) \<and>
    (f \<longrightarrow> (\<exists>v. (k, v) \<in> trie_leaves t \<and> path \<noteq> [] \<and> hd path = (k, v))) \<and>
    verify_lookup_path path (node_hash t) = Inr True"
proof -
  obtain h l r where t: "t = Node pl_default h l r" "is_hash h" "child_wf False l" "child_wf True r"
    using assms(1) by (rule root_wf_cases)
  obtain b bs where k: "pl_bits k = b # bs" using assms(4) by (cases "pl_bits k") auto
  note bit = bit_at_root [OF assms(3) k]
  have fr: "ct_fresh t" "\<not> dirty_bit h" using assms(2) t by (auto simp: root_fresh_def)
  have ne: "pl_default \<noteq> k" using assms(4) by auto
  show ?thesis
  proof (cases "l = Nullptr \<and> r = Nullptr")
    case True
    then have "ct_lookup k True t = Inr (False, [(pl_default, node_hash t)])"
      using fr ne t(1) by (simp add: ct_lookup_def Let_def)
    moreover have "verify_lookup_path [(pl_default, node_hash t)] (node_hash t) = Inr True"
      using verify_climbs [OF climbs_one] by simp
    moreover have "\<not> (\<exists>v. (k, v) \<in> trie_leaves t)" using t(1) True by simp
    ultimately show ?thesis by blast
  next
    case False
    define c where "c = (if b then r else l)"
    define s where "s = (if b then l else r)"
    have w: "child_wf b c" "child_wf (\<not> b) s" using t by (auto simp: c_def s_def)
    have f2: "ct_fresh c" "ct_fresh s" and hd: "node_hash t = digest l r"
      using fr t False by (auto simp: c_def s_def)
    have sc: "\<not> get_dirty_bit s" using f2 pend_fresh by blast
    have cs: "c \<noteq> Nullptr \<or> s \<noteq> Nullptr" using False by (auto simp: c_def s_def)
    have lv: "trie_leaves t = set (ct_leaves c) \<union> set (ct_leaves s)" using t(1) by (auto simp: c_def s_def)
    have ks: "(k, v) \<notin> set (ct_leaves s)" for v using root_child_leaf [OF w(2)] k by fastforce
    have loop: "ct_lookup_loop k True False [] t = ct_lookup_loop k True b (path_entry s) c"
      using fr t(1) ne False bit sc by (simp add: Let_def c_def s_def common_prefix_count_def)
    show ?thesis
    proof (cases "c = Nullptr")
      case True
      then have sN: "s \<noteq> Nullptr" using cs by simp
      have wf: "ct_wf s" "is_prefix [\<not> b] (pl_bits (node_label s))" using w(2) sN by (auto simp: child_wf_def)
      have "verify_lookup_path [(node_label s, node_hash s)] (node_hash t) = Inr True"
        using verify_climbs [OF climbs_one] lone_child [OF wf] hd True by (auto simp: c_def s_def)
      moreover have "ct_lookup k True t = Inr (False, [(node_label s, node_hash s)])"
        using True sN by (simp add: ct_lookup_def loop)
      moreover have "\<not> (\<exists>v. (k, v) \<in> trie_leaves t)" using lv ks True by auto
      ultimately show ?thesis by blast
    next
      case cN: False
      have wf: "ct_wf c" "is_prefix [b] (pl_bits (node_label c))" using w(1) cN by (auto simp: child_wf_def)
      have nsp: "not_strict_prefix k (set (ct_leaves c))"
        using not_strict_prefix_subset [OF assms(5)] lv by blast
      obtain f res where out: "ct_lookup_loop k True b (path_entry s) c = Inr (f, res)"
        "f = (\<exists>v. (k, v) \<in> set (ct_leaves c))"
        "f \<longrightarrow> (\<exists>v. (k, v) \<in> set (ct_leaves c) \<and> res \<noteq> [] \<and> last res = (k, v))"
        and g: "lookup_goal k c (path_entry s) (Inr (f, res))"
        using lookup_loop_goal [OF wf(1) f2(1) assms(3) nsp, of "path_entry s" b]
        unfolding lookup_goal_def by auto
      have "verify_lookup_path (rev res) (node_hash t) = Inr True"
      proof (cases "s = Nullptr")
        case True
        then have "climbs (rev res) (node_label c) (node_hash c)" using g by (simp add: lookup_goal_def)
        then show ?thesis using verify_climbs lone_child [OF wf] hd True by (auto simp: c_def s_def)
      next
        case sN: False
        have lr: "l \<noteq> Nullptr" "r \<noteq> Nullptr" using cN sN by (auto simp: c_def s_def split: if_splits)
        have ok: "node_ok (Node pl_default h l r)" using root_node_ok assms(1) t(1) by blast
        have "climbs (rev res) pl_default (digest l r)"
          using g sN siblings_step [OF ok lr, of b c s] siblings_step [OF ok lr, of "\<not> b" s c]
          by (auto simp: lookup_goal_def c_def s_def split: if_splits)
        then show ?thesis using verify_climbs hd by simp
      qed
      moreover have "ct_lookup k True t = Inr (f, rev res)" by (simp add: ct_lookup_def loop out(1))
      moreover have "f = (\<exists>v. (k, v) \<in> trie_leaves t)" using out(2) lv ks by auto
      moreover have "f \<longrightarrow> (\<exists>v. (k, v) \<in> trie_leaves t \<and> rev res \<noteq> [] \<and> hd (rev res) = (k, v))"
        using out(3) lv by (auto simp: hd_rev)
      ultimately show ?thesis by blast
    qed
  qed
qed

end
