(* ===== verification/Compressed_Trie.thy ===== *)
theory Compressed_Trie
  imports CT_Lookup
begin

text \<open>
  The compressed trie of linked nodes (\<open>oZKS/compressed_trie.h\<close>, \<open>oZKS/compressed_trie.cpp\<close>):
  construction, insertion of one label, lookup and commitment. Writes to the storage are events in
  program order; a null storage receives none. An exception leaves the trie as the code leaves it
  (the epoch has been incremented). Batch insertion is in \<open>Trie_Batch\<close>.
\<close>

section \<open>State and operations\<close>

record trie =
  tr_root :: ctnode
  tr_epoch :: u64
  tr_id :: u64
  tr_storage :: bool
  tr_thread_count :: nat
  tr_type :: TrieType

text \<open>\<open>storage_->save_ctnode\<close> and \<open>storage_->save_compressed_trie\<close> (id, epoch, thread count, type).\<close>

datatype storage_event =
    SaveNode u64 stored_node
  | SaveTrie u64 u64 nat TrieType

definition node_events :: "trie \<Rightarrow> stored_node list \<Rightarrow> storage_event list" where
  "node_events T saved = (if tr_storage T then map (SaveNode (tr_id T)) saved else [])"

definition trie_save_to_storage :: "trie \<Rightarrow> storage_event list" where
  "trie_save_to_storage T =
     (if tr_storage T then [SaveTrie (tr_id T) (tr_epoch T) (tr_thread_count T) (tr_type T)] else [])"

text \<open>The constructor with an id, for the two linked trie types.\<close>

definition trie_new :: "u64 \<Rightarrow> bool \<Rightarrow> TrieType \<Rightarrow> nat \<Rightarrow> trie \<times> storage_event list" where
  "trie_new i storage ty thread_count =
     (let T = \<lparr>tr_root = new_root, tr_epoch = 0, tr_id = i, tr_storage = storage,
               tr_thread_count = thread_count, tr_type = ty\<rparr>
      in (T, node_events T [save_node new_root]))"

definition trie_lookup :: "partial_label \<Rightarrow> trie \<Rightarrow> (bool \<times> lookup_path_type) result" where
  "trie_lookup label T = ct_lookup label True (tr_root T)"

definition get_commitment :: "trie \<Rightarrow> hash_type" where
  "get_commitment T = node_hash (tr_root T)"

definition trie_insert ::
  "partial_label \<Rightarrow> hash_type \<Rightarrow> trie \<Rightarrow> lookup_path_type result \<times> trie \<times> storage_event list" where
  "trie_insert label payload_commit T =
     (let T1 = T\<lparr>tr_epoch := tr_epoch T + 1\<rparr> in
      case ct_insert label payload_commit (tr_epoch T1) (tr_root T1) of
        Inl e \<Rightarrow> (Inl e, T1, [])
      | Inr (root1, saved1) \<Rightarrow>
          (case update_hashes label 0 root1 of
             (Inl e, root2, saved2) \<Rightarrow>
               (Inl e, T1\<lparr>tr_root := root2\<rparr>, node_events T (saved1 @ saved2))
           | (Inr _, root2, saved2) \<Rightarrow>
               let T2 = T1\<lparr>tr_root := root2\<rparr>; events = node_events T (saved1 @ saved2) in
               (case ct_lookup label True root2 of
                  Inl e \<Rightarrow> (Inl e, T2, events)
                | Inr (found, append_proof) \<Rightarrow>
                    if \<not> found
                    then (Inl (RuntimeError
                      ''Should have been able to find the item we just inserted''), T2, events)
                    else (Inr append_proof, T2, events @ trie_save_to_storage T2))))"

section \<open>Invariant\<close>

text \<open>\<open>trie_ok T L\<close>: the trie is well-formed, its hashes are up to date and its leaves are \<open>L\<close>.\<close>

definition trie_ok :: "trie \<Rightarrow> (partial_label \<times> hash_type) set \<Rightarrow> bool" where
  "trie_ok T L = (root_wf (tr_root T) \<and> root_fresh (tr_root T) \<and> trie_leaves (tr_root T) = L)"

text \<open>The leaf an insertion adds.\<close>

definition leaf_entry :: "partial_label \<Rightarrow> hash_type \<Rightarrow> u64 \<Rightarrow> partial_label \<times> hash_type" where
  "leaf_entry label commit epoch = (label, compute_leaf_hash label commit epoch)"

lemma new_root_ok: "root_wf new_root" "root_fresh new_root" "trie_leaves new_root = {}"
proof -
  have z: "\<not> dirty_bit zero_hash"
    by (simp add: dirty_bit_iff zero_hash_def)
  show "root_wf new_root" "root_fresh new_root" "trie_leaves new_root = {}"
    using z by (simp_all add: new_root_def root_wf_def child_wf_def root_fresh_def)
qed

lemma trie_new_ok: "trie_ok (fst (trie_new i st ty n)) {}"
  by (simp add: trie_new_def trie_ok_def Let_def new_root_ok)

lemma commitment_determined:
  "trie_ok T L \<Longrightarrow> trie_ok T' L \<Longrightarrow> get_commitment T = get_commitment T'"
  using root_determined by (metis get_commitment_def trie_ok_def)

lemma fits_not_strict_prefix:
  assumes "fits k L"
  shows "not_strict_prefix k (insert (k, h) L)"
  using assms by (auto simp: not_strict_prefix_def fits_def incomparable_def)

section \<open>Insertion of one label\<close>

text \<open>The root after the insertion and the hash update of its label.\<close>

lemma insert_update_root:
  assumes "root_wf t" "ct_fresh t" "pl_valid k" "pl_bits k \<noteq> []" "fits k (trie_leaves t)"
  obtains t1 s1 s2 where "ct_insert k h e t = Inr (t1, s1)"
    "update_hashes k 0 t1 = (Inr (), ct_upd k 0 0 t1, s2)"
    "root_wf (ct_upd k 0 0 t1)" "root_fresh (ct_upd k 0 0 t1)"
    "trie_leaves (ct_upd k 0 0 t1) = insert (leaf_entry k h e) (trie_leaves t)"
    "saves_ok t t1 s1" "saves_ok t1 (ct_upd k 0 0 t1) s2" "root_wf t1"
proof -
  obtain t1 s1 where i: "ct_insert k h e t = Inr (t1, s1)"
    "root_inserted k (compute_leaf_hash k h e) t t1 s1"
    using ct_insert_root [OF assms(1,3,4,5)] by blast
  then have wf1: "root_wf t1" and d1: "get_dirty_bit t1" and s1: "saves_ok t t1 s1"
    and l1: "trie_leaves t1 = insert (leaf_entry k h e) (trie_leaves t)"
    and p1: "pend {k} t1"
    using pend_fresh [OF assms(2), of "{}"] by (auto simp: root_inserted_def leaf_entry_def)
  have m: "(k, compute_leaf_hash k h e) \<in> trie_leaves t1" using l1 by (simp add: leaf_entry_def)
  obtain s2 where u: "update_hashes k 0 t1 = (Inr (), ct_upd k 0 0 t1, s2)"
    "saves_ok t1 (ct_upd k 0 0 t1) s2"
    using update_hashes_upd [OF wf1 m] by blast
  note wf2 = ct_upd_root_wf [OF wf1 assms(4), of 0 0]
  have "pend {} (ct_upd k 0 0 t1)" "\<not> get_dirty_bit (ct_upd k 0 0 t1)"
    using root_upd_pend [OF wf1 m p1 d1, of 0] by (simp_all add: below_def)
  then have "root_fresh (ct_upd k 0 0 t1)"
    using clean_fresh wf2 l1 by (auto simp: root_fresh_def)
  then show ?thesis using that i u wf2 l1 s1 wf1 by auto
qed

lemma trie_insert_run:
  assumes "root_wf t" "ct_fresh t" "pl_valid k" "pl_bits k \<noteq> []" "fits k (trie_leaves t)"
  obtains t2 path s1 s2 t1 where "ct_insert k h e t = Inr (t1, s1)"
    "update_hashes k 0 t1 = (Inr (), t2, s2)" "ct_lookup k True t2 = Inr (True, path)"
    "root_wf t2" "root_fresh t2" "trie_leaves t2 = insert (leaf_entry k h e) (trie_leaves t)"
    "path \<noteq> []" "hd path = leaf_entry k h e" "verify_lookup_path path (node_hash t2) = Inr True"
    "saves_ok t t1 s1" "saves_ok t1 t2 s2" "root_wf t1"
proof -
  let ?le = "leaf_entry k h e"
  obtain t1 s1 s2 where i: "ct_insert k h e t = Inr (t1, s1)"
    "update_hashes k 0 t1 = (Inr (), ct_upd k 0 0 t1, s2)"
    "root_wf (ct_upd k 0 0 t1)" "root_fresh (ct_upd k 0 0 t1)"
    "trie_leaves (ct_upd k 0 0 t1) = insert ?le (trie_leaves t)"
    "saves_ok t t1 s1" "saves_ok t1 (ct_upd k 0 0 t1) s2" "root_wf t1"
    by (rule insert_update_root [OF assms])
  have nsp: "not_strict_prefix k (trie_leaves (ct_upd k 0 0 t1))"
    unfolding i(5) leaf_entry_def by (rule fits_not_strict_prefix [OF assms(5)])
  obtain f path where l: "ct_lookup k True (ct_upd k 0 0 t1) = Inr (f, path)"
    "f = (\<exists>v. (k, v) \<in> trie_leaves (ct_upd k 0 0 t1))"
    "f \<longrightarrow> (\<exists>v. (k, v) \<in> trie_leaves (ct_upd k 0 0 t1) \<and> path \<noteq> [] \<and> hd path = (k, v))"
    "verify_lookup_path path (node_hash (ct_upd k 0 0 t1)) = Inr True"
    using root_lookup [OF i(3,4) assms(3,4) nsp] by blast
  have f: f unfolding l(2) i(5) leaf_entry_def by blast
  then obtain v where v: "(k, v) \<in> insert ?le (trie_leaves t)" "path \<noteq> []" "hd path = (k, v)"
    using l(3) unfolding i(5) by blast
  have "(k, v) \<notin> trie_leaves t" using assms(5) by (auto simp: fits_def incomparable_def)
  then have "hd path = ?le" using v by simp
  then show ?thesis using that [OF i(1,2) _ i(3,4,5) v(2) _ l(4) i(6-8)] l(1) f by simp
qed

lemma trie_insert_ok:
  assumes "trie_ok T L" "pl_valid k" "pl_bits k \<noteq> []" "fits k L"
  obtains pf T' events where "trie_insert k h T = (Inr pf, T', events)"
    "trie_ok T' (insert (leaf_entry k h (tr_epoch T + 1)) L)" "tr_epoch T' = tr_epoch T + 1"
    "tr_id T' = tr_id T" "trie_lookup k T' = Inr (True, pf)"
    "pf \<noteq> []" "hd pf = leaf_entry k h (tr_epoch T + 1)"
    "verify_lookup_path pf (get_commitment T') = Inr True"
proof -
  let ?e = "tr_epoch T + 1"
  have t: "root_wf (tr_root T)" "ct_fresh (tr_root T)" "fits k (trie_leaves (tr_root T))"
    and L: "trie_leaves (tr_root T) = L"
    using assms(1,4) by (auto simp: trie_ok_def root_fresh_def)
  obtain t2 path s1 s2 t1 where r: "ct_insert k h ?e (tr_root T) = Inr (t1, s1)"
    "update_hashes k 0 t1 = (Inr (), t2, s2)" "ct_lookup k True t2 = Inr (True, path)"
    "root_wf t2" "root_fresh t2" "trie_leaves t2 = insert (leaf_entry k h ?e) (trie_leaves (tr_root T))"
    "path \<noteq> []" "hd path = leaf_entry k h ?e" "verify_lookup_path path (node_hash t2) = Inr True"
    by (rule trie_insert_run [OF t(1,2) assms(2,3) t(3)])
  define T' where "T' = T\<lparr>tr_epoch := ?e, tr_root := t2\<rparr>"
  have "trie_insert k h T = (Inr path, T', node_events T (s1 @ s2) @ trie_save_to_storage T')"
    by (simp add: trie_insert_def Let_def T'_def r(1,2,3))
  then show ?thesis
    by (rule that) (use r L in \<open>simp_all add: trie_ok_def T'_def trie_lookup_def get_commitment_def\<close>)
qed

lemma trie_insert_clash:
  assumes "trie_ok T L" "pl_valid k" "(k', v) \<in> L" "is_prefix (pl_bits k) (pl_bits k')"
  obtains e where "trie_insert k h T = (Inl e, T\<lparr>tr_epoch := tr_epoch T + 1\<rparr>, [])"
proof -
  obtain e where "ct_insert k h (tr_epoch T + 1) (tr_root T) = Inl e"
    using ct_insert_root_clash [of "tr_root T" k k' v] assms by (auto simp: trie_ok_def)
  then show ?thesis using that by (simp add: trie_insert_def Let_def)
qed

lemma trie_lookup_ok:
  assumes "trie_ok T L" "pl_valid k" "pl_bits k \<noteq> []" "not_strict_prefix k L"
  obtains path where "trie_lookup k T = Inr (\<exists>v. (k, v) \<in> L, path)"
    "verify_lookup_path path (get_commitment T) = Inr True"
    "(\<exists>v. (k, v) \<in> L) \<Longrightarrow> \<exists>v. (k, v) \<in> L \<and> path \<noteq> [] \<and> hd path = (k, v)"
  using root_lookup [of "tr_root T" k] assms
  unfolding trie_ok_def trie_lookup_def get_commitment_def by metis

section \<open>Sequences of insertions\<close>

text \<open>Insertions one after the other; the first exception stops the sequence.\<close>

fun trie_insert_seq ::
  "(partial_label \<times> hash_type) list \<Rightarrow> trie \<Rightarrow> unit result \<times> trie" where
  "trie_insert_seq [] T = (Inr (), T)"
| "trie_insert_seq ((k, h) # rest) T =
     (case trie_insert k h T of
        (Inl e, T', _) \<Rightarrow> (Inl e, T')
      | (Inr _, T', _) \<Rightarrow> trie_insert_seq rest T')"

text \<open>The leaves a sequence adds: the epoch counts the insertions.\<close>

fun seq_leaves :: "(partial_label \<times> hash_type) list \<Rightarrow> u64 \<Rightarrow> (partial_label \<times> hash_type) set" where
  "seq_leaves [] e = {}"
| "seq_leaves ((k, h) # rest) e = insert (leaf_entry k h (e + 1)) (seq_leaves rest (e + 1))"

definition labels_ok :: "partial_label list \<Rightarrow> (partial_label \<times> hash_type) set \<Rightarrow> bool" where
  "labels_ok ks L = (distinct ks \<and>
     (\<forall>k \<in> set ks. pl_valid k \<and> pl_bits k \<noteq> [] \<and> fits k L \<and> (\<forall>k' \<in> set ks. k \<noteq> k' \<longrightarrow> incomparable k k')))"

lemma labels_ok_Cons:
  assumes "labels_ok (k # ks) L"
  shows "pl_valid k" "pl_bits k \<noteq> []" "fits k L" "labels_ok ks (insert (k, h) L)"
  using assms by (auto simp: labels_ok_def fits_def incomparable_def)

lemma trie_insert_seq_ok:
  "trie_ok T L \<Longrightarrow> labels_ok (map fst kvs) L \<Longrightarrow>
    \<exists>T'. trie_insert_seq kvs T = (Inr (), T') \<and> trie_ok T' (L \<union> seq_leaves kvs (tr_epoch T))"
proof (induction kvs arbitrary: T L)
  case (Cons kv kvs)
  obtain k h where kv: "kv = (k, h)" by (cases kv)
  let ?le = "leaf_entry k h (tr_epoch T + 1)"
  have lok: "labels_ok (k # map fst kvs) L" using Cons.prems(2) kv by simp
  obtain pf T1 ev where i: "trie_insert k h T = (Inr pf, T1, ev)" "trie_ok T1 (insert ?le L)"
    "tr_epoch T1 = tr_epoch T + 1"
    by (rule trie_insert_ok [OF Cons.prems(1) labels_ok_Cons(1-3) [OF lok]])
  have "labels_ok (map fst kvs) (insert ?le L)"
    unfolding leaf_entry_def by (rule labels_ok_Cons(4) [OF lok])
  then obtain T' where r: "trie_insert_seq kvs T1 = (Inr (), T')"
    "trie_ok T' (insert ?le L \<union> seq_leaves kvs (tr_epoch T1))"
    using Cons.IH [OF i(2)] by blast
  have s: "L \<union> seq_leaves (kv # kvs) (tr_epoch T) = insert ?le L \<union> seq_leaves kvs (tr_epoch T1)"
    by (simp add: kv i(3))
  have "trie_insert_seq (kv # kvs) T = (Inr (), T')" by (simp add: kv i(1) r(1))
  with r(2) show ?case unfolding s by blast
qed simp

end
