(* ===== verification/Storage.thy ===== *)
theory Storage
  imports CT_Node "HOL-Library.AList"
begin

text \<open>
  Storages (\<open>oZKS/storage\<close>): the interface \<open>Storage\<close>, its implementation in memory, the cache in front of
  another storage and the batch inserter that delays writes. A virtual call is a function of a record
  of operations, so that the cache and the inserter are defined over any backing storage. The locale
  \<open>storage\<close> states the contract: an implementation behaves as the maps of \<open>MemoryStorage\<close>. The parameter
  \<open>storage\<close> of \<open>load_ctnode\<close>, through which an implementation outside the repository may push further
  nodes, is used by none of the implementations here and is left out.
\<close>

section \<open>Keys and values\<close>

type_synonym trie_id_type = u64
type_synonym node_key = "trie_id_type \<times> partial_label"
type_synonym element_key = "trie_id_type \<times> byte list"

text \<open>\<open>operator<\<close> of the keys: the trie id, then the label or the bytes.\<close>

definition less_node_key :: "node_key \<Rightarrow> node_key \<Rightarrow> bool" where
  "less_node_key a b = (if fst a = fst b then label_less (snd a) (snd b) else fst a < fst b)"

fun less_bytes :: "byte list \<Rightarrow> byte list \<Rightarrow> bool" where
  "less_bytes _ [] = False"
| "less_bytes [] (_ # _) = True"
| "less_bytes (x # xs) (y # ys) = (x < y \<or> x = y \<and> less_bytes xs ys)"

definition less_element_key :: "element_key \<Rightarrow> element_key \<Rightarrow> bool" where
  "less_element_key a b = (if fst a = fst b then less_bytes (snd a) (snd b) else fst a < fst b)"

record store_value =
  sv_payload :: "byte list"
  sv_randomness :: "byte list"

text \<open>What is kept of a \<open>CompressedTrie\<close>; a default-constructed one has epoch 0.\<close>

record trie_info =
  ti_id :: trie_id_type
  ti_epoch :: u64
  ti_thread_count :: nat
  ti_type :: TrieType

section \<open>The interface\<close>

record 's storage_ops =
  so_load_ctnode :: "'s \<Rightarrow> trie_id_type \<Rightarrow> partial_label \<Rightarrow> stored_node option result \<times> 's"
  so_save_ctnode :: "'s \<Rightarrow> trie_id_type \<Rightarrow> stored_node \<Rightarrow> unit result \<times> 's"
  so_load_compressed_trie :: "'s \<Rightarrow> trie_id_type \<Rightarrow> trie_info option result \<times> 's"
  so_save_compressed_trie :: "'s \<Rightarrow> trie_info \<Rightarrow> unit result \<times> 's"
  so_load_store_element :: "'s \<Rightarrow> trie_id_type \<Rightarrow> byte list \<Rightarrow> store_value option result \<times> 's"
  so_save_store_element :: "'s \<Rightarrow> trie_id_type \<Rightarrow> byte list \<Rightarrow> store_value \<Rightarrow> unit result \<times> 's"
  so_flush :: "'s \<Rightarrow> trie_id_type \<Rightarrow> unit result \<times> 's"
  so_delete_ozks :: "'s \<Rightarrow> trie_id_type \<Rightarrow> unit result \<times> 's"

section \<open>MemoryStorage\<close>

record memory_storage =
  ms_nodes :: "node_key \<rightharpoonup> stored_node"
  ms_tries :: "trie_id_type \<rightharpoonup> trie_info"
  ms_store :: "element_key \<rightharpoonup> store_value"

definition ms_new :: memory_storage where
  "ms_new = \<lparr>ms_nodes = Map.empty, ms_tries = Map.empty, ms_store = Map.empty\<rparr>"

definition ms_load_ctnode ::
  "memory_storage \<Rightarrow> trie_id_type \<Rightarrow> partial_label \<Rightarrow> stored_node option result \<times> memory_storage" where
  "ms_load_ctnode s trie_id node_id = (Inr (ms_nodes s (trie_id, node_id)), s)"

definition ms_save_ctnode ::
  "memory_storage \<Rightarrow> trie_id_type \<Rightarrow> stored_node \<Rightarrow> unit result \<times> memory_storage" where
  "ms_save_ctnode s trie_id node = (Inr (), s\<lparr>ms_nodes := (ms_nodes s)((trie_id, s_label node) \<mapsto> node)\<rparr>)"

definition ms_load_compressed_trie ::
  "memory_storage \<Rightarrow> trie_id_type \<Rightarrow> trie_info option result \<times> memory_storage" where
  "ms_load_compressed_trie s trie_id = (Inr (ms_tries s trie_id), s)"

definition ms_save_compressed_trie :: "memory_storage \<Rightarrow> trie_info \<Rightarrow> unit result \<times> memory_storage" where
  "ms_save_compressed_trie s trie = (Inr (), s\<lparr>ms_tries := (ms_tries s)(ti_id trie \<mapsto> trie)\<rparr>)"

definition ms_load_store_element ::
  "memory_storage \<Rightarrow> trie_id_type \<Rightarrow> byte list \<Rightarrow> store_value option result \<times> memory_storage" where
  "ms_load_store_element s trie_id key = (Inr (ms_store s (trie_id, key)), s)"

definition ms_save_store_element ::
  "memory_storage \<Rightarrow> trie_id_type \<Rightarrow> byte list \<Rightarrow> store_value \<Rightarrow> unit result \<times> memory_storage" where
  "ms_save_store_element s trie_id key value =
     (Inr (), s\<lparr>ms_store := (ms_store s)((trie_id, key) \<mapsto> value)\<rparr>)"

definition ms_flush :: "memory_storage \<Rightarrow> trie_id_type \<Rightarrow> unit result \<times> memory_storage" where
  "ms_flush s trie_id = (Inr (), s)"

text \<open>\<open>add_ctnode\<close>, \<open>add_compressed_trie\<close> and \<open>add_store_element\<close> of a storage that has no place for them.\<close>

definition no_add :: "'s \<Rightarrow> unit result \<times> 's" where
  "no_add s = (Inl (RuntimeError ''Does not make sense for this Storage implementation''), s)"

definition ms_get_compressed_trie_epoch :: "memory_storage \<Rightarrow> trie_id_type \<Rightarrow> u64" where
  "ms_get_compressed_trie_epoch s trie_id =
     (case ms_load_compressed_trie s trie_id of (Inr (Some trie), _) \<Rightarrow> ti_epoch trie | _ \<Rightarrow> 0)"

definition ms_delete_ozks :: "memory_storage \<Rightarrow> trie_id_type \<Rightarrow> unit result \<times> memory_storage" where
  "ms_delete_ozks s trie_id =
     (Inr (), s\<lparr>ms_nodes := ms_nodes s |` {k. fst k \<noteq> trie_id},
                ms_tries := (ms_tries s)(trie_id := None),
                ms_store := ms_store s |` {k. fst k \<noteq> trie_id}\<rparr>)"

definition memory_ops :: "memory_storage storage_ops" where
  "memory_ops =
     \<lparr>so_load_ctnode = ms_load_ctnode, so_save_ctnode = ms_save_ctnode,
      so_load_compressed_trie = ms_load_compressed_trie, so_save_compressed_trie = ms_save_compressed_trie,
      so_load_store_element = ms_load_store_element, so_save_store_element = ms_save_store_element,
      so_flush = ms_flush, so_delete_ozks = ms_delete_ozks\<rparr>"

section \<open>The LRU cache\<close>

text \<open>
  \<open>Poco::LRUCache\<close> is not part of the repository. It returns what was last put under a key unless it
  has dropped it; what it drops is the parameter \<open>lru_evict\<close>, the set of keys evicted by the n-th write.
\<close>

record ('k, 'v) lru =
  lru_map :: "'k \<rightharpoonup> 'v"
  lru_time :: nat
  lru_evict :: "nat \<Rightarrow> 'k set"

definition lru_put :: "'k \<Rightarrow> 'v \<Rightarrow> ('k, 'v) lru \<Rightarrow> ('k, 'v) lru" where
  "lru_put k v c = c\<lparr>lru_map := (lru_map c)(k \<mapsto> v) |` (- lru_evict c (lru_time c)), lru_time := lru_time c + 1\<rparr>"

definition lru_remove :: "'k set \<Rightarrow> ('k, 'v) lru \<Rightarrow> ('k, 'v) lru" where
  "lru_remove ks c = c\<lparr>lru_map := lru_map c |` (- ks)\<rparr>"

text \<open>The cached entries agree with a map.\<close>

definition lru_agrees :: "('k, 'v) lru \<Rightarrow> ('k \<rightharpoonup> 'v) \<Rightarrow> bool" where
  "lru_agrees c m = (lru_map c \<subseteq>\<^sub>m m)"

lemma lru_put_agrees: "lru_agrees c m \<Longrightarrow> lru_agrees (lru_put k v c) (m(k \<mapsto> v))"
  by (auto simp: lru_agrees_def lru_put_def map_le_def restrict_map_def)

lemma lru_put_known: "lru_agrees c m \<Longrightarrow> m k = Some v \<Longrightarrow> lru_agrees (lru_put k v c) m"
  using lru_put_agrees [of c m k v] by (simp add: fun_upd_idem)

lemma lru_remove_agrees: "lru_agrees c m \<Longrightarrow> lru_agrees (lru_remove ks c) (m |` (- ks))"
  by (auto simp: lru_agrees_def lru_remove_def map_le_def restrict_map_def split: if_splits)

lemma lru_get: "lru_agrees c m \<Longrightarrow> lru_map c k = Some v \<Longrightarrow> m k = Some v"
  by (force simp: lru_agrees_def map_le_def)

section \<open>MemoryStorageCache\<close>

record 'b storage_cache =
  ca_storage :: 'b
  ca_nodes :: "(node_key, stored_node) lru"
  ca_tries :: "(trie_id_type, trie_info) lru"
  ca_elements :: "(element_key, store_value) lru"

definition cache_load_ctnode ::
  "('b, 'm) storage_ops_scheme \<Rightarrow> 'b storage_cache \<Rightarrow> trie_id_type \<Rightarrow> partial_label \<Rightarrow> stored_node option result \<times> 'b storage_cache" where
  "cache_load_ctnode ops c trie_id node_id =
     (case lru_map (ca_nodes c) (trie_id, node_id) of
        Some node \<Rightarrow> (Inr (Some node), c)
      | None \<Rightarrow>
          (case so_load_ctnode ops (ca_storage c) trie_id node_id of
             (Inr (Some node), b) \<Rightarrow>
               (Inr (Some node), c\<lparr>ca_storage := b, ca_nodes := lru_put (trie_id, node_id) node (ca_nodes c)\<rparr>)
           | (r, b) \<Rightarrow> (r, c\<lparr>ca_storage := b\<rparr>)))"

definition cache_save_ctnode ::
  "('b, 'm) storage_ops_scheme \<Rightarrow> 'b storage_cache \<Rightarrow> trie_id_type \<Rightarrow> stored_node \<Rightarrow> unit result \<times> 'b storage_cache" where
  "cache_save_ctnode ops c trie_id node =
     (case so_save_ctnode ops (ca_storage c) trie_id node of
        (Inl e, b) \<Rightarrow> (Inl e, c\<lparr>ca_storage := b\<rparr>)
      | (Inr _, b) \<Rightarrow>
          (Inr (), c\<lparr>ca_storage := b, ca_nodes := lru_put (trie_id, s_label node) node (ca_nodes c)\<rparr>))"

definition cache_load_compressed_trie ::
  "('b, 'm) storage_ops_scheme \<Rightarrow> 'b storage_cache \<Rightarrow> trie_id_type \<Rightarrow> trie_info option result \<times> 'b storage_cache" where
  "cache_load_compressed_trie ops c trie_id =
     (case lru_map (ca_tries c) trie_id of
        Some trie \<Rightarrow> (Inr (Some trie), c)
      | None \<Rightarrow>
          (case so_load_compressed_trie ops (ca_storage c) trie_id of
             (Inr (Some trie), b) \<Rightarrow>
               (Inr (Some trie), c\<lparr>ca_storage := b, ca_tries := lru_put trie_id trie (ca_tries c)\<rparr>)
           | (r, b) \<Rightarrow> (r, c\<lparr>ca_storage := b\<rparr>)))"

definition cache_save_compressed_trie ::
  "('b, 'm) storage_ops_scheme \<Rightarrow> 'b storage_cache \<Rightarrow> trie_info \<Rightarrow> unit result \<times> 'b storage_cache" where
  "cache_save_compressed_trie ops c trie =
     (case so_save_compressed_trie ops (ca_storage c) trie of
        (Inl e, b) \<Rightarrow> (Inl e, c\<lparr>ca_storage := b\<rparr>)
      | (Inr _, b) \<Rightarrow> (Inr (), c\<lparr>ca_storage := b, ca_tries := lru_put (ti_id trie) trie (ca_tries c)\<rparr>))"

definition cache_load_store_element ::
  "('b, 'm) storage_ops_scheme \<Rightarrow> 'b storage_cache \<Rightarrow> trie_id_type \<Rightarrow> byte list \<Rightarrow> store_value option result \<times> 'b storage_cache" where
  "cache_load_store_element ops c trie_id se_key =
     (case lru_map (ca_elements c) (trie_id, se_key) of
        Some v \<Rightarrow> (Inr (Some v), c)
      | None \<Rightarrow>
          (case so_load_store_element ops (ca_storage c) trie_id se_key of
             (Inr (Some v), b) \<Rightarrow>
               (Inr (Some v), c\<lparr>ca_storage := b, ca_elements := lru_put (trie_id, se_key) v (ca_elements c)\<rparr>)
           | (r, b) \<Rightarrow> (r, c\<lparr>ca_storage := b\<rparr>)))"

definition cache_save_store_element ::
  "('b, 'm) storage_ops_scheme \<Rightarrow> 'b storage_cache \<Rightarrow> trie_id_type \<Rightarrow> byte list \<Rightarrow> store_value \<Rightarrow> unit result \<times> 'b storage_cache" where
  "cache_save_store_element ops c trie_id se_key v =
     (case so_save_store_element ops (ca_storage c) trie_id se_key v of
        (Inl e, b) \<Rightarrow> (Inl e, c\<lparr>ca_storage := b\<rparr>)
      | (Inr _, b) \<Rightarrow>
          (Inr (), c\<lparr>ca_storage := b, ca_elements := lru_put (trie_id, se_key) v (ca_elements c)\<rparr>))"

definition cache_flush :: "('b, 'm) storage_ops_scheme \<Rightarrow> 'b storage_cache \<Rightarrow> trie_id_type \<Rightarrow> unit result \<times> 'b storage_cache" where
  "cache_flush ops c trie_id = (let (r, b) = so_flush ops (ca_storage c) trie_id in (r, c\<lparr>ca_storage := b\<rparr>))"

text \<open>\<open>add_*\<close>: an element known to be in the backing storage enters the cache.\<close>

definition cache_add_ctnode :: "'b storage_cache \<Rightarrow> trie_id_type \<Rightarrow> stored_node \<Rightarrow> 'b storage_cache" where
  "cache_add_ctnode c trie_id node = c\<lparr>ca_nodes := lru_put (trie_id, s_label node) node (ca_nodes c)\<rparr>"

definition cache_add_compressed_trie :: "'b storage_cache \<Rightarrow> trie_info \<Rightarrow> 'b storage_cache" where
  "cache_add_compressed_trie c trie = c\<lparr>ca_tries := lru_put (ti_id trie) trie (ca_tries c)\<rparr>"

definition cache_add_store_element ::
  "'b storage_cache \<Rightarrow> trie_id_type \<Rightarrow> byte list \<Rightarrow> store_value \<Rightarrow> 'b storage_cache" where
  "cache_add_store_element c trie_id se_key v = c\<lparr>ca_elements := lru_put (trie_id, se_key) v (ca_elements c)\<rparr>"

definition cache_get_compressed_trie_epoch ::
  "('b, 'm) storage_ops_scheme \<Rightarrow> 'b storage_cache \<Rightarrow> trie_id_type \<Rightarrow> u64 result \<times> 'b storage_cache" where
  "cache_get_compressed_trie_epoch ops c trie_id =
     (case so_load_compressed_trie ops (ca_storage c) trie_id of
        (Inl e, b) \<Rightarrow> (Inl e, c\<lparr>ca_storage := b\<rparr>)
      | (Inr (Some trie), b) \<Rightarrow> (Inr (ti_epoch trie), c\<lparr>ca_storage := b\<rparr>)
      | (Inr None, b) \<Rightarrow>
          (Inr (case lru_map (ca_tries c) trie_id of Some trie \<Rightarrow> ti_epoch trie | None \<Rightarrow> 0), c\<lparr>ca_storage := b\<rparr>))"

definition cache_delete_ozks ::
  "('b, 'm) storage_ops_scheme \<Rightarrow> 'b storage_cache \<Rightarrow> trie_id_type \<Rightarrow> unit result \<times> 'b storage_cache" where
  "cache_delete_ozks ops c trie_id =
     (let c = c\<lparr>ca_nodes := lru_remove {k. fst k = trie_id} (ca_nodes c),
                ca_tries := lru_remove {trie_id} (ca_tries c),
                ca_elements := lru_remove {k. fst k = trie_id} (ca_elements c)\<rparr>;
          (r, b) = so_delete_ozks ops (ca_storage c) trie_id
      in (r, c\<lparr>ca_storage := b\<rparr>))"

definition cache_ops :: "('b, 'm) storage_ops_scheme \<Rightarrow> 'b storage_cache storage_ops" where
  "cache_ops ops =
     \<lparr>so_load_ctnode = cache_load_ctnode ops, so_save_ctnode = cache_save_ctnode ops,
      so_load_compressed_trie = cache_load_compressed_trie ops,
      so_save_compressed_trie = cache_save_compressed_trie ops,
      so_load_store_element = cache_load_store_element ops, so_save_store_element = cache_save_store_element ops,
      so_flush = cache_flush ops, so_delete_ozks = cache_delete_ozks ops\<rparr>"

section \<open>MemoryStorageBatchInserter\<close>

text \<open>\<open>BatchStorage\<close> adds a flush of given elements to the interface.\<close>

record 's batch_ops = "'s storage_ops" +
  bo_flush :: "'s \<Rightarrow> trie_id_type \<Rightarrow> stored_node list \<Rightarrow> trie_info list \<Rightarrow>
    (byte list \<times> store_value) list \<Rightarrow> unit result \<times> 's"

record 'b batch_inserter =
  bi_storage :: "'b option"
  bi_nodes :: "(node_key \<times> stored_node) list"
  bi_tries :: "(trie_id_type \<times> trie_info) list"
  bi_elements :: "(element_key \<times> store_value) list"

text \<open>Every operation first refuses a null storage; \<open>with_storage\<close> also writes the storage back.\<close>

definition with_storage ::
  "'b batch_inserter \<Rightarrow> ('b \<Rightarrow> 'a result \<times> 'b batch_inserter) \<Rightarrow> 'a result \<times> 'b batch_inserter" where
  "with_storage s f =
     (case bi_storage s of
        None \<Rightarrow> (Inl (RuntimeError ''storage is not initialized''), s)
      | Some b \<Rightarrow> f b)"

definition bi_load_ctnode ::
  "('b, 'm) batch_ops_scheme \<Rightarrow> 'b batch_inserter \<Rightarrow> trie_id_type \<Rightarrow> partial_label \<Rightarrow>
    stored_node option result \<times> 'b batch_inserter" where
  "bi_load_ctnode ops s trie_id node_id = with_storage s (\<lambda>b.
     case map_of (bi_nodes s) (trie_id, node_id) of
       Some node \<Rightarrow> (Inr (Some node), s)
     | None \<Rightarrow> (let (r, b) = so_load_ctnode ops b trie_id node_id in (r, s\<lparr>bi_storage := Some b\<rparr>)))"

definition bi_save_ctnode ::
  "'b batch_inserter \<Rightarrow> trie_id_type \<Rightarrow> stored_node \<Rightarrow> unit result \<times> 'b batch_inserter" where
  "bi_save_ctnode s trie_id node = with_storage s (\<lambda>b.
     (Inr (), s\<lparr>bi_nodes := AList.update (trie_id, s_label node) node (bi_nodes s)\<rparr>))"

definition bi_load_compressed_trie ::
  "('b, 'm) batch_ops_scheme \<Rightarrow> 'b batch_inserter \<Rightarrow> trie_id_type \<Rightarrow> trie_info option result \<times> 'b batch_inserter" where
  "bi_load_compressed_trie ops s trie_id = with_storage s (\<lambda>b.
     case map_of (bi_tries s) trie_id of
       Some trie \<Rightarrow> (Inr (Some trie), s)
     | None \<Rightarrow> (let (r, b) = so_load_compressed_trie ops b trie_id in (r, s\<lparr>bi_storage := Some b\<rparr>)))"

definition bi_save_compressed_trie :: "'b batch_inserter \<Rightarrow> trie_info \<Rightarrow> unit result \<times> 'b batch_inserter" where
  "bi_save_compressed_trie s trie = with_storage s (\<lambda>b.
     (Inr (), s\<lparr>bi_tries := AList.update (ti_id trie) trie (bi_tries s)\<rparr>))"

definition bi_load_store_element ::
  "('b, 'm) batch_ops_scheme \<Rightarrow> 'b batch_inserter \<Rightarrow> trie_id_type \<Rightarrow> byte list \<Rightarrow>
    store_value option result \<times> 'b batch_inserter" where
  "bi_load_store_element ops s trie_id key = with_storage s (\<lambda>b.
     case map_of (bi_elements s) (trie_id, key) of
       Some v \<Rightarrow> (Inr (Some v), s)
     | None \<Rightarrow> (let (r, b) = so_load_store_element ops b trie_id key in (r, s\<lparr>bi_storage := Some b\<rparr>)))"

definition bi_save_store_element ::
  "'b batch_inserter \<Rightarrow> trie_id_type \<Rightarrow> byte list \<Rightarrow> store_value \<Rightarrow> unit result \<times> 'b batch_inserter" where
  "bi_save_store_element s trie_id key v = with_storage s (\<lambda>b.
     (Inr (), s\<lparr>bi_elements := AList.update (trie_id, key) v (bi_elements s)\<rparr>))"

text \<open>The unsaved elements of every trie are handed over under the id of the flush.\<close>

definition bi_flush ::
  "('b, 'm) batch_ops_scheme \<Rightarrow> 'b batch_inserter \<Rightarrow> trie_id_type \<Rightarrow> unit result \<times> 'b batch_inserter" where
  "bi_flush ops s trie_id = with_storage s (\<lambda>b.
     let nodes = map snd (bi_nodes s);
         tries = map snd (bi_tries s);
         store_elements = map (\<lambda>(k, v). (snd k, v)) (bi_elements s);
         (r, b) = bo_flush ops b trie_id nodes tries store_elements
     in (r, s\<lparr>bi_storage := Some b, bi_nodes := [], bi_tries := [], bi_elements := []\<rparr>))"

text \<open>These two do not check for a null storage; calling them then is undefined, here an exception.\<close>

definition bi_get_compressed_trie_epoch ::
  "('b, 'm) batch_ops_scheme \<Rightarrow> 'b batch_inserter \<Rightarrow> trie_id_type \<Rightarrow> u64 result \<times> 'b batch_inserter" where
  "bi_get_compressed_trie_epoch ops s trie_id = with_storage s (\<lambda>b.
     case so_load_compressed_trie ops b trie_id of
       (Inl e, b) \<Rightarrow> (Inl e, s\<lparr>bi_storage := Some b\<rparr>)
     | (Inr (Some trie), b) \<Rightarrow> (Inr (ti_epoch trie), s\<lparr>bi_storage := Some b\<rparr>)
     | (Inr None, b) \<Rightarrow>
         (Inr (case map_of (bi_tries s) trie_id of Some trie \<Rightarrow> ti_epoch trie | None \<Rightarrow> 0), s\<lparr>bi_storage := Some b\<rparr>))"

definition bi_delete_ozks ::
  "('b, 'm) batch_ops_scheme \<Rightarrow> 'b batch_inserter \<Rightarrow> trie_id_type \<Rightarrow> unit result \<times> 'b batch_inserter" where
  "bi_delete_ozks ops s trie_id = with_storage s (\<lambda>b.
     let (r, b) = so_delete_ozks ops b trie_id
     in (r, s\<lparr>bi_storage := Some b,
              bi_nodes := filter (\<lambda>p. fst (fst p) \<noteq> trie_id) (bi_nodes s),
              bi_tries := filter (\<lambda>p. fst p \<noteq> trie_id) (bi_tries s),
              bi_elements := filter (\<lambda>p. fst (fst p) \<noteq> trie_id) (bi_elements s)\<rparr>))"

definition inserter_ops :: "('b, 'm) batch_ops_scheme \<Rightarrow> 'b batch_inserter storage_ops" where
  "inserter_ops ops =
     \<lparr>so_load_ctnode = bi_load_ctnode ops, so_save_ctnode = bi_save_ctnode,
      so_load_compressed_trie = bi_load_compressed_trie ops, so_save_compressed_trie = bi_save_compressed_trie,
      so_load_store_element = bi_load_store_element ops, so_save_store_element = bi_save_store_element,
      so_flush = bi_flush ops, so_delete_ozks = bi_delete_ozks ops\<rparr>"

text \<open>The documented effect of \<open>BatchStorage::flush\<close>, on the storage in memory: every element is saved.\<close>

definition ms_batch_flush ::
  "memory_storage \<Rightarrow> trie_id_type \<Rightarrow> stored_node list \<Rightarrow> trie_info list \<Rightarrow> (byte list \<times> store_value) list \<Rightarrow>
    unit result \<times> memory_storage" where
  "ms_batch_flush s trie_id nodes tries store_elements =
     (Inr (), s\<lparr>ms_nodes := ms_nodes s ++ map_of (rev (map (\<lambda>n. ((trie_id, s_label n), n)) nodes)),
                ms_tries := ms_tries s ++ map_of (rev (map (\<lambda>t. (ti_id t, t)) tries)),
                ms_store := ms_store s ++ map_of (rev (map (\<lambda>(k, v). ((trie_id, k), v)) store_elements))\<rparr>)"

definition memory_batch_ops :: "memory_storage batch_ops" where
  "memory_batch_ops =
     \<lparr>so_load_ctnode = ms_load_ctnode, so_save_ctnode = ms_save_ctnode,
      so_load_compressed_trie = ms_load_compressed_trie, so_save_compressed_trie = ms_save_compressed_trie,
      so_load_store_element = ms_load_store_element, so_save_store_element = ms_save_store_element,
      so_flush = ms_flush, so_delete_ozks = ms_delete_ozks, bo_flush = ms_batch_flush\<rparr>"

section \<open>The contract of a storage\<close>

text \<open>
  \<open>content\<close> is what a storage holds, as the maps of \<open>MemoryStorage\<close>; \<open>ok\<close> is the invariant of the
  implementation. Loading does not change the content, saving and deleting change it as they change
  the maps. A flush keeps it where \<open>flushable\<close> holds.
\<close>

locale storage =
  fixes ops :: "('s, 'm) storage_ops_scheme"
    and content :: "'s \<Rightarrow> memory_storage"
    and ok :: "'s \<Rightarrow> bool"
    and flushable :: "'s \<Rightarrow> trie_id_type \<Rightarrow> bool"
  assumes load_ctnode: "ok s \<Longrightarrow> \<exists>s'. so_load_ctnode ops s i l = (Inr (ms_nodes (content s) (i, l)), s') \<and>
        content s' = content s \<and> ok s'"
    and save_ctnode: "ok s \<Longrightarrow> \<exists>s'. so_save_ctnode ops s i n = (Inr (), s') \<and>
        content s' = snd (ms_save_ctnode (content s) i n) \<and> ok s'"
    and load_trie: "ok s \<Longrightarrow> \<exists>s'. so_load_compressed_trie ops s i = (Inr (ms_tries (content s) i), s') \<and>
        content s' = content s \<and> ok s'"
    and save_trie: "ok s \<Longrightarrow> \<exists>s'. so_save_compressed_trie ops s t = (Inr (), s') \<and>
        content s' = snd (ms_save_compressed_trie (content s) t) \<and> ok s'"
    and load_element: "ok s \<Longrightarrow> \<exists>s'. so_load_store_element ops s i k = (Inr (ms_store (content s) (i, k)), s') \<and>
        content s' = content s \<and> ok s'"
    and save_element: "ok s \<Longrightarrow> \<exists>s'. so_save_store_element ops s i k v = (Inr (), s') \<and>
        content s' = snd (ms_save_store_element (content s) i k v) \<and> ok s'"
    and flush: "ok s \<Longrightarrow> flushable s i \<Longrightarrow> \<exists>s'. so_flush ops s i = (Inr (), s') \<and> content s' = content s \<and> ok s'"
    and delete: "ok s \<Longrightarrow> \<exists>s'. so_delete_ozks ops s i = (Inr (), s') \<and>
        content s' = snd (ms_delete_ozks (content s) i) \<and> ok s'"

lemmas ms_defs = ms_load_ctnode_def ms_save_ctnode_def ms_load_compressed_trie_def ms_save_compressed_trie_def
  ms_load_store_element_def ms_save_store_element_def ms_flush_def ms_delete_ozks_def

interpretation memory: storage memory_ops "\<lambda>s. s" "\<lambda>_. True" "\<lambda>_ _. True"
  by unfold_locales (simp_all add: memory_ops_def ms_defs)

text \<open>A storage that can also take a batch of elements.\<close>

locale batch_storage = storage ops content ok flushable
  for ops :: "('s, 'm) batch_ops_scheme"
    and content :: "'s \<Rightarrow> memory_storage"
    and ok :: "'s \<Rightarrow> bool"
    and flushable :: "'s \<Rightarrow> trie_id_type \<Rightarrow> bool" +
  assumes batch_flush: "ok s \<Longrightarrow> \<exists>s'. bo_flush ops s i ns ts es = (Inr (), s') \<and>
        content s' = snd (ms_batch_flush (content s) i ns ts es) \<and> ok s'"

interpretation memory_batch: batch_storage memory_batch_ops "\<lambda>s. s" "\<lambda>_. True" "\<lambda>_ _. True"
  by unfold_locales (simp_all add: memory_batch_ops_def ms_defs ms_batch_flush_def)

section \<open>The cache keeps the contract\<close>

definition cache_ok :: "('b \<Rightarrow> memory_storage) \<Rightarrow> ('b \<Rightarrow> bool) \<Rightarrow> 'b storage_cache \<Rightarrow> bool" where
  "cache_ok content ok c =
     (ok (ca_storage c) \<and> lru_agrees (ca_nodes c) (ms_nodes (content (ca_storage c))) \<and>
      lru_agrees (ca_tries c) (ms_tries (content (ca_storage c))) \<and>
      lru_agrees (ca_elements c) (ms_store (content (ca_storage c))))"

lemmas cache_defs = cache_ops_def cache_load_ctnode_def cache_save_ctnode_def cache_load_compressed_trie_def
  cache_save_compressed_trie_def cache_load_store_element_def cache_save_store_element_def cache_flush_def
  cache_delete_ozks_def

lemma compl_restrict: "{k. f k \<noteq> i} = - {k. f k = i}"
  by auto

context storage
begin

lemma cache_load_ctnode_refines:
  assumes "cache_ok content ok c"
  shows "\<exists>c'. cache_load_ctnode ops c i l = (Inr (ms_nodes (content (ca_storage c)) (i, l)), c') \<and>
    content (ca_storage c') = content (ca_storage c) \<and> cache_ok content ok c'"
proof -
  note c = assms [unfolded cache_ok_def]
  obtain b where b: "so_load_ctnode ops (ca_storage c) i l = (Inr (ms_nodes (content (ca_storage c)) (i, l)), b)"
    "content b = content (ca_storage c)" "ok b" using load_ctnode c by blast
  show ?thesis
    using c b lru_get [of "ca_nodes c" "ms_nodes (content (ca_storage c))" "(i, l)"]
    by (auto simp: cache_load_ctnode_def cache_ok_def lru_put_known split: option.split)
qed

lemma cache_load_trie_refines:
  assumes "cache_ok content ok c"
  shows "\<exists>c'. cache_load_compressed_trie ops c i = (Inr (ms_tries (content (ca_storage c)) i), c') \<and>
    content (ca_storage c') = content (ca_storage c) \<and> cache_ok content ok c'"
proof -
  note c = assms [unfolded cache_ok_def]
  obtain b where b: "so_load_compressed_trie ops (ca_storage c) i = (Inr (ms_tries (content (ca_storage c)) i), b)"
    "content b = content (ca_storage c)" "ok b" using load_trie c by blast
  show ?thesis
    using c b lru_get [of "ca_tries c" "ms_tries (content (ca_storage c))" i]
    by (auto simp: cache_load_compressed_trie_def cache_ok_def lru_put_known split: option.split)
qed

lemma cache_load_element_refines:
  assumes "cache_ok content ok c"
  shows "\<exists>c'. cache_load_store_element ops c i k = (Inr (ms_store (content (ca_storage c)) (i, k)), c') \<and>
    content (ca_storage c') = content (ca_storage c) \<and> cache_ok content ok c'"
proof -
  note c = assms [unfolded cache_ok_def]
  obtain b where b: "so_load_store_element ops (ca_storage c) i k = (Inr (ms_store (content (ca_storage c)) (i, k)), b)"
    "content b = content (ca_storage c)" "ok b" using load_element c by blast
  show ?thesis
    using c b lru_get [of "ca_elements c" "ms_store (content (ca_storage c))" "(i, k)"]
    by (auto simp: cache_load_store_element_def cache_ok_def lru_put_known split: option.split)
qed

lemma cache_save_refines:
  assumes "cache_ok content ok c"
  shows "\<exists>c'. cache_save_ctnode ops c i n = (Inr (), c') \<and>
      content (ca_storage c') = snd (ms_save_ctnode (content (ca_storage c)) i n) \<and> cache_ok content ok c'"
    and "\<exists>c'. cache_save_compressed_trie ops c t = (Inr (), c') \<and>
      content (ca_storage c') = snd (ms_save_compressed_trie (content (ca_storage c)) t) \<and> cache_ok content ok c'"
    and "\<exists>c'. cache_save_store_element ops c i k v = (Inr (), c') \<and>
      content (ca_storage c') = snd (ms_save_store_element (content (ca_storage c)) i k v) \<and> cache_ok content ok c'"
proof -
  note c = assms [unfolded cache_ok_def]
  show "\<exists>c'. cache_save_ctnode ops c i n = (Inr (), c') \<and>
      content (ca_storage c') = snd (ms_save_ctnode (content (ca_storage c)) i n) \<and> cache_ok content ok c'"
    using save_ctnode [of "ca_storage c" i n] c
    by (auto simp: cache_save_ctnode_def cache_ok_def ms_save_ctnode_def lru_put_agrees)
  show "\<exists>c'. cache_save_compressed_trie ops c t = (Inr (), c') \<and>
      content (ca_storage c') = snd (ms_save_compressed_trie (content (ca_storage c)) t) \<and> cache_ok content ok c'"
    using save_trie [of "ca_storage c" t] c
    by (auto simp: cache_save_compressed_trie_def cache_ok_def ms_save_compressed_trie_def lru_put_agrees)
  show "\<exists>c'. cache_save_store_element ops c i k v = (Inr (), c') \<and>
      content (ca_storage c') = snd (ms_save_store_element (content (ca_storage c)) i k v) \<and> cache_ok content ok c'"
    using save_element [of "ca_storage c" i k v] c
    by (auto simp: cache_save_store_element_def cache_ok_def ms_save_store_element_def lru_put_agrees)
qed

lemma cache_delete_refines:
  assumes "cache_ok content ok c"
  shows "\<exists>c'. cache_delete_ozks ops c i = (Inr (), c') \<and>
    content (ca_storage c') = snd (ms_delete_ozks (content (ca_storage c)) i) \<and> cache_ok content ok c'"
proof -
  note c = assms [unfolded cache_ok_def]
  have t: "m(i := None) = m |` (- {i})" for m :: "trie_id_type \<rightharpoonup> trie_info"
    by (auto simp: restrict_map_def)
  show ?thesis
    using delete [of "ca_storage c" i] c
    by (auto simp: cache_delete_ozks_def cache_ok_def ms_delete_ozks_def lru_remove_agrees compl_restrict t)
qed

end

text \<open>The cache in front of any storage is a storage with the same content.\<close>

locale cached_storage = storage

sublocale cached_storage \<subseteq> cached: storage "cache_ops ops" "\<lambda>c. content (ca_storage c)" "cache_ok content ok"
  "\<lambda>c i. flushable (ca_storage c) i"
proof (unfold_locales, goal_cases)
  case (7 s i)
  then show ?case using flush [of "ca_storage s" i] by (auto simp: cache_defs cache_ok_def)
qed (simp_all add: cache_ops_def cache_load_ctnode_refines cache_load_trie_refines cache_load_element_refines
  cache_save_refines cache_delete_refines)

interpretation memory_cached: cached_storage memory_ops "\<lambda>s. s" "\<lambda>_. True" "\<lambda>_ _. True"
  by unfold_locales

section \<open>The batch inserter keeps the contract\<close>

lemma map_of_rev: "distinct (map fst xs) \<Longrightarrow> map_of (rev xs) = map_of xs"
  by (intro map_of_eqI) (auto simp: rev_map [symmetric])

lemma map_of_filter_keys: "map_of (filter (\<lambda>p. P (fst p)) xs) = map_of xs |` {k. P k}"
  by (induction xs) (auto simp: restrict_map_def fun_eq_iff)

lemma map_add_at: "(m ++ m') k = (case m' k of None \<Rightarrow> m k | Some v \<Rightarrow> Some v)"
  by (simp add: map_add_def)

lemma add_restrict: "(m ++ m') |` A = (m |` A) ++ (m' |` A)"
  by (auto simp: restrict_map_def map_add_def fun_eq_iff split: option.split)

definition bi_content :: "('b \<Rightarrow> memory_storage) \<Rightarrow> 'b batch_inserter \<Rightarrow> memory_storage" where
  "bi_content content s =
     (let m = (case bi_storage s of Some b \<Rightarrow> content b | None \<Rightarrow> ms_new)
      in \<lparr>ms_nodes = ms_nodes m ++ map_of (bi_nodes s), ms_tries = ms_tries m ++ map_of (bi_tries s),
          ms_store = ms_store m ++ map_of (bi_elements s)\<rparr>)"

definition bi_ok :: "('b \<Rightarrow> bool) \<Rightarrow> 'b batch_inserter \<Rightarrow> bool" where
  "bi_ok ok s =
     (case bi_storage s of None \<Rightarrow> False | Some b \<Rightarrow> ok b \<and>
        distinct (map fst (bi_nodes s)) \<and> (\<forall>p \<in> set (bi_nodes s). snd (fst p) = s_label (snd p)) \<and>
        distinct (map fst (bi_tries s)) \<and> (\<forall>p \<in> set (bi_tries s). fst p = ti_id (snd p)) \<and>
        distinct (map fst (bi_elements s)))"

text \<open>A flush keeps the content if the unsaved nodes and elements belong to the trie that is flushed.\<close>

definition bi_flushable :: "'b batch_inserter \<Rightarrow> trie_id_type \<Rightarrow> bool" where
  "bi_flushable s i =
     ((\<forall>p \<in> set (bi_nodes s). fst (fst p) = i) \<and> (\<forall>p \<in> set (bi_elements s). fst (fst p) = i))"

lemma bi_ok_cases:
  assumes "bi_ok ok s"
  obtains b where "bi_storage s = Some b" "ok b"
  using assms by (auto simp: bi_ok_def split: option.splits)

lemma update_set: "(k', v') \<in> set (AList.update k v xs) \<Longrightarrow> (k', v') \<in> set xs \<or> k' = k \<and> v' = v"
  by (induction xs) (auto split: if_splits)

lemma flush_lists:
  "distinct (map fst ns) \<Longrightarrow> \<forall>p \<in> set ns. fst (fst p) = i \<and> snd (fst p) = s_label (snd p) \<Longrightarrow>
    map_of (rev (map (\<lambda>n. ((i, s_label n), n)) (map snd ns))) = map_of ns"
  "distinct (map fst ts) \<Longrightarrow> \<forall>p \<in> set ts. fst p = ti_id (snd p) \<Longrightarrow>
    map_of (rev (map (\<lambda>t. (ti_id t, t)) (map snd ts))) = map_of ts"
  "distinct (map fst es) \<Longrightarrow> \<forall>p \<in> set es. fst (fst p) = i \<Longrightarrow>
    map_of (rev (map (\<lambda>(k, v). ((i, k), v)) (map (\<lambda>(k, v). (snd k, v)) es))) = map_of es"
proof -
  assume d: "distinct (map fst ns)" and k: "\<forall>p \<in> set ns. fst (fst p) = i \<and> snd (fst p) = s_label (snd p)"
  have "map (\<lambda>n. ((i, s_label n), n)) (map snd ns) = ns"
    unfolding map_map by (rule map_idI) (use k in \<open>auto simp: prod_eq_iff\<close>)
  then show "map_of (rev (map (\<lambda>n. ((i, s_label n), n)) (map snd ns))) = map_of ns" using map_of_rev [OF d] by simp
next
  assume d: "distinct (map fst ts)" and k: "\<forall>p \<in> set ts. fst p = ti_id (snd p)"
  have "map (\<lambda>t. (ti_id t, t)) (map snd ts) = ts"
    unfolding map_map by (rule map_idI) (use k in \<open>auto simp: prod_eq_iff\<close>)
  then show "map_of (rev (map (\<lambda>t. (ti_id t, t)) (map snd ts))) = map_of ts" using map_of_rev [OF d] by simp
next
  assume d: "distinct (map fst es)" and k: "\<forall>p \<in> set es. fst (fst p) = i"
  have "map (\<lambda>(k, v). ((i, k), v)) (map (\<lambda>(k, v). (snd k, v)) es) = es"
    unfolding map_map by (rule map_idI) (use k in \<open>auto simp: prod_eq_iff\<close>)
  then show "map_of (rev (map (\<lambda>(k, v). ((i, k), v)) (map (\<lambda>(k, v). (snd k, v)) es))) = map_of es"
    using map_of_rev [OF d] by simp
qed

context batch_storage
begin

lemma bi_load_refines:
  assumes "bi_ok ok s"
  shows "\<exists>s'. bi_load_ctnode ops s i l = (Inr (ms_nodes (bi_content content s) (i, l)), s') \<and>
      bi_content content s' = bi_content content s \<and> bi_ok ok s'"
    and "\<exists>s'. bi_load_compressed_trie ops s i = (Inr (ms_tries (bi_content content s) i), s') \<and>
      bi_content content s' = bi_content content s \<and> bi_ok ok s'"
    and "\<exists>s'. bi_load_store_element ops s i k = (Inr (ms_store (bi_content content s) (i, k)), s') \<and>
      bi_content content s' = bi_content content s \<and> bi_ok ok s'"
proof -
  obtain b where b: "bi_storage s = Some b" "ok b" using bi_ok_cases [OF assms] .
  show "\<exists>s'. bi_load_ctnode ops s i l = (Inr (ms_nodes (bi_content content s) (i, l)), s') \<and>
      bi_content content s' = bi_content content s \<and> bi_ok ok s'"
  proof -
    obtain b' where b': "so_load_ctnode ops b i l = (Inr (ms_nodes (content b) (i, l)), b')" "content b' = content b" "ok b'"
      using load_ctnode [OF b(2)] by blast
    show ?thesis using assms b(1) b'(1,3)
      by (simp add: b'(2) bi_load_ctnode_def with_storage_def bi_content_def bi_ok_def map_add_at Let_def split: option.split)
  qed
  show "\<exists>s'. bi_load_compressed_trie ops s i = (Inr (ms_tries (bi_content content s) i), s') \<and>
      bi_content content s' = bi_content content s \<and> bi_ok ok s'"
  proof -
    obtain b' where b': "so_load_compressed_trie ops b i = (Inr (ms_tries (content b) i), b')" "content b' = content b" "ok b'"
      using load_trie [OF b(2)] by blast
    show ?thesis using assms b(1) b'(1,3)
      by (simp add: b'(2) bi_load_compressed_trie_def with_storage_def bi_content_def bi_ok_def map_add_at Let_def split: option.split)
  qed
  show "\<exists>s'. bi_load_store_element ops s i k = (Inr (ms_store (bi_content content s) (i, k)), s') \<and>
      bi_content content s' = bi_content content s \<and> bi_ok ok s'"
  proof -
    obtain b' where b': "so_load_store_element ops b i k = (Inr (ms_store (content b) (i, k)), b')" "content b' = content b" "ok b'"
      using load_element [OF b(2)] by blast
    show ?thesis using assms b(1) b'(1,3)
      by (simp add: b'(2) bi_load_store_element_def with_storage_def bi_content_def bi_ok_def map_add_at Let_def split: option.split)
  qed
qed

lemma bi_save_refines:
  assumes "bi_ok ok s"
  shows "\<exists>s'. bi_save_ctnode s i n = (Inr (), s') \<and>
      bi_content content s' = snd (ms_save_ctnode (bi_content content s) i n) \<and> bi_ok ok s'"
    and "\<exists>s'. bi_save_compressed_trie s t = (Inr (), s') \<and>
      bi_content content s' = snd (ms_save_compressed_trie (bi_content content s) t) \<and> bi_ok ok s'"
    and "\<exists>s'. bi_save_store_element s i k v = (Inr (), s') \<and>
      bi_content content s' = snd (ms_save_store_element (bi_content content s) i k v) \<and> bi_ok ok s'"
proof -
  obtain b where b: "bi_storage s = Some b" "ok b" using bi_ok_cases [OF assms] .
  show "\<exists>s'. bi_save_ctnode s i n = (Inr (), s') \<and>
      bi_content content s' = snd (ms_save_ctnode (bi_content content s) i n) \<and> bi_ok ok s'"
    using assms b by (auto simp: bi_save_ctnode_def with_storage_def bi_content_def Let_def bi_ok_def ms_save_ctnode_def
      update_conv' distinct_update dest!: update_set)
  show "\<exists>s'. bi_save_compressed_trie s t = (Inr (), s') \<and>
      bi_content content s' = snd (ms_save_compressed_trie (bi_content content s) t) \<and> bi_ok ok s'"
    using assms b by (auto simp: bi_save_compressed_trie_def with_storage_def bi_content_def Let_def bi_ok_def
      ms_save_compressed_trie_def update_conv' distinct_update dest!: update_set)
  show "\<exists>s'. bi_save_store_element s i k v = (Inr (), s') \<and>
      bi_content content s' = snd (ms_save_store_element (bi_content content s) i k v) \<and> bi_ok ok s'"
    using assms b by (auto simp: bi_save_store_element_def with_storage_def bi_content_def Let_def bi_ok_def
      ms_save_store_element_def update_conv' distinct_update)
qed

lemma bi_flush_refines:
  assumes "bi_ok ok s" "bi_flushable s i"
  shows "\<exists>s'. bi_flush ops s i = (Inr (), s') \<and> bi_content content s' = bi_content content s \<and> bi_ok ok s'"
proof -
  obtain b where b: "bi_storage s = Some b" "ok b" using bi_ok_cases [OF assms(1)] .
  obtain b' where b': "bo_flush ops b i (map snd (bi_nodes s)) (map snd (bi_tries s))
      (map (\<lambda>(k, v). (snd k, v)) (bi_elements s)) = (Inr (), b')" "ok b'"
    "content b' = snd (ms_batch_flush (content b) i (map snd (bi_nodes s)) (map snd (bi_tries s))
      (map (\<lambda>(k, v). (snd k, v)) (bi_elements s)))"
    using batch_flush [OF b(2)] by blast
  have "map_of (rev (map (\<lambda>n. ((i, s_label n), n)) (map snd (bi_nodes s)))) = map_of (bi_nodes s)"
    "map_of (rev (map (\<lambda>t. (ti_id t, t)) (map snd (bi_tries s)))) = map_of (bi_tries s)"
    "map_of (rev (map (\<lambda>(k, v). ((i, k), v)) (map (\<lambda>(k, v). (snd k, v)) (bi_elements s)))) = map_of (bi_elements s)"
    using assms b by (intro flush_lists; auto simp: bi_ok_def bi_flushable_def)+
  note l = this
  have "content b' = bi_content content s"
    unfolding b'(3) ms_batch_flush_def l snd_conv using b(1) by (simp add: bi_content_def Let_def)
  then show ?thesis
    using b b'(1,2) by (simp add: bi_flush_def with_storage_def bi_content_def bi_ok_def Let_def)
qed

lemma bi_delete_refines:
  assumes "bi_ok ok s"
  shows "\<exists>s'. bi_delete_ozks ops s i = (Inr (), s') \<and>
    bi_content content s' = snd (ms_delete_ozks (bi_content content s) i) \<and> bi_ok ok s'"
proof -
  obtain b where b: "bi_storage s = Some b" "ok b" using bi_ok_cases [OF assms] .
  obtain b' where b': "so_delete_ozks ops b i = (Inr (), b')" "content b' = snd (ms_delete_ozks (content b) i)" "ok b'"
    using delete [OF b(2)] by blast
  have t: "m(i := None) = m |` {k. k \<noteq> i}" for m :: "trie_id_type \<rightharpoonup> trie_info"
    by (auto simp: restrict_map_def)
  show ?thesis
    using assms b b'
    by (auto simp: bi_delete_ozks_def with_storage_def bi_content_def bi_ok_def Let_def ms_delete_ozks_def t
      add_restrict distinct_map_filter map_of_filter_keys [of "\<lambda>k. fst k \<noteq> i"] map_of_filter_keys [of "\<lambda>k. k \<noteq> i"])
qed

end

sublocale batch_storage \<subseteq> inserter: storage "inserter_ops ops" "bi_content content" "bi_ok ok" bi_flushable
  by unfold_locales (simp_all add: inserter_ops_def bi_load_refines bi_save_refines bi_flush_refines bi_delete_refines)

text \<open>A cache in front of an inserter in front of the memory storage.\<close>

interpretation memory_inserter: storage "inserter_ops memory_batch_ops" "bi_content (\<lambda>s. s)" "bi_ok (\<lambda>_. True)" bi_flushable
  by (rule memory_batch.inserter.storage_axioms)

interpretation cached_inserter: cached_storage "inserter_ops memory_batch_ops" "bi_content (\<lambda>s. s)" "bi_ok (\<lambda>_. True)" bi_flushable
  by unfold_locales

end
