(* ===== verification/Storage_Stack.thy ===== *)
theory Storage_Stack
  imports Storage
begin

text \<open>
  The storages stacked as the program uses them: a \<open>MemoryStorageCache\<close> over a
  \<open>MemoryStorageBatchInserter\<close> over the memory storage, and sequences of calls. A client that uses one
  trie id gets the answers that \<open>MemoryStorage\<close> alone would give, whatever the caches drop and wherever
  it flushes.
\<close>

section \<open>The stack of storages\<close>

text \<open>A cache over a batch inserter over the memory storage; the caches drop entries as they like.\<close>

type_synonym storage_stack = "memory_storage batch_inserter storage_cache"

definition stack_ops :: "storage_stack storage_ops" where
  "stack_ops = cache_ops (inserter_ops memory_batch_ops)"

definition empty_lru :: "(nat \<Rightarrow> 'k set) \<Rightarrow> ('k, 'v) lru" where
  "empty_lru evict = \<lparr>lru_map = Map.empty, lru_time = 0, lru_evict = evict\<rparr>"

definition stack_new ::
  "(nat \<Rightarrow> node_key set) \<Rightarrow> (nat \<Rightarrow> trie_id_type set) \<Rightarrow> (nat \<Rightarrow> element_key set) \<Rightarrow> memory_storage \<Rightarrow> storage_stack" where
  "stack_new en et ee m =
     \<lparr>ca_storage = \<lparr>bi_storage = Some m, bi_nodes = [], bi_tries = [], bi_elements = []\<rparr>,
      ca_nodes = empty_lru en, ca_tries = empty_lru et, ca_elements = empty_lru ee\<rparr>"

abbreviation stack_content :: "storage_stack \<Rightarrow> memory_storage" where
  "stack_content c \<equiv> bi_content (\<lambda>s. s) (ca_storage c)"

abbreviation stack_ok :: "storage_stack \<Rightarrow> bool" where
  "stack_ok \<equiv> cache_ok (bi_content (\<lambda>s. s)) (bi_ok (\<lambda>_. True))"

lemma stack_new_ok: "stack_ok (stack_new en et ee m)" "stack_content (stack_new en et ee m) = m"
  by (simp_all add: stack_new_def cache_ok_def bi_ok_def bi_content_def lru_agrees_def empty_lru_def Let_def)

lemmas stack_contract = cached_inserter.cached.storage_axioms [folded stack_ops_def]

interpretation stack: storage stack_ops "\<lambda>c. stack_content c" stack_ok "\<lambda>c i. bi_flushable (ca_storage c) i"
  by (rule stack_contract)

text \<open>After a flush of the only trie the memory storage itself holds the content.\<close>

lemma stack_flush:
  assumes "stack_ok c" "bi_flushable (ca_storage c) i"
  obtains c' where "so_flush stack_ops c i = (Inr (), c')" "bi_storage (ca_storage c') = Some (stack_content c)"
proof -
  obtain c' where c': "so_flush stack_ops c i = (Inr (), c')" "stack_content c' = stack_content c" "stack_ok c'"
    using stack.flush [OF assms] by auto
  obtain m where m: "bi_storage (ca_storage c') = Some m"
    using c'(3) by (auto simp: cache_ok_def bi_ok_def split: option.splits)
  have "bi_nodes (ca_storage c') = [] \<and> bi_tries (ca_storage c') = [] \<and> bi_elements (ca_storage c') = []"
    using c'(1) assms(1)
    by (auto simp: stack_ops_def cache_defs inserter_ops_def bi_flush_def with_storage_def Let_def cache_ok_def bi_ok_def
        split: option.splits prod.splits)
  then have "stack_content c' = m" using m by (simp add: bi_content_def)
  then show ?thesis using that c' m by simp
qed

section \<open>Sequences of calls\<close>

datatype storage_call =
    LoadNode trie_id_type partial_label
  | PutNode trie_id_type stored_node
  | LoadTrie trie_id_type
  | PutTrie trie_info
  | LoadElement trie_id_type "byte list"
  | PutElement trie_id_type "byte list" store_value
  | Flush trie_id_type
  | DeleteOzks trie_id_type

datatype storage_answer =
    NodeAnswer "stored_node option result"
  | TrieAnswer "trie_info option result"
  | ElementAnswer "store_value option result"
  | Done "unit result"

definition perform :: "('s, 'm) storage_ops_scheme \<Rightarrow> storage_call \<Rightarrow> 's \<Rightarrow> storage_answer \<times> 's" where
  "perform ops c s =
     (case c of
        LoadNode i l \<Rightarrow> apfst NodeAnswer (so_load_ctnode ops s i l)
      | PutNode i n \<Rightarrow> apfst Done (so_save_ctnode ops s i n)
      | LoadTrie i \<Rightarrow> apfst TrieAnswer (so_load_compressed_trie ops s i)
      | PutTrie t \<Rightarrow> apfst Done (so_save_compressed_trie ops s t)
      | LoadElement i k \<Rightarrow> apfst ElementAnswer (so_load_store_element ops s i k)
      | PutElement i k v \<Rightarrow> apfst Done (so_save_store_element ops s i k v)
      | Flush i \<Rightarrow> apfst Done (so_flush ops s i)
      | DeleteOzks i \<Rightarrow> apfst Done (so_delete_ozks ops s i))"

fun answers :: "('s, 'm) storage_ops_scheme \<Rightarrow> storage_call list \<Rightarrow> 's \<Rightarrow> storage_answer list" where
  "answers ops [] s = []"
| "answers ops (c # cs) s = (case perform ops c s of (a, s) \<Rightarrow> a # answers ops cs s)"

text \<open>The trie a call is about.\<close>

fun call_id :: "storage_call \<Rightarrow> trie_id_type" where
  "call_id (LoadNode i _) = i"
| "call_id (PutNode i _) = i"
| "call_id (LoadTrie i) = i"
| "call_id (PutTrie t) = ti_id t"
| "call_id (LoadElement i _) = i"
| "call_id (PutElement i _ _) = i"
| "call_id (Flush i) = i"
| "call_id (DeleteOzks i) = i"

lemma perform_memory: "perform memory_ops c m =
     (case c of
        LoadNode i l \<Rightarrow> (NodeAnswer (Inr (ms_nodes m (i, l))), m)
      | PutNode i n \<Rightarrow> (Done (Inr ()), snd (ms_save_ctnode m i n))
      | LoadTrie i \<Rightarrow> (TrieAnswer (Inr (ms_tries m i)), m)
      | PutTrie t \<Rightarrow> (Done (Inr ()), snd (ms_save_compressed_trie m t))
      | LoadElement i k \<Rightarrow> (ElementAnswer (Inr (ms_store m (i, k))), m)
      | PutElement i k v \<Rightarrow> (Done (Inr ()), snd (ms_save_store_element m i k v))
      | Flush i \<Rightarrow> (Done (Inr ()), m)
      | DeleteOzks i \<Rightarrow> (Done (Inr ()), snd (ms_delete_ozks m i)))"
  by (simp add: perform_def memory_ops_def ms_defs split: storage_call.split)

context storage
begin

text \<open>A call simulates the call on the memory storage.\<close>

lemma perform_simulates:
  assumes "ok s" "\<forall>i. c = Flush i \<longrightarrow> flushable s i"
  obtains a s' where "perform ops c s = (a, s')" "perform memory_ops c (content s) = (a, content s')" "ok s'"
proof -
  have "\<exists>a s'. perform ops c s = (a, s') \<and> perform memory_ops c (content s) = (a, content s') \<and> ok s'"
  proof (cases c)
    case (LoadNode i l)
    then show ?thesis using load_ctnode [OF assms(1), of i l] by (auto simp: perform_memory perform_def [of ops])
  next
    case (PutNode i n)
    then show ?thesis using save_ctnode [OF assms(1), of i n] by (auto simp: perform_memory perform_def [of ops])
  next
    case (LoadTrie i)
    then show ?thesis using load_trie [OF assms(1), of i] by (auto simp: perform_memory perform_def [of ops])
  next
    case (PutTrie t)
    then show ?thesis using save_trie [OF assms(1), of t] by (auto simp: perform_memory perform_def [of ops])
  next
    case (LoadElement i k)
    then show ?thesis using load_element [OF assms(1), of i k] by (auto simp: perform_memory perform_def [of ops])
  next
    case (PutElement i k v)
    then show ?thesis using save_element [OF assms(1), of i k v] by (auto simp: perform_memory perform_def [of ops])
  next
    case (Flush i)
    then show ?thesis using flush [OF assms(1), of i] assms(2) by (auto simp: perform_memory perform_def [of ops])
  next
    case (DeleteOzks i)
    then show ?thesis using delete [OF assms(1), of i] by (auto simp: perform_memory perform_def [of ops])
  qed
  then show ?thesis using that by blast
qed

lemma answers_simulate:
  "ok s \<Longrightarrow> \<forall>i. Flush i \<notin> set cs \<Longrightarrow> answers ops cs s = answers memory_ops cs (content s)"
proof (induction cs arbitrary: s)
  case (Cons c cs)
  obtain a s' where p: "perform ops c s = (a, s')" "perform memory_ops c (content s) = (a, content s')" "ok s'"
    by (rule perform_simulates [OF Cons.prems(1), of c]) (use Cons.prems(2) in auto)
  then show ?case using Cons.IH [OF p(3)] Cons.prems(2) by simp
qed simp

end

text \<open>A call about the only trie leaves the inserter flushable.\<close>

lemma bi_nodes_flushable:
  "bi_nodes s' = bi_nodes s \<Longrightarrow> bi_elements s' = bi_elements s \<Longrightarrow> bi_flushable s' i = bi_flushable s i"
  by (simp add: bi_flushable_def)

lemma perform_flushable:
  assumes "perform stack_ops c s = (a, s')" "call_id c = i" "bi_flushable (ca_storage s) i"
  shows "bi_flushable (ca_storage s') i"
  using assms
  by (cases c)
    (auto simp: perform_def stack_ops_def cache_defs inserter_ops_def bi_load_ctnode_def bi_load_compressed_trie_def
      bi_load_store_element_def bi_save_ctnode_def bi_save_compressed_trie_def bi_save_store_element_def bi_flush_def
      bi_delete_ozks_def with_storage_def bi_flushable_def Let_def
      split: option.splits prod.splits sum.splits dest!: update_set)

lemma stack_answers:
  "stack_ok s \<Longrightarrow> \<forall>c \<in> set cs. call_id c = i \<Longrightarrow> bi_flushable (ca_storage s) i \<Longrightarrow>
    answers stack_ops cs s = answers memory_ops cs (stack_content s)"
proof (induction cs arbitrary: s)
  case (Cons c cs)
  have id: "call_id c = i" using Cons.prems(2) by simp
  obtain a s' where p: "perform stack_ops c s = (a, s')" "perform memory_ops c (stack_content s) = (a, stack_content s')" "stack_ok s'"
    by (rule stack.perform_simulates [OF Cons.prems(1), of c]) (use Cons.prems(3) id in auto)
  have "bi_flushable (ca_storage s') i" by (rule perform_flushable [OF p(1) id Cons.prems(3)])
  then show ?case using Cons.IH [OF p(3)] Cons.prems(2) p by simp
qed simp

end
