(* ===== verification/Trie_Storage.thy ===== *)
theory Trie_Storage
  imports Compressed_Trie Storage_Stack
begin

text \<open>
  The trie and its storage: the writes of an insertion reach a storage, and loading gives the trie
  back (\<open>CompressedTrie::LoadFromStorage\<close>, \<open>LoadFromStorageWithChildren\<close>,
  \<open>CTNodeLinked::load_from_storage\<close>, and the navigation of \<open>CTNodeStored\<close>). The lemmas hold for every
  storage that keeps the contract \<open>storage\<close>.
\<close>

section \<open>Writing\<close>

text \<open>The storage performs the events of a trie in order; an exception stops.\<close>

definition store_event :: "('s, 'm) storage_ops_scheme \<Rightarrow> storage_event \<Rightarrow> 's \<Rightarrow> unit result \<times> 's" where
  "store_event ops e s =
     (case e of
        SaveNode i n \<Rightarrow> so_save_ctnode ops s i n
      | SaveTrie i epoch threads ty \<Rightarrow>
          so_save_compressed_trie ops s \<lparr>ti_id = i, ti_epoch = epoch, ti_thread_count = threads, ti_type = ty\<rparr>)"

fun store_events :: "('s, 'm) storage_ops_scheme \<Rightarrow> storage_event list \<Rightarrow> 's \<Rightarrow> unit result \<times> 's" where
  "store_events ops [] s = (Inr (), s)"
| "store_events ops (e # es) s =
     (case store_event ops e s of (Inl err, s) \<Rightarrow> (Inl err, s) | (Inr _, s) \<Rightarrow> store_events ops es s)"

section \<open>Loading\<close>

text \<open>
  The children of a linked node are loaded with their subtrees. A storage may hold labels in a
  circle; then the code does not return, which is the value \<open>None\<close>.
\<close>

partial_function (option) load_from_storage ::
  "('s, 'm) storage_ops_scheme \<Rightarrow> trie_id_type \<Rightarrow> ctnode \<Rightarrow> partial_label \<Rightarrow> partial_label \<Rightarrow> 's \<Rightarrow>
    (ctnode result \<times> 's) option" where
  "load_from_storage ops i n left right s =
     Option.bind
       (if pl_empty left then Some (Inr n, s)
        else (case so_load_ctnode ops s i left of
          (Inl e, s) \<Rightarrow> Some (Inl e, s)
        | (Inr None, s) \<Rightarrow> Some (Inl (RuntimeError ''Could not load node''), s)
        | (Inr (Some snode), s) \<Rightarrow>
            Option.bind (load_from_storage ops i (new_leaf_hash (s_label snode) (clear_lsb (s_hash snode)))
                (s_left snode) (s_right snode) s)
              (\<lambda>(r, s). case r of Inl e \<Rightarrow> Some (Inl e, s) | Inr c \<Rightarrow> Some (Inr (set_left_node c n), s))))
       (\<lambda>(r, s). case r of Inl e \<Rightarrow> Some (Inl e, s) | Inr n \<Rightarrow>
         Option.bind
           (if pl_empty right then Some (Inr n, s)
            else (case so_load_ctnode ops s i right of
              (Inl e, s) \<Rightarrow> Some (Inl e, s)
            | (Inr None, s) \<Rightarrow> Some (Inl (RuntimeError ''Could not load node''), s)
            | (Inr (Some snode), s) \<Rightarrow>
                Option.bind (load_from_storage ops i (new_leaf_hash (s_label snode) (clear_lsb (s_hash snode)))
                    (s_left snode) (s_right snode) s)
                  (\<lambda>(r, s). case r of Inl e \<Rightarrow> Some (Inl e, s) | Inr c \<Rightarrow> Some (Inr (set_right_node c n), s))))
           (\<lambda>(r, s). case r of Inl e \<Rightarrow> Some (Inl e, s) | Inr n \<Rightarrow>
             Some (Inr (case n of Nullptr \<Rightarrow> Nullptr | Node lbl h l r \<Rightarrow> Node lbl (set_dirty_bit False h) l r), s)))"

text \<open>The storage pointer is not null. The result is \<open>None\<close> when there is no trie with the id.\<close>

definition LoadFromStorageWithChildren ::
  "('s, 'm) storage_ops_scheme \<Rightarrow> trie_id_type \<Rightarrow> 's \<Rightarrow> (trie option result \<times> 's) option" where
  "LoadFromStorageWithChildren ops trie_id s =
     (case so_load_compressed_trie ops s trie_id of
        (Inl e, s) \<Rightarrow> Some (Inl e, s)
      | (Inr None, s) \<Rightarrow> Some (Inr None, s)
      | (Inr (Some info), s) \<Rightarrow>
          (case so_load_ctnode ops s trie_id pl_default of
             (Inl e, s) \<Rightarrow> Some (Inl e, s)
           | (Inr None, s) \<Rightarrow> Some (Inl (RuntimeError ''Could not load root''), s)
           | (Inr (Some snode), s) \<Rightarrow>
               Option.bind (load_from_storage ops (ti_id info)
                   (new_leaf_hash (s_label snode) (clear_lsb (s_hash snode))) (s_left snode) (s_right snode) s)
                 (\<lambda>(r, s). case r of
                    Inl e \<Rightarrow> Some (Inl e, s)
                  | Inr root \<Rightarrow>
                      Some (Inr (Some \<lparr>tr_root = root, tr_epoch = ti_epoch info, tr_id = ti_id info, tr_storage = True,
                         tr_thread_count = ti_thread_count info, tr_type = Linked\<rparr>), s))))"

text \<open>The trie of stored nodes: its root is loaded, the other nodes on demand.\<close>

definition LoadFromStorage ::
  "('s, 'm) storage_ops_scheme \<Rightarrow> trie_id_type \<Rightarrow> 's \<Rightarrow> (trie_info \<times> stored_node) option result \<times> 's" where
  "LoadFromStorage ops trie_id s =
     (case so_load_compressed_trie ops s trie_id of
        (Inl e, s) \<Rightarrow> (Inl e, s)
      | (Inr None, s) \<Rightarrow> (Inr None, s)
      | (Inr (Some info), s) \<Rightarrow>
          (case so_load_ctnode ops s trie_id pl_default of
             (Inl e, s) \<Rightarrow> (Inl e, s)
           | (Inr None, s) \<Rightarrow> (Inl (RuntimeError ''Could not load root''), s)
           | (Inr (Some root), s) \<Rightarrow> (Inr (Some (info\<lparr>ti_type := Stored\<rparr>, root)), s)))"

section \<open>Stored nodes\<close>

definition stored_is_leaf :: "stored_node \<Rightarrow> bool" where
  "stored_is_leaf n = (pl_empty (s_left n) \<and> pl_empty (s_right n))"

text \<open>A child is loaded; without it the pointer is null.\<close>

definition stored_left ::
  "('s, 'm) storage_ops_scheme \<Rightarrow> trie_id_type \<Rightarrow> stored_node \<Rightarrow> 's \<Rightarrow> stored_node option result \<times> 's" where
  "stored_left ops i n s = (if \<not> pl_empty (s_left n) then so_load_ctnode ops s i (s_left n) else (Inr None, s))"

definition stored_right ::
  "('s, 'm) storage_ops_scheme \<Rightarrow> trie_id_type \<Rightarrow> stored_node \<Rightarrow> 's \<Rightarrow> stored_node option result \<times> 's" where
  "stored_right ops i n s = (if \<not> pl_empty (s_right n) then so_load_ctnode ops s i (s_right n) else (Inr None, s))"

definition stored_set_left :: "partial_label \<Rightarrow> stored_node \<Rightarrow> stored_node" where
  "stored_set_left lbl n = StoredNode (s_label n) (set_dirty_bit True (s_hash n)) lbl (s_right n)"

definition stored_set_right :: "partial_label \<Rightarrow> stored_node \<Rightarrow> stored_node" where
  "stored_set_right lbl n = StoredNode (s_label n) (set_dirty_bit True (s_hash n)) (s_left n) lbl"

definition stored_save_to_storage ::
  "('s, 'm) storage_ops_scheme \<Rightarrow> trie_id_type \<Rightarrow> bool \<Rightarrow> stored_node \<Rightarrow> 's \<Rightarrow> unit result \<times> 's" where
  "stored_save_to_storage ops i has_storage n s = (if has_storage then so_save_ctnode ops s i n else (Inr (), s))"

section \<open>A tree in a storage\<close>

definition tree_stored :: "(node_key \<rightharpoonup> stored_node) \<Rightarrow> trie_id_type \<Rightarrow> ctnode \<Rightarrow> bool" where
  "tree_stored m i t = (\<forall>n \<in> set (ct_nodes t). m (i, node_label n) = Some (save_node n))"

text \<open>The labels of a tree are distinct.\<close>

definition labels_unique :: "ctnode \<Rightarrow> bool" where
  "labels_unique t = (\<forall>m \<in> set (ct_nodes t). \<forall>n \<in> set (ct_nodes t). node_label m = node_label n \<longrightarrow> m = n)"

lemma nodes_extend: "ct_wf t \<Longrightarrow> n \<in> set (ct_nodes t) \<Longrightarrow> is_prefix (pl_bits (node_label t)) (pl_bits (node_label n))"
proof (induction t)
  case (Node lbl h l r)
  show ?case
  proof (cases "n = Node lbl h l r")
    case False
    then obtain c b where c: "c \<in> {l, r}" "ct_wf c" "is_prefix (pl_bits lbl @ [b]) (pl_bits (node_label c))" "n \<in> set (ct_nodes c)"
      using Node.prems by auto
    then have "is_prefix (pl_bits (node_label c)) (pl_bits (node_label n))" using Node.IH by auto
    from is_prefix_trans [OF is_prefix_trans [OF is_prefix_append c(3)] this]
    show ?thesis by (simp add: node_label_def)
  qed (simp add: node_label_def)
qed simp

lemma branch_nodes:
  assumes "ct_wf c" "is_prefix (p @ [b]) (pl_bits (node_label c))" "n \<in> set (ct_nodes c)"
  shows "is_prefix (p @ [b]) (pl_bits (node_label n))"
  by (rule is_prefix_trans [OF assms(2) nodes_extend [OF assms(1,3)]])

lemma branches_differ:
  assumes "is_prefix (p @ [False]) xs" "is_prefix (p @ [True]) ys"
  shows "xs \<noteq> ys" "xs \<noteq> p" "ys \<noteq> p"
  using assms by (auto simp: is_prefix_iff)

lemma labels_unique_node:
  assumes "labels_unique l" "labels_unique r"
    and "\<And>n. n \<in> set (ct_nodes l) \<Longrightarrow> is_prefix (pl_bits lbl @ [False]) (pl_bits (node_label n))"
    and "\<And>n. n \<in> set (ct_nodes r) \<Longrightarrow> is_prefix (pl_bits lbl @ [True]) (pl_bits (node_label n))"
  shows "labels_unique (Node lbl h l r)"
  unfolding labels_unique_def
proof (intro ballI impI)
  fix m n assume mn: "m \<in> set (ct_nodes (Node lbl h l r))" "n \<in> set (ct_nodes (Node lbl h l r))" "node_label m = node_label n"
  have top: "node_label (Node lbl h l r) = lbl" by (simp add: node_label_def)
  have cross: "False" if "x \<in> set (ct_nodes l)" "y \<in> set (ct_nodes r)" "node_label x = node_label y" for x y
    using branches_differ(1) [OF assms(3) [OF that(1)] assms(4) [OF that(2)]] that(3) by simp
  have self: "False" if "x \<in> set (ct_nodes l) \<or> x \<in> set (ct_nodes r)" "node_label x = lbl" for x
    using that(1)
  proof
    assume "x \<in> set (ct_nodes l)"
    then show False using assms(3) [of x] that(2) by (simp add: is_prefix_iff)
  next
    assume "x \<in> set (ct_nodes r)"
    then show False using assms(4) [of x] that(2) by (simp add: is_prefix_iff)
  qed
  have u: "x = y" if "x \<in> set (ct_nodes l) \<and> y \<in> set (ct_nodes l) \<or> x \<in> set (ct_nodes r) \<and> y \<in> set (ct_nodes r)"
    "node_label x = node_label y" for x y
    using assms(1,2) that unfolding labels_unique_def by blast
  have "m = Node lbl h l r \<or> m \<in> set (ct_nodes l) \<or> m \<in> set (ct_nodes r)"
    "n = Node lbl h l r \<or> n \<in> set (ct_nodes l) \<or> n \<in> set (ct_nodes r)" using mn(1,2) by simp_all
  then show "m = n"
  proof (elim disjE)
    assume "m = Node lbl h l r" "n \<in> set (ct_nodes l)"
    then show ?thesis using self [of n] mn(3) top by simp
  next
    assume "m = Node lbl h l r" "n \<in> set (ct_nodes r)"
    then show ?thesis using self [of n] mn(3) top by simp
  next
    assume "m \<in> set (ct_nodes l)" "n = Node lbl h l r"
    then show ?thesis using self [of m] mn(3) top by simp
  next
    assume "m \<in> set (ct_nodes r)" "n = Node lbl h l r"
    then show ?thesis using self [of m] mn(3) top by simp
  next
    assume "m \<in> set (ct_nodes l)" "n \<in> set (ct_nodes r)"
    then show ?thesis using cross mn(3) by blast
  next
    assume "m \<in> set (ct_nodes r)" "n \<in> set (ct_nodes l)"
    then show ?thesis using cross [of n m] mn(3) by simp
  qed (use u mn(3) in simp_all)
qed

lemma wf_labels_unique: "ct_wf t \<Longrightarrow> labels_unique t"
proof (induction t)
  case (Node lbl h l r)
  then consider "l = Nullptr" "r = Nullptr" | "ct_wf l" "ct_wf r" by auto
  then show ?case
  proof cases
    case 2
    then have "is_prefix (pl_bits lbl @ [False]) (pl_bits (node_label l))" "is_prefix (pl_bits lbl @ [True]) (pl_bits (node_label r))"
      using Node.prems by auto
    then show ?thesis using Node.IH 2 branch_nodes by (intro labels_unique_node) blast+
  qed (simp add: labels_unique_def)
qed (simp add: labels_unique_def)

lemma root_labels_unique:
  assumes "root_wf t"
  shows "labels_unique t"
proof -
  obtain h l r where t: "t = Node pl_default h l r" "child_wf False l" "child_wf True r"
    using assms by (auto simp: root_wf_def split: ctnode.splits)
  have u: "labels_unique c" if "child_wf b c" for b c
    using that wf_labels_unique [of c] by (auto simp: child_wf_def labels_unique_def)
  have p: "is_prefix (pl_bits pl_default @ [b]) (pl_bits (node_label n))" if "child_wf b c" "n \<in> set (ct_nodes c)" for b c n
    using that branch_nodes [of c "[]" b n] by (auto simp: child_wf_def)
  show ?thesis unfolding t(1) by (intro labels_unique_node u [OF t(2)] u [OF t(3)] p [OF t(2)] p [OF t(3)])
qed

text \<open>Saving nodes into the map, in order.\<close>

definition save_all :: "trie_id_type \<Rightarrow> stored_node list \<Rightarrow> (node_key \<rightharpoonup> stored_node) \<Rightarrow> (node_key \<rightharpoonup> stored_node)" where
  "save_all i ns m = foldl (\<lambda>m n. m((i, s_label n) \<mapsto> n)) m ns"

lemma save_all_append: "save_all i (xs @ ys) m = save_all i ys (save_all i xs m)"
  by (simp add: save_all_def)

lemma save_all_lookup:
  assumes "\<forall>n \<in> set ns. s_label n = lbl \<longrightarrow> n = x" "s_label x = lbl" "x \<in> set ns \<or> m (i, lbl) = Some x"
  shows "save_all i ns m (i, lbl) = Some x"
  using assms
proof (induction ns arbitrary: m)
  case (Cons n ns)
  have "save_all i ns (m((i, s_label n) \<mapsto> n)) (i, lbl) = Some x"
    by (rule Cons.IH) (use Cons.prems in auto)
  then show ?case by (simp add: save_all_def)
qed (simp add: save_all_def)

lemma save_node_label: "n \<noteq> Nullptr \<Longrightarrow> s_label (save_node n) = node_label n"
  by (cases n) (simp_all add: save_node_def node_label_def)

lemma nodes_not_null: "n \<in> set (ct_nodes t) \<Longrightarrow> n \<noteq> Nullptr"
  by (induction t) auto

lemma saves_stored:
  assumes "saves_ok t t' ss" "labels_unique t'" "tree_stored m i t"
  shows "tree_stored (save_all i ss m) i t'"
  unfolding tree_stored_def
proof
  fix n assume n: "n \<in> set (ct_nodes t')"
  have s: "set ss \<subseteq> save_node ` set (ct_nodes t')" "save_node ` set (ct_nodes t') \<subseteq> set ss \<union> save_node ` set (ct_nodes t)"
    using assms(1) by (simp_all add: saves_ok_def)
  have lbl: "s_label (save_node n) = node_label n" by (rule save_node_label [OF nodes_not_null [OF n]])
  show "save_all i ss m (i, node_label n) = Some (save_node n)"
  proof (rule save_all_lookup [OF _ lbl])
    show "\<forall>x \<in> set ss. s_label x = node_label n \<longrightarrow> x = save_node n"
    proof (intro ballI impI)
      fix x assume x: "x \<in> set ss" "s_label x = node_label n"
      then obtain y where y: "y \<in> set (ct_nodes t')" "x = save_node y" using s(1) by blast
      then have "node_label y = node_label n" using x(2) save_node_label [OF nodes_not_null [OF y(1)]] by simp
      then show "x = save_node n" using assms(2) n y by (auto simp: labels_unique_def)
    qed
    have "save_node n \<in> set ss \<or> (\<exists>y \<in> set (ct_nodes t). save_node n = save_node y)" using s(2) n by blast
    then show "save_node n \<in> set ss \<or> m (i, node_label n) = Some (save_node n)"
    proof (elim disjE bexE)
      fix y assume y: "y \<in> set (ct_nodes t)" "save_node n = save_node y"
      then have "node_label y = node_label n" using lbl save_node_label [OF nodes_not_null [OF y(1)]] by simp
      then show ?thesis using assms(3) y by (auto simp: tree_stored_def)
    qed simp
  qed
qed

text \<open>Clean hashes everywhere and labels below the node: what a loaded tree has.\<close>

fun ct_clean :: "ctnode \<Rightarrow> bool" where
  "ct_clean Nullptr = True"
| "ct_clean (Node lbl h l r) =
     (is_hash h \<and> \<not> dirty_bit h \<and> (l = Nullptr \<or> \<not> pl_empty (node_label l)) \<and>
      (r = Nullptr \<or> \<not> pl_empty (node_label r)) \<and> ct_clean l \<and> ct_clean r)"

lemma extends_nonempty: "is_prefix (xs @ [b]) (pl_bits l) \<Longrightarrow> \<not> pl_empty l"
  by (auto simp: is_prefix_iff pl_empty_bits)

lemma wf_clean: "ct_wf t \<Longrightarrow> ct_fresh t \<Longrightarrow> ct_clean t"
  by (induction t) (auto dest: extends_nonempty)

lemma root_clean:
  assumes "root_wf t" "root_fresh t"
  shows "ct_clean t"
proof -
  obtain h l r where t: "t = Node pl_default h l r" "is_hash h" "child_wf False l" "child_wf True r"
    using assms(1) by (auto simp: root_wf_def split: ctnode.splits)
  have c: "ct_clean c" "c = Nullptr \<or> \<not> pl_empty (node_label c)" if "child_wf b c" "ct_fresh c" for b c
    using that wf_clean extends_nonempty [of "[]" b] by (auto simp: child_wf_def)
  have "\<not> dirty_bit h" "ct_fresh l" "ct_fresh r" using assms(2) by (auto simp: root_fresh_def t(1))
  then show ?thesis using t c by auto
qed

lemma saved_clean:
  assumes "is_hash h" "\<not> dirty_bit h"
  shows "save_node (Node lbl h l r) = StoredNode lbl h (node_label l) (node_label r)"
    "new_leaf_hash lbl (clear_lsb h) = Node lbl h Nullptr Nullptr" "clear_lsb (set_dirty_bit b h) = h"
  using assms by (simp_all add: save_node_def new_leaf_hash_def set_dirty_False)

section \<open>The writes of an insertion\<close>

definition mem_event :: "memory_storage \<Rightarrow> storage_event \<Rightarrow> memory_storage" where
  "mem_event m e =
     (case e of
        SaveNode i n \<Rightarrow> snd (ms_save_ctnode m i n)
      | SaveTrie i epoch threads ty \<Rightarrow> snd (ms_save_compressed_trie m
          \<lparr>ti_id = i, ti_epoch = epoch, ti_thread_count = threads, ti_type = ty\<rparr>))"

lemma mem_events_nodes:
  "ms_nodes (foldl mem_event m (map (SaveNode i) ns)) = save_all i ns (ms_nodes m)"
  "ms_tries (foldl mem_event m (map (SaveNode i) ns)) = ms_tries m"
  by (induction ns arbitrary: m) (simp_all add: save_all_def mem_event_def ms_save_ctnode_def)

text \<open>A trie is persisted in maps that hold its nodes and its epoch.\<close>

definition info_of :: "trie \<Rightarrow> trie_info" where
  "info_of T = \<lparr>ti_id = tr_id T, ti_epoch = tr_epoch T, ti_thread_count = tr_thread_count T, ti_type = tr_type T\<rparr>"

definition persisted :: "memory_storage \<Rightarrow> trie \<Rightarrow> bool" where
  "persisted m T =
     (tr_storage T \<and> tree_stored (ms_nodes m) (tr_id T) (tr_root T) \<and> ms_tries m (tr_id T) = Some (info_of T))"

lemma trie_new_stored:
  "tree_stored (ms_nodes (foldl mem_event m (snd (trie_new i True ty n)))) i (tr_root (fst (trie_new i True ty n)))"
  by (simp add: trie_new_def Let_def node_events_def tree_stored_def mem_event_def ms_save_ctnode_def new_root_def
      save_node_def node_label_def)

lemma trie_insert_persists:
  assumes "trie_ok T L" "pl_valid k" "pl_bits k \<noteq> []" "fits k L" "tr_storage T"
    and "tree_stored (ms_nodes m) (tr_id T) (tr_root T)"
  obtains pf T' events where "trie_insert k h T = (Inr pf, T', events)"
    "trie_ok T' (insert (leaf_entry k h (tr_epoch T + 1)) L)" "tr_epoch T' = tr_epoch T + 1"
    "tr_id T' = tr_id T" "tr_type T' = tr_type T" "persisted (foldl mem_event m events) T'"
proof -
  let ?e = "tr_epoch T + 1"
  have t: "root_wf (tr_root T)" "ct_fresh (tr_root T)" "fits k (trie_leaves (tr_root T))"
    and L: "trie_leaves (tr_root T) = L"
    using assms(1,4) by (auto simp: trie_ok_def root_fresh_def)
  obtain t2 path s1 s2 t1 where r: "ct_insert k h ?e (tr_root T) = Inr (t1, s1)"
    "update_hashes k 0 t1 = (Inr (), t2, s2)" "ct_lookup k True t2 = Inr (True, path)"
    "root_wf t2" "root_fresh t2" "trie_leaves t2 = insert (leaf_entry k h ?e) (trie_leaves (tr_root T))"
    "saves_ok (tr_root T) t1 s1" "saves_ok t1 t2 s2" "root_wf t1"
    by (rule trie_insert_run [OF t(1,2) assms(2,3) t(3)])
  define T' where "T' = T\<lparr>tr_epoch := ?e, tr_root := t2\<rparr>"
  let ?ev = "node_events T (s1 @ s2) @ trie_save_to_storage T'"
  have ins: "trie_insert k h T = (Inr path, T', ?ev)"
    by (simp add: trie_insert_def Let_def T'_def r(1,2,3))
  have st: "tree_stored (save_all (tr_id T) (s1 @ s2) (ms_nodes m)) (tr_id T) t2"
    unfolding save_all_append
    by (rule saves_stored [OF r(8) root_labels_unique [OF r(4)]
          saves_stored [OF r(7) root_labels_unique [OF r(9)] assms(6)]])
  have "persisted (foldl mem_event m ?ev) T'"
    using assms(5) st mem_events_nodes(1) [of m "tr_id T" "s1 @ s2"]
    by (simp add: persisted_def node_events_def trie_save_to_storage_def T'_def mem_event_def
        ms_save_compressed_trie_def info_of_def del: map_append foldl_append)
       (simp add: mem_event_def ms_save_compressed_trie_def)
  then show ?thesis
    using that [OF ins] r L by (simp add: trie_ok_def T'_def)
qed

section \<open>Insertions into a stored trie\<close>

text \<open>Insertions one after the other whose writes the storage performs; the first exception stops.\<close>

fun insert_stored ::
  "('s, 'm) storage_ops_scheme \<Rightarrow> (partial_label \<times> hash_type) list \<Rightarrow> trie \<Rightarrow> 's \<Rightarrow> unit result \<times> trie \<times> 's" where
  "insert_stored ops [] T s = (Inr (), T, s)"
| "insert_stored ops ((k, h) # rest) T s =
     (case trie_insert k h T of (r, T, events) \<Rightarrow>
       (case store_events ops events s of
          (Inl e, s) \<Rightarrow> (Inl e, T, s)
        | (Inr _, s) \<Rightarrow>
            (case r of Inl e \<Rightarrow> (Inl e, T, s) | Inr _ \<Rightarrow> insert_stored ops rest T s)))"

text \<open>A new trie with the writes of its construction, and insertions into it.\<close>

definition new_stored ::
  "('s, 'm) storage_ops_scheme \<Rightarrow> trie_id_type \<Rightarrow> nat \<Rightarrow> (partial_label \<times> hash_type) list \<Rightarrow> 's \<Rightarrow>
    unit result \<times> trie \<times> 's" where
  "new_stored ops i threads kvs s =
     (case trie_new i True Linked threads of (T, events) \<Rightarrow>
       (case store_events ops events s of
          (Inl e, s) \<Rightarrow> (Inl e, T, s)
        | (Inr _, s) \<Rightarrow> insert_stored ops kvs T s))"

section \<open>Loading gives the tree back\<close>

context storage
begin

lemma load_from_storage_tree:
  "ct_clean t \<Longrightarrow> t = Node lbl h l r \<Longrightarrow> ok s \<Longrightarrow> tree_stored (ms_nodes (content s)) i t \<Longrightarrow>
    \<exists>s'. load_from_storage ops i (Node lbl h Nullptr Nullptr) (node_label l) (node_label r) s = Some (Inr t, s') \<and>
      content s' = content s \<and> ok s'"
proof (induction t arbitrary: lbl h l r s)
  case (Node lbl0 h0 l0 r0)
  have h: "is_hash h" "\<not> dirty_bit h" using Node.prems(1,2) by auto
  have step: "\<exists>s'. (if pl_empty (node_label c) then Some (Inr n, s0)
       else (case so_load_ctnode ops s0 i (node_label c) of
          (Inl e, s) \<Rightarrow> Some (Inl e, s)
        | (Inr None, s) \<Rightarrow> Some (Inl (RuntimeError ''Could not load node''), s)
        | (Inr (Some snode), s) \<Rightarrow>
            Option.bind (load_from_storage ops i (new_leaf_hash (s_label snode) (clear_lsb (s_hash snode)))
                (s_left snode) (s_right snode) s)
              (\<lambda>(r, s). case r of Inl e \<Rightarrow> Some (Inl e, s) | Inr c \<Rightarrow> Some (Inr (f c n), s)))) =
      Some (Inr (if c = Nullptr then n else f c n), s') \<and> content s' = content s \<and> ok s'"
    if c: "c = l \<or> c = r" and s0: "ok s0" "content s0 = content s" for c f n s0
  proof (cases c)
    case Nullptr
    then show ?thesis using s0 by (simp add: node_label_def pl_empty_def pl_default_def)
  next
    case cn: (Node lc hc lc' rc')
    have clean: "ct_clean c" and ne: "\<not> pl_empty (node_label c)" using Node.prems(1,2) c cn by auto
    have st: "tree_stored (ms_nodes (content s)) i c"
      using Node.prems(2,4) c by (auto simp: tree_stored_def)
    have hc: "is_hash hc" "\<not> dirty_bit hc" using clean cn by simp_all
    have lk: "ms_nodes (content s) (i, node_label c) = Some (StoredNode lc hc (node_label lc') (node_label rc'))"
      using st saved_clean(1) [OF hc, of lc lc' rc'] by (simp add: tree_stored_def cn)
    obtain s1 where s1: "so_load_ctnode ops s0 i (node_label c) = (Inr (ms_nodes (content s0) (i, node_label c)), s1)"
      "content s1 = content s0" "ok s1" using load_ctnode [OF s0(1)] by blast
    have st1: "tree_stored (ms_nodes (content s1)) i c" using st s1(2) s0(2) by simp
    obtain s2 where s2: "load_from_storage ops i (Node lc hc Nullptr Nullptr) (node_label lc') (node_label rc') s1 = Some (Inr c, s2)"
      "content s2 = content s1" "ok s2"
    proof -
      have "c = l0 \<or> c = r0" using c Node.prems(2) by simp
      then have "\<exists>s2. load_from_storage ops i (Node lc hc Nullptr Nullptr) (node_label lc') (node_label rc') s1 = Some (Inr c, s2) \<and>
          content s2 = content s1 \<and> ok s2"
        using Node.IH(1) [OF _ _ s1(3)] Node.IH(2) [OF _ _ s1(3)] clean cn st1 by (elim disjE) simp_all
      then show ?thesis using that by (elim exE conjE)
    qed
    show ?thesis
      using s1 s2 s0(2) ne lk saved_clean(2) [OF hc, of lc] cn by simp
  qed
  obtain s1 where s1: "(if pl_empty (node_label l) then Some (Inr (Node lbl h Nullptr Nullptr), s)
       else (case so_load_ctnode ops s i (node_label l) of
          (Inl e, s) \<Rightarrow> Some (Inl e, s)
        | (Inr None, s) \<Rightarrow> Some (Inl (RuntimeError ''Could not load node''), s)
        | (Inr (Some snode), s) \<Rightarrow>
            Option.bind (load_from_storage ops i (new_leaf_hash (s_label snode) (clear_lsb (s_hash snode)))
                (s_left snode) (s_right snode) s)
              (\<lambda>(r, s). case r of Inl e \<Rightarrow> Some (Inl e, s) | Inr c \<Rightarrow> Some (Inr (set_left_node c (Node lbl h Nullptr Nullptr)), s)))) =
      Some (Inr (if l = Nullptr then Node lbl h Nullptr Nullptr else set_left_node l (Node lbl h Nullptr Nullptr)), s1)"
    "content s1 = content s" "ok s1"
    using step [OF disjI1 [OF refl] Node.prems(3) refl, of "Node lbl h Nullptr Nullptr" set_left_node] by (elim exE conjE)
  let ?n = "if l = Nullptr then Node lbl h Nullptr Nullptr else set_left_node l (Node lbl h Nullptr Nullptr)"
  obtain s2 where s2: "(if pl_empty (node_label r) then Some (Inr ?n, s1)
       else (case so_load_ctnode ops s1 i (node_label r) of
          (Inl e, s) \<Rightarrow> Some (Inl e, s)
        | (Inr None, s) \<Rightarrow> Some (Inl (RuntimeError ''Could not load node''), s)
        | (Inr (Some snode), s) \<Rightarrow>
            Option.bind (load_from_storage ops i (new_leaf_hash (s_label snode) (clear_lsb (s_hash snode)))
                (s_left snode) (s_right snode) s)
              (\<lambda>(r, s). case r of Inl e \<Rightarrow> Some (Inl e, s) | Inr c \<Rightarrow> Some (Inr (set_right_node c ?n), s)))) =
      Some (Inr (if r = Nullptr then ?n else set_right_node r ?n), s2)" "content s2 = content s" "ok s2"
    using step [OF disjI2 [OF refl] s1(3,2), of ?n set_right_node] by (elim exE conjE)
  have fin: "(case if r = Nullptr then ?n else set_right_node r ?n of
      Nullptr \<Rightarrow> Nullptr | Node lbl h l r \<Rightarrow> Node lbl (set_dirty_bit False h) l r) = Node lbl h l r"
    using h by (simp add: set_dirty_False)
  show ?case
    unfolding Node.prems(2)
    by (subst load_from_storage.simps, unfold s1(1), unfold bind.bind_lunit prod.case sum.case, unfold s2(1),
        unfold bind.bind_lunit prod.case sum.case fin) (use s2(2,3) in blast)
qed simp

lemma store_events_content:
  "ok s \<Longrightarrow> \<exists>s'. store_events ops es s = (Inr (), s') \<and> ok s' \<and> content s' = foldl mem_event (content s) es"
proof (induction es arbitrary: s)
  case (Cons e es)
  obtain s1 where s1: "store_event ops e s = (Inr (), s1)" "ok s1" "content s1 = mem_event (content s) e"
    using save_ctnode [OF Cons.prems] save_trie [OF Cons.prems]
    by (cases e) (force simp: store_event_def mem_event_def)+
  then show ?case using Cons.IH [OF s1(2)] by simp
qed simp

lemma load_persisted:
  assumes "persisted (content s) T" "trie_ok T L" "ok s"
  shows "\<exists>s'. LoadFromStorageWithChildren ops (tr_id T) s = Some (Inr (Some (T\<lparr>tr_type := Linked\<rparr>)), s') \<and>
    content s' = content s \<and> ok s'"
proof -
  have p: "tr_storage T" "tree_stored (ms_nodes (content s)) (tr_id T) (tr_root T)"
    "ms_tries (content s) (tr_id T) = Some (info_of T)" using assms(1) by (simp_all add: persisted_def)
  have t: "root_wf (tr_root T)" "root_fresh (tr_root T)" using assms(2) by (simp_all add: trie_ok_def)
  obtain h l r where root: "tr_root T = Node pl_default h l r" using t(1) by (auto simp: root_wf_def split: ctnode.splits)
  have c: "ct_clean (tr_root T)" by (rule root_clean [OF t])
  have h: "is_hash h" "\<not> dirty_bit h" using c root by simp_all
  obtain s1 where s1: "so_load_compressed_trie ops s (tr_id T) = (Inr (Some (info_of T)), s1)" "content s1 = content s" "ok s1"
    using load_trie [OF assms(3), of "tr_id T"] p(3) by auto
  have "ms_nodes (content s1) (tr_id T, pl_default) = Some (save_node (tr_root T))"
    using p(2) s1(2) root by (simp add: tree_stored_def node_label_def)
  then obtain s2 where s2: "so_load_ctnode ops s1 (tr_id T) pl_default = (Inr (Some (save_node (tr_root T))), s2)"
    "content s2 = content s1" "ok s2" using load_ctnode [OF s1(3), of "tr_id T" pl_default] by auto
  have st: "tree_stored (ms_nodes (content s2)) (tr_id T) (tr_root T)" using p(2) s1(2) s2(2) by simp
  obtain s3 where s3: "load_from_storage ops (tr_id T) (Node pl_default h Nullptr Nullptr) (node_label l) (node_label r) s2 =
      Some (Inr (tr_root T), s3)" "content s3 = content s2" "ok s3"
    using load_from_storage_tree [OF c root s2(3) st] by blast
  have "LoadFromStorageWithChildren ops (tr_id T) s = Some (Inr (Some (T\<lparr>tr_type := Linked\<rparr>)), s3)"
    using s1(1) s2(1) s3(1) p(1) saved_clean(1) [OF h, of pl_default l r] saved_clean(2) [OF h, of pl_default] root
    by (simp add: LoadFromStorageWithChildren_def info_of_def)
  then show ?thesis using s3 s2 s1 by simp
qed

lemma load_children:
  assumes "ok s" "tree_stored (ms_nodes (content s)) i t" "ct_clean t" "n \<in> set (ct_nodes t)" "n = Node lbl h l r"
  shows "\<exists>s'. stored_left ops i (save_node n) s = (Inr (if l = Nullptr then None else Some (save_node l)), s') \<and>
      content s' = content s \<and> ok s'"
    and "\<exists>s'. stored_right ops i (save_node n) s = (Inr (if r = Nullptr then None else Some (save_node r)), s') \<and>
      content s' = content s \<and> ok s'"
proof -
  have sub: "set (ct_nodes l) \<subseteq> set (ct_nodes t)" "set (ct_nodes r) \<subseteq> set (ct_nodes t)" "ct_clean n"
    using assms(3-5) by (induction t) auto
  have e: "pl_empty (node_label c) \<longleftrightarrow> c = Nullptr" if "c = l \<or> c = r" for c
    using that sub(3) assms(5) by (auto simp: node_label_def pl_empty_def pl_default_def)
  have m: "ms_nodes (content s) (i, node_label c) = Some (save_node c)" if "c = l \<or> c = r" "c \<noteq> Nullptr" for c
  proof -
    have "c \<in> set (ct_nodes c)" using that(2) by (cases c) simp_all
    then have "c \<in> set (ct_nodes t)" using that(1) sub(1,2) by blast
    then show ?thesis using assms(2) by (simp add: tree_stored_def)
  qed
  have sv: "s_left (save_node n) = node_label l" "s_right (save_node n) = node_label r"
    by (simp_all add: assms(5) save_node_def)
  show "\<exists>s'. stored_left ops i (save_node n) s = (Inr (if l = Nullptr then None else Some (save_node l)), s') \<and>
      content s' = content s \<and> ok s'"
    using load_ctnode [OF assms(1), of i "node_label l"] e [of l] m [of l] assms(1)
    by (auto simp: stored_left_def sv)
  show "\<exists>s'. stored_right ops i (save_node n) s = (Inr (if r = Nullptr then None else Some (save_node r)), s') \<and>
      content s' = content s \<and> ok s'"
    using load_ctnode [OF assms(1), of i "node_label r"] e [of r] m [of r] assms(1)
    by (auto simp: stored_right_def sv)
qed

lemma insert_stored_ok:
  "ok s \<Longrightarrow> trie_ok T L \<Longrightarrow> labels_ok (map fst kvs) L \<Longrightarrow> tr_storage T \<Longrightarrow>
    tree_stored (ms_nodes (content s)) (tr_id T) (tr_root T) \<Longrightarrow>
    \<exists>T' s'. insert_stored ops kvs T s = (Inr (), T', s') \<and> ok s' \<and> trie_ok T' (L \<union> seq_leaves kvs (tr_epoch T)) \<and>
      tr_id T' = tr_id T \<and> tr_type T' = tr_type T \<and> (kvs \<noteq> [] \<longrightarrow> persisted (content s') T')"
proof (induction kvs arbitrary: T L s)
  case (Cons kv kvs)
  obtain k h where kv: "kv = (k, h)" by (cases kv)
  let ?le = "leaf_entry k h (tr_epoch T + 1)"
  have lok: "labels_ok (k # map fst kvs) L" using Cons.prems(3) kv by simp
  obtain pf T1 ev where i: "trie_insert k h T = (Inr pf, T1, ev)" "trie_ok T1 (insert ?le L)"
    "tr_epoch T1 = tr_epoch T + 1" "tr_id T1 = tr_id T" "tr_type T1 = tr_type T"
    "persisted (foldl mem_event (content s) ev) T1"
    by (rule trie_insert_persists [OF Cons.prems(2) labels_ok_Cons(1-3) [OF lok] Cons.prems(4,5)])
  obtain s1 where s1: "store_events ops ev s = (Inr (), s1)" "ok s1" "content s1 = foldl mem_event (content s) ev"
    using store_events_content [OF Cons.prems(1)] by blast
  have p: "persisted (content s1) T1" using i(6) s1(3) by simp
  have lok': "labels_ok (map fst kvs) (insert ?le L)"
    unfolding leaf_entry_def by (rule labels_ok_Cons(4) [OF lok])
  obtain T' s' where r: "insert_stored ops kvs T1 s1 = (Inr (), T', s')" "ok s'"
    "trie_ok T' (insert ?le L \<union> seq_leaves kvs (tr_epoch T1))" "tr_id T' = tr_id T1" "tr_type T' = tr_type T1"
    "kvs \<noteq> [] \<longrightarrow> persisted (content s') T'"
    using Cons.IH [OF s1(2) i(2) lok'] p by (auto simp: persisted_def)
  have "persisted (content s') T'" using r(1,6) p by (cases "kvs = []") auto
  moreover have "insert_stored ops (kv # kvs) T s = (Inr (), T', s')" by (simp add: kv i(1) s1(1) r(1))
  moreover have "L \<union> seq_leaves (kv # kvs) (tr_epoch T) = insert ?le L \<union> seq_leaves kvs (tr_epoch T1)"
    by (simp add: kv i(3))
  ultimately show ?case using r(2-5) i(4,5) by auto
qed simp

lemma new_stored_ok:
  assumes "ok s" "labels_ok (map fst kvs) {}" "kvs \<noteq> []"
  obtains T s1 where "new_stored ops i threads kvs s = (Inr (), T, s1)" "ok s1" "persisted (content s1) T"
    "tr_id T = i" "tr_type T = Linked" "trie_ok T (seq_leaves kvs 0)"
proof -
  obtain T0 ev where n: "trie_new i True Linked threads = (T0, ev)" by (metis surj_pair)
  have T0: "T0 = fst (trie_new i True Linked threads)" "ev = snd (trie_new i True Linked threads)" by (simp_all add: n)
  obtain s0 where s0: "store_events ops ev s = (Inr (), s0)" "ok s0" "content s0 = foldl mem_event (content s) ev"
    using store_events_content [OF assms(1)] by blast
  have st: "tree_stored (ms_nodes (content s0)) i (tr_root T0)"
    unfolding s0(3) T0 by (rule trie_new_stored)
  have f: "tr_id T0 = i" "tr_type T0 = Linked" "tr_storage T0" "tr_epoch T0 = 0"
    by (simp_all add: T0 trie_new_def Let_def)
  have t0: "trie_ok T0 {}" unfolding T0 by (rule trie_new_ok)
  obtain T s1 where r: "insert_stored ops kvs T0 s0 = (Inr (), T, s1)" "ok s1" "trie_ok T ({} \<union> seq_leaves kvs (tr_epoch T0))"
      "tr_id T = tr_id T0" "tr_type T = tr_type T0" "kvs \<noteq> [] \<longrightarrow> persisted (content s1) T"
    using insert_stored_ok [OF s0(2) t0 assms(2) f(3)] st f(1) by blast
  show ?thesis
    by (rule that [of T s1]) (use r f assms(3) in \<open>simp_all add: new_stored_def n s0(1)\<close>)
qed

lemma new_stored_loads:
  assumes "ok s" "labels_ok (map fst kvs) {}" "kvs \<noteq> []"
  shows "\<exists>T s1 s2. new_stored ops i threads kvs s = (Inr (), T, s1) \<and> trie_ok T (seq_leaves kvs 0) \<and>
    LoadFromStorageWithChildren ops i s1 = Some (Inr (Some T), s2)"
proof -
  obtain T s1 where r: "new_stored ops i threads kvs s = (Inr (), T, s1)" "ok s1" "persisted (content s1) T"
    "tr_id T = i" "tr_type T = Linked" "trie_ok T (seq_leaves kvs 0)"
    by (rule new_stored_ok [OF assms])
  have "T\<lparr>tr_type := Linked\<rparr> = T" using r(5) by simp
  then show ?thesis using load_persisted [OF r(3,6,2)] r(1,4,6) by metis
qed

end

section \<open>A trie in the stack of storages\<close>

text \<open>Writes of one trie leave the inserter flushable for it.\<close>

definition event_id :: "storage_event \<Rightarrow> trie_id_type" where
  "event_id e = (case e of SaveNode i _ \<Rightarrow> i | SaveTrie i _ _ _ \<Rightarrow> i)"

lemma store_event_flushable:
  assumes "store_event stack_ops e c = (r, c')" "event_id e = i" "bi_flushable (ca_storage c) i" "stack_ok c"
  shows "bi_flushable (ca_storage c') i"
  using assms
  by (auto simp: store_event_def event_id_def stack_ops_def cache_defs inserter_ops_def bi_save_ctnode_def
      bi_save_compressed_trie_def with_storage_def bi_flushable_def cache_ok_def bi_ok_def
      split: storage_event.splits option.splits prod.splits dest!: update_set)

lemma store_events_flushable:
  "store_events stack_ops es c = (r, c') \<Longrightarrow> \<forall>e \<in> set es. event_id e = i \<Longrightarrow> bi_flushable (ca_storage c) i \<Longrightarrow>
    stack_ok c \<Longrightarrow> bi_flushable (ca_storage c') i"
proof (induction es arbitrary: c)
  case (Cons e es)
  obtain c1 where c1: "store_event stack_ops e c = (Inr (), c1)" "stack_ok c1"
    using stack.save_ctnode [OF Cons.prems(4)] stack.save_trie [OF Cons.prems(4)]
    by (cases e) (force simp: store_event_def)+
  have "bi_flushable (ca_storage c1) i"
    by (rule store_event_flushable [OF c1(1) _ Cons.prems(3,4)]) (use Cons.prems(2) in simp)
  then show ?case using Cons.IH [OF _ _ _ c1(2)] Cons.prems(1,2) c1(1) by simp
qed simp

lemma trie_events_id:
  "trie_insert k h T = (r, T', ev) \<Longrightarrow> (\<forall>e \<in> set ev. event_id e = tr_id T) \<and> tr_id T' = tr_id T"
  by (auto simp: trie_insert_def Let_def node_events_def trie_save_to_storage_def event_id_def
      split: sum.splits prod.splits if_splits)

lemma insert_stored_flushable:
  "insert_stored stack_ops kvs T c = (Inr (), T', c') \<Longrightarrow> bi_flushable (ca_storage c) (tr_id T) \<Longrightarrow> stack_ok c \<Longrightarrow>
    bi_flushable (ca_storage c') (tr_id T)"
proof (induction kvs arbitrary: T c)
  case (Cons kv kvs)
  obtain k h where kv: "kv = (k, h)" by (cases kv)
  obtain r T1 ev where i: "trie_insert k h T = (r, T1, ev)" by (metis surj_pair)
  note ids = trie_events_id [OF i]
  obtain c1 where c1: "store_events stack_ops ev c = (Inr (), c1)" "stack_ok c1"
    using stack.store_events_content [OF Cons.prems(3)] by blast
  have f: "bi_flushable (ca_storage c1) (tr_id T)"
    using store_events_flushable [OF c1(1) _ Cons.prems(2,3)] ids by simp
  have "insert_stored stack_ops kvs T1 c1 = (Inr (), T', c')"
    using Cons.prems(1) by (simp add: kv i c1(1) split: sum.splits)
  then show ?case using Cons.IH [of T1 c1] f c1(2) ids by simp
qed simp

lemma new_stored_flushed:
  assumes "labels_ok (map fst kvs) {}" "kvs \<noteq> []"
  shows "\<exists>T c c' m s'. new_stored stack_ops i threads kvs (stack_new en et ee ms_new) = (Inr (), T, c) \<and>
    so_flush stack_ops c i = (Inr (), c') \<and> bi_storage (ca_storage c') = Some m \<and>
    LoadFromStorageWithChildren memory_ops i m = Some (Inr (Some T), s')"
proof -
  let ?c = "stack_new en et ee ms_new"
  obtain T c where r: "new_stored stack_ops i threads kvs ?c = (Inr (), T, c)" "stack_ok c"
    "persisted (stack_content c) T" "tr_id T = i" "tr_type T = Linked" "trie_ok T (seq_leaves kvs 0)"
    by (rule stack.new_stored_ok [OF stack_new_ok(1) assms])
  obtain T0 ev where n: "trie_new i True Linked threads = (T0, ev)" by (metis surj_pair)
  have T0: "tr_id T0 = i" "\<forall>e \<in> set ev. event_id e = i"
    using n by (auto simp: trie_new_def Let_def node_events_def event_id_def)
  obtain c0 where c0: "store_events stack_ops ev ?c = (Inr (), c0)" "stack_ok c0"
    using stack.store_events_content [OF stack_new_ok(1)] by blast
  have f0: "bi_flushable (ca_storage c0) i"
    by (rule store_events_flushable [OF c0(1) T0(2) _ stack_new_ok(1)]) (simp add: stack_new_def bi_flushable_def)
  have "insert_stored stack_ops kvs T0 c0 = (Inr (), T, c)"
    using r(1) by (simp add: new_stored_def n c0(1))
  then have f: "bi_flushable (ca_storage c) i"
    using insert_stored_flushable [of kvs T0 c0 T c] f0 c0(2) T0(1) by simp
  obtain c' where c': "so_flush stack_ops c i = (Inr (), c')" "bi_storage (ca_storage c') = Some (stack_content c)"
    by (rule stack_flush [OF r(2) f])
  have "T\<lparr>tr_type := Linked\<rparr> = T" using r(5) by simp
  then show ?thesis using memory.load_persisted [OF r(3,6) TrueI] r(1,4) c' by metis
qed

end
