(* ===== verification/Blake2xb.thy ===== *)
theory Blake2xb
  imports Blake2b
begin

text \<open>
  The extendable-output function BLAKE2Xb (\<open>oZKS/hash/blake2xb.c\<close>) on top of the BLAKE2b state
  machine: a root hash of the message, then one BLAKE2b call per 64 output bytes, with the block
  index as node offset. The lemmas give its output in closed form and its error branches.
\<close>

section \<open>Operations\<close>

record blake2xb_state =
  xb_S :: blake2b_state
  xb_P :: blake2b_param

definition blake2xb_init_key :: "nat \<Rightarrow> byte list option \<Rightarrow> nat \<Rightarrow> blake2xb_state option" where
  "blake2xb_init_key outlen key keylen =
     (if outlen = 0 \<or> outlen > 0xFFFFFFFF then None
      else if key \<noteq> None \<and> keylen > BLAKE2B_KEYBYTES then None
      else if key = None \<and> keylen > 0 then None
      else
        let P = \<lparr>digest_length = of_nat BLAKE2B_OUTBYTES, key_length = of_nat keylen, fanout = 1,
                 depth = 1, leaf_length = 0, node_offset = 0, xof_length = of_nat outlen,
                 node_depth = 0, inner_length = 0, reserved = replicate 14 0,
                 salt = replicate 16 0, personal = replicate 16 0\<rparr>;
            S = blake2b_init_param P;
            S' = (if keylen > 0
                  then blake2b_update S
                         (mem_write (replicate BLAKE2B_BLOCKBYTES 0) 0
                           (take keylen (case key of None \<Rightarrow> [] | Some k \<Rightarrow> k)))
                  else S)
        in Some \<lparr>xb_S = S', xb_P = P\<rparr>)"

definition blake2xb_init :: "nat \<Rightarrow> blake2xb_state option" where
  "blake2xb_init outlen = blake2xb_init_key outlen None 0"

definition blake2xb_update :: "blake2xb_state \<Rightarrow> byte list \<Rightarrow> blake2xb_state" where
  "blake2xb_update X input = X\<lparr>xb_S := blake2b_update (xb_S X) input\<rparr>"

text \<open>The output loop, from block \<open>i\<close> on; \<open>None\<close> is the early return of -1.\<close>

function blake2xb_loop :: "blake2b_param \<Rightarrow> byte list \<Rightarrow> nat \<Rightarrow> nat \<Rightarrow> byte list option" where
  "blake2xb_loop P root i outlen =
     (if outlen > 0 then
        let block_size = (if outlen < BLAKE2B_OUTBYTES then outlen else BLAKE2B_OUTBYTES);
            P' = P\<lparr>digest_length := of_nat block_size, node_offset := of_nat i\<rparr>;
            C = blake2b_update (blake2b_init_param P') root
        in (case blake2b_final C True block_size of
              None \<Rightarrow> None
            | Some (_, out) \<Rightarrow>
                (case blake2xb_loop P' root (Suc i) (outlen - block_size) of
                   None \<Rightarrow> None
                 | Some rest \<Rightarrow> Some (out @ rest)))
      else Some [])"
  by pat_completeness auto
termination by (relation "measure (\<lambda>(_, _, _, n). n)") auto

declare blake2xb_loop.simps [simp del]

definition blake2xb_final ::
  "blake2xb_state \<Rightarrow> bool \<Rightarrow> nat \<Rightarrow> (blake2xb_state \<times> byte list) option" where
  "blake2xb_final X out_ok outlen =
     (let xl = unat (xof_length (xb_P X)) in
      if \<not> out_ok then None
      else if (if xl = 0xFFFFFFFF then outlen = 0 else outlen \<noteq> xl) then None
      else case blake2b_final (xb_S X) True BLAKE2B_OUTBYTES of
             None \<Rightarrow> None
           | Some (S', root) \<Rightarrow>
               let P = (xb_P X)\<lparr>key_length := 0, fanout := 0, depth := 0,
                        leaf_length := of_nat BLAKE2B_OUTBYTES,
                        inner_length := of_nat BLAKE2B_OUTBYTES, node_depth := 0\<rparr>
               in (case blake2xb_loop P root 0 outlen of
                     None \<Rightarrow> None
                   | Some out \<Rightarrow> Some (X\<lparr>xb_S := S'\<rparr>, out)))"

definition blake2xb ::
  "bool \<Rightarrow> nat \<Rightarrow> byte list option \<Rightarrow> nat \<Rightarrow> byte list option \<Rightarrow> nat \<Rightarrow> byte list option" where
  "blake2xb out_ok outlen input inlen key keylen =
     (if input = None \<and> inlen > 0 then None
      else if \<not> out_ok then None
      else if key = None \<and> keylen > 0 then None
      else if keylen > BLAKE2B_KEYBYTES then None
      else if outlen = 0 then None
      else case blake2xb_init_key outlen key keylen of
             None \<Rightarrow> None
           | Some X \<Rightarrow>
               map_option snd
                 (blake2xb_final
                   (blake2xb_update X (take inlen (case input of None \<Rightarrow> [] | Some i \<Rightarrow> i)))
                   out_ok outlen))"

section \<open>The output in closed form\<close>

text \<open>One BLAKE2b call on a short message under arbitrary parameters.\<close>

definition param_h :: "blake2b_param \<Rightarrow> u64 list" where
  "param_h P = map (\<lambda>i. blake2b_IV ! i XOR load64 (take 8 (drop (8 * i) (param_bytes P)))) [0..<8]"

definition b2_short :: "blake2b_param \<Rightarrow> byte list \<Rightarrow> byte list" where
  "b2_short P msg =
     words_bytes (rfc_F (param_h P) (length msg) True (msg @ replicate (128 - length msg) 0))"

text \<open>The parameters of output block \<open>i\<close> of \<open>n\<close> output bytes.\<close>

definition xof_param :: "nat \<Rightarrow> nat \<Rightarrow> nat \<Rightarrow> blake2b_param" where
  "xof_param n sz i =
     \<lparr>digest_length = of_nat sz, key_length = 0, fanout = 0, depth = 0, leaf_length = 64,
      node_offset = of_nat i, xof_length = of_nat n, node_depth = 0, inner_length = 64,
      reserved = replicate 14 0, salt = replicate 16 0, personal = replicate 16 0\<rparr>"

definition xof_block :: "nat \<Rightarrow> byte list \<Rightarrow> nat \<Rightarrow> nat \<Rightarrow> byte list" where
  "xof_block n root sz i = take sz (b2_short (xof_param n sz i) root)"

lemma init_param_any: "b2_rep (blake2b_init_param P) (param_h P) 0 [] (unat (digest_length P))"
  by (simp add: b2_rep_def b2_open_def counter_is_def blake2b_init_param_def blake2b_init0_def
      param_h_def Let_def)

lemma one_shot_any:
  assumes "length msg \<le> 128" "unat (digest_length P) \<le> m"
  obtains S where "blake2b_final (blake2b_update (blake2b_init_param P) msg) True m =
    Some (S, take (unat (digest_length P)) (b2_short P msg))"
proof -
  have a: "rfc_absorb (param_h P) 0 ([] @ msg) = (param_h P, 0, msg)"
    using assms(1) by (simp add: rfc_absorb.simps)
  show ?thesis
    by (rule final_rep [OF update_rep [OF init_param_any a] assms(2)])
      (simp add: that b2_short_def)
qed

lemma xof_param_step:
  assumes "P\<lparr>digest_length := 0, node_offset := 0\<rparr> = xof_param n 0 0"
  shows "P\<lparr>digest_length := of_nat b, node_offset := of_nat i\<rparr> = xof_param n b i"
proof -
  have "P\<lparr>digest_length := of_nat b, node_offset := of_nat i\<rparr> =
      (P\<lparr>digest_length := 0, node_offset := 0\<rparr>)\<lparr>digest_length := of_nat b, node_offset := of_nat i\<rparr>"
    by simp
  then show ?thesis unfolding assms by (simp add: xof_param_def)
qed

lemma blocks_step:
  assumes "0 < m"
  shows "(m + 63) div 64 = Suc ((m - min 64 m + 63) div 64)"
    and "min 64 (m - 64 * Suc k) = min 64 (m - min 64 m - 64 * k)"
proof -
  show "(m + 63) div 64 = Suc ((m - min 64 m + 63) div 64)"
  proof (cases "m < 64")
    case False
    then have "m + 63 = (m - 64 + 63) + 64" by simp
    then show ?thesis using False by (simp add: min_def)
  qed (use assms in \<open>simp add: min_def div_if\<close>)
  show "min 64 (m - 64 * Suc k) = min 64 (m - min 64 m - 64 * k)"
    by (simp add: min_def diff_diff_eq)
qed

lemma xof_loop:
  assumes r: "length root = 64"
  shows "P\<lparr>digest_length := 0, node_offset := 0\<rparr> = xof_param n 0 0 \<Longrightarrow> blake2xb_loop P root i m =
    Some (concat (map (\<lambda>k. xof_block n root (min 64 (m - 64 * k)) (i + k)) [0..<(m + 63) div 64]))"
proof (induction m arbitrary: P i rule: less_induct)
  case (less m)
  show ?case
  proof (cases "m > 0")
    case True
    define b where "b = min 64 m"
    have b: "b \<le> m" "0 < b" "b \<le> 64" using True by (simp_all add: b_def)
    have bs: "(if m < 64 then m else 64) = b" by (simp add: b_def)
    have P: "P\<lparr>digest_length := of_nat b, node_offset := of_nat i\<rparr> = xof_param n b i"
      by (rule xof_param_step [OF less.prems])
    have d: "unat (digest_length (xof_param n b i)) = b"
      using b by (simp add: xof_param_def unat_of_nat)
    obtain S where out: "blake2b_final (blake2b_update (blake2b_init_param (xof_param n b i)) root)
        True b = Some (S, xof_block n root b i)"
      using one_shot_any [of root "xof_param n b i" b] r by (auto simp: d xof_block_def)
    have rest: "blake2xb_loop (xof_param n b i) root (Suc i) (m - b) = Some (concat
        (map (\<lambda>k. xof_block n root (min 64 (m - b - 64 * k)) (Suc i + k)) [0..<(m - b + 63) div 64]))"
      using b by (intro less.IH) (simp_all add: xof_param_def)
    have N: "[0..<(m + 63) div 64] = 0 # map Suc [0..<(m - b + 63) div 64]"
      by (simp only: blocks_step(1) [OF True] b_def [symmetric] map_Suc_upt)
        (simp add: upt_conv_Cons del: upt_Suc)
    have "blake2xb_loop P root i m = Some (xof_block n root b i @ concat
        (map (\<lambda>k. xof_block n root (min 64 (m - b - 64 * k)) (Suc i + k)) [0..<(m - b + 63) div 64]))"
      using True by (simp add: blake2xb_loop.simps [of P root i m] bs Let_def P out rest)
    then show ?thesis
      by (simp add: N comp_def blocks_step(2) [OF True] b_def [symmetric]
          del: upt_Suc mult_Suc_right)
  qed (simp add: blake2xb_loop.simps)
qed

text \<open>The root hash is plain BLAKE2b under the root parameters.\<close>

definition xb_root_param :: "nat \<Rightarrow> nat \<Rightarrow> blake2b_param" where
  "xb_root_param n k =
     \<lparr>digest_length = 64, key_length = of_nat k, fanout = 1, depth = 1, leaf_length = 0,
      node_offset = 0, xof_length = of_nat n, node_depth = 0, inner_length = 0,
      reserved = replicate 14 0, salt = replicate 16 0, personal = replicate 16 0\<rparr>"

definition xb_root :: "nat \<Rightarrow> byte list \<Rightarrow> byte list \<Rightarrow> byte list" where
  "xb_root n key msg =
     (case rfc_absorb (param_h (xb_root_param n (length key))) 0
             ((if key = [] then [] else key @ replicate (128 - length key) 0) @ msg) of
        (h, t, p) \<Rightarrow>
          take 64 (words_bytes (rfc_F h (t + length p) True (p @ replicate (128 - length p) 0))))"

definition blake2xb_spec :: "nat \<Rightarrow> byte list \<Rightarrow> byte list \<Rightarrow> byte list" where
  "blake2xb_spec n key msg =
     concat (map (\<lambda>k. xof_block n (xb_root n key msg) (min 64 (n - 64 * k)) k) [0..<(n + 63) div 64])"

lemma length_xb_root: "length (xb_root n key msg) = 64"
  by (simp add: xb_root_def rfc_F_def split: prod.split)

lemma length_xof_block: "sz \<le> 64 \<Longrightarrow> length (xof_block n root sz i) = sz"
  by (simp add: xof_block_def b2_short_def rfc_F_def)

lemma xb_init_rep:
  assumes "1 \<le> n" "n < 2 ^ 32" "length key \<le> 64"
  obtains X where "blake2xb_init_key n (Some key) (length key) = Some X"
    "xb_P X = xb_root_param n (length key)"
    "b2_rep (xb_S X) (param_h (xb_root_param n (length key))) 0
      (if key = [] then [] else key @ replicate (128 - length key) 0) 64"
proof -
  let ?P = "xb_root_param n (length key)" and ?b = "key @ replicate (128 - length key) 0"
  have i: "b2_rep (blake2b_init_param ?P) (param_h ?P) 0 [] 64"
    using init_param_any [of ?P] by (simp add: xb_root_param_def)
  have u: "b2_rep (blake2b_update (blake2b_init_param ?P) ?b) (param_h ?P) 0 ?b 64"
    using assms(3) by (intro update_rep [OF i]) (simp add: rfc_absorb.simps)
  have m: "mem_write (replicate 128 0) 0 key = ?b" by (simp add: mem_write_def)
  have "blake2xb_init_key n (Some key) (length key) =
      Some \<lparr>xb_S = if key = [] then blake2b_init_param ?P
        else blake2b_update (blake2b_init_param ?P) ?b, xb_P = ?P\<rparr>"
    using assms by (simp add: blake2xb_init_key_def xb_root_param_def Let_def m)
  then show ?thesis by (rule that) (use i u in \<open>cases "key = []"; simp\<close>)+
qed

lemma blake2xb_computes_spec:
  assumes "1 \<le> n" "n < 2 ^ 32" "length key \<le> 64"
  shows "blake2xb True n (Some msg) (length msg) (Some key) (length key) =
    Some (blake2xb_spec n key msg)"
proof -
  let ?P = "xb_root_param n (length key)"
    and ?p = "if key = [] then [] else key @ replicate (128 - length key) 0"
  obtain X where i: "blake2xb_init_key n (Some key) (length key) = Some X" "xb_P X = ?P"
    and r: "b2_rep (xb_S X) (param_h ?P) 0 ?p 64"
    by (rule xb_init_rep [OF assms])
  obtain h t p where a: "rfc_absorb (param_h ?P) 0 (?p @ msg) = (h, t, p)" by (metis prod_cases3)
  obtain S' where f: "blake2b_final (blake2b_update (xb_S X) msg) True 64 =
      Some (S', xb_root n key msg)"
    using final_rep [OF update_rep [OF r a] order_refl] a by (auto simp: xb_root_def)
  have x: "unat (xof_length ?P) = n" using assms by (simp add: xb_root_param_def unat_of_nat)
  have l: "blake2xb_loop (?P\<lparr>key_length := 0, fanout := 0, depth := 0, leaf_length := 64,
      inner_length := 64, node_depth := 0\<rparr>) (xb_root n key msg) 0 n =
      Some (blake2xb_spec n key msg)"
    unfolding blake2xb_spec_def
    by (subst xof_loop [where n = n]) (simp_all add: length_xb_root xb_root_param_def xof_param_def)
  show ?thesis using assms
    by (simp add: blake2xb_def i blake2xb_final_def blake2xb_update_def f x l Let_def)
qed

lemma length_blake2xb_spec: "length (blake2xb_spec n key msg) = n"
proof -
  have "length (concat (map (\<lambda>k. xof_block n r (min 64 (m - 64 * k)) (i + k)) [0..<(m + 63) div 64])) = m"
    for r m i
  proof (induction m arbitrary: i rule: less_induct)
    case (less m)
    show ?case
    proof (cases "m > 0")
      case True
      define b where "b = min 64 m"
      have N: "[0..<(m + 63) div 64] = 0 # map Suc [0..<(m - b + 63) div 64]"
        by (simp only: blocks_step(1) [OF True] b_def [symmetric] map_Suc_upt)
          (simp add: upt_conv_Cons del: upt_Suc)
      have "length (concat (map (\<lambda>k. xof_block n r (min 64 (m - b - 64 * k)) (Suc i + k))
          [0..<(m - b + 63) div 64])) = m - b"
        using True by (intro less.IH) (simp add: b_def)
      then show ?thesis
        by (simp add: N comp_def blocks_step(2) [OF True] b_def [symmetric] length_xof_block
            del: upt_Suc mult_Suc_right) (simp add: b_def length_xof_block)
    qed simp
  qed
  from this [of "xb_root n key msg" n 0] show ?thesis by (simp add: blake2xb_spec_def)
qed

lemma blake2xb_errors:
  assumes "\<not> out_ok \<or> n = 0 \<or> n > 0xFFFFFFFF \<or> keylen > 64 \<or> (input = None \<and> inlen > 0) \<or>
    (key = None \<and> keylen > 0)"
  shows "blake2xb out_ok n input inlen key keylen = None"
  using assms by (auto simp: blake2xb_def blake2xb_init_key_def)

end
