(* ===== verification/FourQ_Prime.thy ===== *)
theory FourQ_Prime
  imports Complex_Main Prelude
begin

text \<open>
  The prime 2^127 - 1 of FourQ. The code's field arithmetic (\<open>oZKS/fourq/generic/fp.h\<close>) relies on
  it being prime: its inversion is an exponentiation. The proof is the Lucas-Lehmer test: 125
  squarings modulo the number, and an argument on the order of \<open>2 + \<surd>3\<close>. Fermat's theorem follows
  from the binomial theorem.
\<close>

section \<open>Numbers \<open>a + b\<surd>3\<close>\<close>

datatype zroot = ZRoot (zr_re: int) (zr_im: int)

lemma zroot_eq_iff: "x = y \<longleftrightarrow> zr_re x = zr_re y \<and> zr_im x = zr_im y"
  by (auto intro: zroot.expand)

instantiation zroot :: comm_ring_1
begin

definition "0 = ZRoot 0 0"
definition "1 = ZRoot 1 0"
definition "x + y = ZRoot (zr_re x + zr_re y) (zr_im x + zr_im y)"
definition "- x = ZRoot (- zr_re x) (- zr_im x)"
definition "x - y = ZRoot (zr_re x - zr_re y) (zr_im x - zr_im y)"
definition "x * y = ZRoot (zr_re x * zr_re y + 3 * (zr_im x * zr_im y)) (zr_re x * zr_im y + zr_im x * zr_re y)"

instance
  by standard
    (simp_all add: zroot_eq_iff zero_zroot_def one_zroot_def plus_zroot_def uminus_zroot_def
      minus_zroot_def times_zroot_def algebra_simps)

end

lemma of_int_zroot: "of_int k = ZRoot k 0"
proof -
  have n: "of_nat n = ZRoot (int n) 0" for n
    by (induction n) (simp_all add: zroot_eq_iff zero_zroot_def one_zroot_def plus_zroot_def)
  show ?thesis
    by (cases k rule: int_cases2) (simp_all add: n zroot_eq_iff uminus_zroot_def)
qed

lemma zroot_parts [simp]:
  "zr_re (x + y) = zr_re x + zr_re y" "zr_im (x + y) = zr_im x + zr_im y"
  "zr_re (x - y) = zr_re x - zr_re y" "zr_im (x - y) = zr_im x - zr_im y"
  "zr_re (x * y) = zr_re x * zr_re y + 3 * (zr_im x * zr_im y)"
  "zr_im (x * y) = zr_re x * zr_im y + zr_im x * zr_re y"
  "zr_re 1 = 1" "zr_im 1 = 0" "zr_re (of_int k) = k" "zr_im (of_int k) = 0"
  by (simp_all add: plus_zroot_def minus_zroot_def times_zroot_def one_zroot_def of_int_zroot)

lemma zroot_dvd: "of_int q dvd x \<longleftrightarrow> q dvd zr_re x \<and> q dvd zr_im x"
proof
  assume "of_int q dvd x"
  then obtain y where "x = of_int q * y" ..
  then show "q dvd zr_re x \<and> q dvd zr_im x" by simp
next
  assume "q dvd zr_re x \<and> q dvd zr_im x"
  then obtain a b where "zr_re x = q * a" "zr_im x = q * b" by (auto elim!: dvdE)
  then have "x = of_int q * ZRoot a b" by (simp add: zroot_eq_iff)
  then show "of_int q dvd x" by simp
qed

section \<open>The order argument\<close>

definition lucas_w :: zroot where "lucas_w = ZRoot 2 1"
definition lucas_v :: zroot where "lucas_v = ZRoot 2 (-1)"

lemma lucas_wv: "lucas_w * lucas_v = 1"
  by (simp add: zroot_eq_iff lucas_w_def lucas_v_def)

lemma lucas_wv_power: "lucas_w ^ n * lucas_v ^ n = 1"
  by (simp add: lucas_wv flip: power_mult_distrib)

fun lucas_s :: "nat \<Rightarrow> int" where
  "lucas_s 0 = 4"
| "lucas_s (Suc n) = (lucas_s n)\<^sup>2 - 2"

lemma lucas_s_powers: "of_int (lucas_s n) = lucas_w ^ 2 ^ n + lucas_v ^ 2 ^ n"
proof (induction n)
  case 0
  show ?case by (simp add: zroot_eq_iff lucas_w_def lucas_v_def del: of_int_numeral)
next
  case (Suc n)
  have "(of_int (lucas_s (Suc n)) :: zroot) = (of_int (lucas_s n))\<^sup>2 - 2" by simp
  also have "\<dots> = (lucas_w ^ 2 ^ n + lucas_v ^ 2 ^ n)\<^sup>2 - 2 * (lucas_w ^ 2 ^ n * lucas_v ^ 2 ^ n)"
    by (simp only: Suc lucas_wv_power mult_1_right)
  also have "\<dots> = (lucas_w ^ 2 ^ n)\<^sup>2 + (lucas_v ^ 2 ^ n)\<^sup>2"
    by (simp add: power2_eq_square algebra_simps)
  finally show ?case by (simp add: mult.commute flip: power_mult)
qed

text \<open>Congruent elements have congruent powers.\<close>

lemma dvd_power_diff:
  assumes "(q :: 'a::comm_ring_1) dvd x - y"
  shows "q dvd x ^ n - y ^ n"
proof (induction n)
  case (Suc n)
  have "x ^ Suc n - y ^ Suc n = x * (x ^ n - y ^ n) + (x - y) * y ^ n" by (simp add: algebra_simps)
  then show ?case using Suc assms by (metis dvd_add dvd_mult dvd_mult2)
qed simp

lemma split_power_2: "0 < (d :: nat) \<Longrightarrow> \<exists>k m. d = 2 ^ k * m \<and> odd m"
proof (induction d rule: less_induct)
  case (less d)
  show ?case
  proof (cases "even d")
    case True
    then obtain e where e: "d = 2 * e" by blast
    then obtain k m where "e = 2 ^ k * m \<and> odd m" using less by fastforce
    then have "d = 2 ^ Suc k * m \<and> odd m" using e by simp
    then show ?thesis by blast
  next
    case False
    then have "d = 2 ^ 0 * d \<and> odd d" by simp
    then show ?thesis by blast
  qed
qed

lemma lucas_order:
  assumes "of_int q dvd lucas_w ^ 2 ^ n + 1" "0 < d" "d < 2 ^ Suc n" "of_int q dvd lucas_w ^ d - 1"
  shows "q dvd 2"
proof -
  obtain k m where d: "d = 2 ^ k * m" "odd m" using split_power_2 [OF assms(2)] by blast
  then have "2 ^ k < (2 :: nat) ^ Suc n" using assms(3) by (metis dvd_triv_left dvd_imp_le le_less_trans assms(2))
  then have k: "k \<le> n" using power_less_imp_less_exp [of "2 :: nat" k "Suc n"] by simp
  let ?x = "lucas_w ^ (2 ^ n * m)"
  have "2 ^ k * 2 ^ (n - k) = (2 :: nat) ^ n" using k by (simp flip: power_add)
  then have "d * 2 ^ (n - k) = 2 ^ n * m" by (metis d(1) mult.assoc mult.commute)
  then have "?x - 1 = (lucas_w ^ d) ^ 2 ^ (n - k) - 1 ^ 2 ^ (n - k)"
    by (simp flip: power_mult)
  then have 1: "of_int q dvd ?x - 1" using dvd_power_diff [OF assms(4)] by metis
  have "?x - (-1) ^ m = (lucas_w ^ 2 ^ n) ^ m - (-1) ^ m" by (simp add: power_mult)
  moreover have "of_int q dvd lucas_w ^ 2 ^ n - (-1)" using assms(1) by simp
  ultimately have 2: "of_int q dvd ?x - (-1) ^ m" using dvd_power_diff by metis
  have "of_int q dvd (?x - (-1) ^ m) - (?x - 1)" using 1 2 by (rule dvd_diff [rotated])
  then have "(of_int q :: zroot) dvd of_int 2" using d(2) by simp
  then show ?thesis by (simp only: zroot_dvd zroot_parts)
qed

lemma lucas_divisor:
  assumes "int q dvd lucas_s n" "1 < q" "odd q"
  shows "2 ^ (n + 2) \<le> q\<^sup>2"
proof (rule ccontr)
  let ?q = "int q" and ?N = "2 ^ (n + 2) :: nat"
  let ?f = "\<lambda>i. (zr_re (lucas_w ^ i) mod ?q, zr_im (lucas_w ^ i) mod ?q)"
  assume "\<not> ?N \<le> q\<^sup>2"
  have "of_int ?q dvd (of_int (lucas_s n) :: zroot) * lucas_w ^ 2 ^ n"
    using assms(1) by (intro dvd_mult2) (simp only: zroot_dvd zroot_parts dvd_0_right)
  also have "of_int (lucas_s n) * lucas_w ^ 2 ^ n = lucas_w ^ 2 ^ Suc n + 1"
  proof -
    have "lucas_v ^ 2 ^ n * lucas_w ^ 2 ^ n = 1"
      using lucas_wv_power [of "2 ^ n"] by (simp add: mult.commute)
    then show ?thesis by (simp add: lucas_s_powers distrib_right mult_2 power_add)
  qed
  finally have m1: "of_int ?q dvd lucas_w ^ 2 ^ Suc n + 1" .
  have "?f ` {0..<?N} \<subseteq> {0..<?q} \<times> {0..<?q}" using assms(2) by auto
  then have "card (?f ` {0..<?N}) \<le> card ({0..<?q} \<times> {0..<?q})" by (intro card_mono) auto
  also have "\<dots> = q\<^sup>2" by (simp add: card_cartesian_product power2_eq_square)
  also have "\<dots> < card {0..<?N}" using \<open>\<not> ?N \<le> q\<^sup>2\<close> by simp
  finally have "\<not> inj_on ?f {0..<?N}" by (rule pigeonhole)
  then obtain i j where ij: "i < j" "j < ?N" "?f i = ?f j"
    unfolding inj_on_def by (metis atLeastLessThan_iff linorder_neqE_nat)
  then have "of_int ?q dvd lucas_w ^ j - lucas_w ^ i"
    unfolding zroot_dvd zroot_parts mod_eq_dvd_iff [symmetric] by simp
  then have "of_int ?q dvd (lucas_w ^ j - lucas_w ^ i) * lucas_v ^ i" by (rule dvd_mult2)
  also have "(lucas_w ^ j - lucas_w ^ i) * lucas_v ^ i = lucas_w ^ (j - i) - 1"
  proof -
    have "lucas_w ^ j = lucas_w ^ (j - i) * lucas_w ^ i" using ij(1) by (simp flip: power_add)
    then have "(lucas_w ^ j - lucas_w ^ i) * lucas_v ^ i =
        (lucas_w ^ (j - i) - 1) * (lucas_w ^ i * lucas_v ^ i)" by (simp add: algebra_simps)
    then show ?thesis by (simp add: lucas_wv_power)
  qed
  finally have "of_int ?q dvd lucas_w ^ (j - i) - 1" .
  then have "?q dvd 2" by (rule lucas_order [OF m1, rotated 2]) (use ij in auto)
  then have "q dvd 2" by (metis int_dvd_int_iff of_nat_numeral)
  then have "q \<le> 2" by (auto dest: dvd_imp_le)
  then have "q = 2" using assms(2) by simp
  then show False using assms(3) by simp
qed

section \<open>The test\<close>

text \<open>
  The squarings run on numerals: \<open>num_drop\<close> drops as many bits of a numeral as its first argument
  has elements, \<open>mersenne_fold\<close> folds a number at bit 127.
\<close>

fun num_drop :: "unit list \<Rightarrow> num \<Rightarrow> int" where
  "num_drop [] n = numeral n"
| "num_drop (_ # us) num.One = 0"
| "num_drop (_ # us) (num.Bit0 n) = num_drop us n"
| "num_drop (_ # us) (num.Bit1 n) = num_drop us n"

lemma num_drop_div: "num_drop us n = numeral n div 2 ^ length us"
proof (induction us n rule: num_drop.induct)
  case (3 u us n)
  have "numeral (num.Bit0 n) div (2 * 2 ^ length us) = (numeral (num.Bit0 n) div 2) div (2 ^ length us :: int)"
    by (rule zdiv_zmult2_eq) simp
  then show ?case using 3 by simp
next
  case (4 u us n)
  have "numeral (num.Bit1 n) div (2 * 2 ^ length us) = (numeral (num.Bit1 n) div 2) div (2 ^ length us :: int)"
    by (rule zdiv_zmult2_eq) simp
  then show ?case using 4 by simp
next
  case (2 u us)
  have "(1 :: int) < 2 * 2 ^ length us" by (rule less_le_trans [of _ 2]) simp_all
  then show ?case by simp
qed simp_all

definition bits127 :: "unit list" where
  "bits127 = [(), (), (), (), (), (), (), (), (), (), (), (), (), (), (), (), (), (), (), (), (), (),
    (), (), (), (), (), (), (), (), (), (), (), (), (), (), (), (), (), (), (), (), (), (),
    (), (), (), (), (), (), (), (), (), (), (), (), (), (), (), (), (), (), (), (), (), (),
    (), (), (), (), (), (), (), (), (), (), (), (), (), (), (), (), (), (), (), (), (), (),
    (), (), (), (), (), (), (), (), (), (), (), (), (), (), (), (), (), (), (), (), (), (),
    (), (), (), (), (), (), (), (), (), (), (), (), (), (), (), (), ()]"

definition mersenne_high :: "int \<Rightarrow> int" where
  "mersenne_high x = x div 2 ^ 127"

lemma mersenne_high_numeral: "mersenne_high (numeral n) = num_drop bits127 n"
proof -
  have "length bits127 = 127" by (simp add: bits127_def)
  then show ?thesis by (simp only: mersenne_high_def num_drop_div)
qed

definition mersenne_sqr :: "int \<Rightarrow> int" where
  "mersenne_sqr x = x * x"

lemma mersenne_sqr_numeral: "mersenne_sqr (numeral n) = numeral (Num.sqr n)"
  unfolding mersenne_sqr_def by (simp only: Num.sqr_conv_mult numeral_mult)

definition mersenne_fold :: "int \<Rightarrow> int \<Rightarrow> int" where
  "mersenne_fold x h = (x + h) - h * 170141183460469231731687303715884105728"

definition mersenne_red :: "int \<Rightarrow> int" where
  "mersenne_red x = mersenne_fold x (mersenne_high x)"

fun lucas_steps :: "unit list \<Rightarrow> int \<Rightarrow> int" where
  "lucas_steps [] s = s"
| "lucas_steps (_ # us) s = lucas_steps us (mersenne_red (mersenne_red (mersenne_sqr s)) - 2)"

lemmas mersenne_simps = mersenne_high_numeral bits127_def num_drop.simps mersenne_sqr_numeral Num.sqr.simps
  mersenne_red_def mersenne_fold_def Num.arith_simps

text \<open>Residues are kept: a step of \<open>lucas_steps\<close> is a step of the sequence modulo 2^127 - 1.\<close>

lemma mersenne_red_cong: "(2 ^ 127 - 1) dvd mersenne_red x - x"
  by (simp add: mersenne_red_def mersenne_fold_def)

lemma lucas_steps_cong:
  "(2 ^ 127 - 1) dvd s - lucas_s n \<Longrightarrow> (2 ^ 127 - 1) dvd lucas_steps us s - lucas_s (n + length us)"
proof (induction us s arbitrary: n rule: lucas_steps.induct)
  case (2 u us s)
  let ?p = "2 ^ 127 - 1 :: int" and ?x = "mersenne_sqr s"
  have "mersenne_red (mersenne_red ?x) - 2 - lucas_s (Suc n) =
      (mersenne_red (mersenne_red ?x) - mersenne_red ?x) + (mersenne_red ?x - ?x) +
      (s - lucas_s n) * (s + lucas_s n)"
    by (simp add: mersenne_sqr_def power2_eq_square algebra_simps)
  moreover have "?p dvd \<dots>" by (intro dvd_add mersenne_red_cong dvd_mult2 "2.prems")
  ultimately have "?p dvd mersenne_red (mersenne_red ?x) - 2 - lucas_s (Suc n)" by (simp only:)
  then show ?case using "2.IH" by fastforce
qed simp

definition lucas_length :: "unit list" where
  "lucas_length = [(), (), (), (), (), (), (), (), (), (), (), (), (), (), (), (), (), (), (), (), (), (),
    (), (), (), (), (), (), (), (), (), (), (), (), (), (), (), (), (), (), (), (), (), (),
    (), (), (), (), (), (), (), (), (), (), (), (), (), (), (), (), (), (), (), (), (), (),
    (), (), (), (), (), (), (), (), (), (), (), (), (), (), (), (), (), (), (), (), (), (),
    (), (), (), (), (), (), (), (), (), (), (), (), (), (), (), (), (), (), (), (), (), (),
    (), (), (), (), (), (), (), (), (), (), (), (), (), (), ()]"

lemma lucas_run: "lucas_steps lucas_length 4 = 0"
  by (simp only: lucas_length_def lucas_steps.simps mersenne_simps)

lemma lucas_lehmer: "(2 ^ 127 - 1) dvd lucas_s 125"
proof -
  have "length lucas_length = 125" by (simp add: lucas_length_def)
  moreover have "(2 ^ 127 - 1) dvd lucas_steps lucas_length 4 - lucas_s (0 + length lucas_length)"
    by (rule lucas_steps_cong) simp
  ultimately show ?thesis unfolding lucas_run by simp
qed

section \<open>The prime and Fermat's theorem\<close>

definition p1271 :: nat where
  "p1271 = 2 ^ 127 - 1"

lemma p1271_pos: "0 < p1271" "1 < p1271" "2 < p1271"
  by (simp_all add: p1271_def)

lemma p1271_suc: "Suc p1271 = 2 ^ 127"
  by (simp add: p1271_def)

lemma p1271_divisor:
  assumes "q dvd p1271" "q \<noteq> 1"
  shows "2 ^ 127 \<le> q\<^sup>2"
proof -
  have odd: "odd p1271" by (simp add: p1271_def)
  have "q \<noteq> 0" using assms(1) p1271_pos(1) by (metis dvd_0_left less_irrefl)
  then have "1 < q" using assms(2) by linarith
  moreover have "odd q" using dvd_trans [of 2 q p1271] assms(1) odd by blast
  moreover have "int q dvd lucas_s 125"
  proof -
    have "int q dvd int p1271" using assms(1) by simp
    also have "int p1271 = 2 ^ 127 - 1" by (simp add: p1271_def)
    also note lucas_lehmer
    finally show ?thesis .
  qed
  ultimately show ?thesis using lucas_divisor [of q 125] by simp
qed

theorem p1271_prime:
  assumes "d dvd p1271"
  shows "d = 1 \<or> d = p1271"
proof (rule ccontr)
  assume n: "\<not> (d = 1 \<or> d = p1271)"
  obtain e where e: "p1271 = d * e" using assms ..
  then have "e \<noteq> 1" using n by auto
  moreover have "e dvd p1271" unfolding e by simp
  ultimately have "2 ^ 127 \<le> d\<^sup>2" "2 ^ 127 \<le> e\<^sup>2" using p1271_divisor assms n by auto
  then have "2 ^ 127 * 2 ^ 127 \<le> d\<^sup>2 * e\<^sup>2" by (rule mult_le_mono)
  also have "\<dots> = p1271\<^sup>2" by (simp add: e power_mult_distrib)
  also have "\<dots> < (2 ^ 127)\<^sup>2" by (rule power_strict_mono) (simp_all add: p1271_def)
  finally show False by (simp only: power2_eq_square less_irrefl)
qed

lemma p1271_coprime: "\<not> p1271 dvd a \<Longrightarrow> coprime p1271 a"
  using p1271_prime [of "gcd p1271 a"] by (metis coprime_iff_gcd_eq_1 gcd_dvd1 gcd_dvd2)

lemma p1271_dvd_mult: "p1271 dvd a * b \<longleftrightarrow> p1271 dvd a \<or> p1271 dvd b"
  using p1271_coprime by (metis coprime_dvd_mult_right_iff dvd_mult dvd_mult2)

lemma p1271_choose:
  assumes "0 < k" "k < p1271"
  shows "p1271 dvd (p1271 choose k)"
proof -
  obtain n where n: "p1271 = Suc n" using p1271_pos by (metis gr0_implies_Suc)
  obtain j where j: "k = Suc j" using assms by (metis gr0_implies_Suc)
  have "k * (p1271 choose k) = p1271 * (n choose j)"
    unfolding n j by (metis Suc_times_binomial_eq mult.commute)
  then have "p1271 dvd k * (p1271 choose k)" by simp
  moreover have "\<not> p1271 dvd k" using assms by (auto dest: dvd_imp_le)
  ultimately show ?thesis by (simp add: p1271_dvd_mult)
qed

lemma fermat_p1271: "p1271 dvd x ^ p1271 - x" "x \<le> x ^ p1271"
proof -
  show le: "x \<le> x ^ p1271" for x :: nat using p1271_pos by (cases "x = 0") (auto simp: self_le_power)
  have "int p1271 dvd int x ^ p1271 - int x"
  proof (induction x)
    case 0
    then show ?case using p1271_pos(1) by (simp add: zero_power)
  next
    case (Suc x)
    let ?f = "\<lambda>k. of_nat (p1271 choose k) * int x ^ k * 1 ^ (p1271 - k)"
    have "{..p1271} = insert 0 (insert p1271 {0<..<p1271})" using p1271_pos by auto
    then have "(int x + 1) ^ p1271 = ?f 0 + (?f p1271 + sum ?f {0<..<p1271})"
      unfolding binomial_ring using p1271_pos by simp
    then have "int (Suc x) ^ p1271 - int (Suc x) = (int x ^ p1271 - int x) + sum ?f {0<..<p1271}"
      by (simp add: add.commute)
    moreover have "int p1271 dvd sum ?f {0<..<p1271}"
    proof (rule dvd_sum)
      fix k assume "k \<in> {0<..<p1271}"
      then have "int p1271 dvd int (p1271 choose k)" using p1271_choose by simp
      then show "int p1271 dvd ?f k" by simp
    qed
    ultimately show ?case using Suc by (simp only: dvd_add)
  qed
  then have "int p1271 dvd int (x ^ p1271 - x)" using le by (simp add: of_nat_diff)
  then show "p1271 dvd x ^ p1271 - x" by (simp only: int_dvd_int_iff)
qed

end
