(* ===== verification/FourQ_Field.thy ===== *)
theory FourQ_Field
  imports FourQ_Prime
begin

text \<open>
  The mathematical fields behind the FourQ arithmetic: GF(p) for p = 2^127 - 1 as the residues, and
  GF(p^2) as pairs \<open>a + b i\<close> with \<open>i\<^sup>2 = - 1\<close>. Both are instances of the class \<open>field\<close>; the inverse of
  GF(p) is the power p - 2 of Fermat's theorem, that of GF(p^2) goes through the norm, as the code
  computes them.
\<close>

section \<open>GF(p)\<close>

typedef gfp = "{0..<int p1271}"
  using p1271_pos(1) by (intro exI [of _ 0]) simp

setup_lifting type_definition_gfp

instantiation gfp :: comm_ring_1
begin

lift_definition zero_gfp :: gfp is 0 using p1271_pos(1) by simp
lift_definition one_gfp :: gfp is 1 using p1271_pos(2) by simp
lift_definition plus_gfp :: "gfp \<Rightarrow> gfp \<Rightarrow> gfp" is "\<lambda>x y. (x + y) mod int p1271"
  using p1271_pos(1) by simp
lift_definition minus_gfp :: "gfp \<Rightarrow> gfp \<Rightarrow> gfp" is "\<lambda>x y. (x - y) mod int p1271"
  using p1271_pos(1) by simp
lift_definition uminus_gfp :: "gfp \<Rightarrow> gfp" is "\<lambda>x. (- x) mod int p1271"
  using p1271_pos(1) by simp
lift_definition times_gfp :: "gfp \<Rightarrow> gfp \<Rightarrow> gfp" is "\<lambda>x y. (x * y) mod int p1271"
  using p1271_pos(1) by simp

instance
  by standard (transfer; simp add: algebra_simps mod_simps)+

end

lemma Rep_of_nat: "Rep_gfp (of_nat n) = int n mod int p1271"
proof (induction n)
  case 0
  then show ?case by (simp add: zero_gfp.rep_eq)
next
  case (Suc n)
  then show ?case by (simp add: plus_gfp.rep_eq one_gfp.rep_eq mod_simps)
qed

lemma gfp_of_nat_eq: "(of_nat m :: gfp) = of_nat n \<longleftrightarrow> m mod p1271 = n mod p1271"
  by (simp add: Rep_gfp_inject [symmetric] Rep_of_nat flip: of_nat_mod)

lemma gfp_of_nat_zero: "(of_nat n :: gfp) = 0 \<longleftrightarrow> p1271 dvd n"
  using gfp_of_nat_eq [of n 0] by (simp add: dvd_eq_mod_eq_0)

lemma gfp_nat_cases: obtains n where "(x :: gfp) = of_nat n" "n < p1271"
proof
  have "0 \<le> Rep_gfp x" "Rep_gfp x < int p1271" using Rep_gfp [of x] by simp_all
  then show "x = of_nat (nat (Rep_gfp x))" "nat (Rep_gfp x) < p1271"
    unfolding Rep_gfp_inject [symmetric] Rep_of_nat by simp_all
qed

instance gfp :: idom
proof
  fix a b :: gfp
  assume ab: "a \<noteq> 0" "b \<noteq> 0"
  obtain m n where mn: "a = of_nat m" "b = of_nat n" by (metis gfp_nat_cases)
  then have "\<not> p1271 dvd m" "\<not> p1271 dvd n" using ab gfp_of_nat_zero by blast+
  then have "\<not> p1271 dvd m * n" by (simp add: p1271_dvd_mult)
  moreover have "a * b = of_nat (m * n)" using mn by simp
  ultimately show "a * b \<noteq> 0" using gfp_of_nat_zero by metis
qed

text \<open>Fermat's theorem, and the exponent of the inversion.\<close>

lemma gfp_fermat: "(x :: gfp) ^ p1271 = x"
proof -
  obtain n where n: "x = of_nat n" by (metis gfp_nat_cases)
  have "n ^ p1271 = n + (n ^ p1271 - n)" using fermat_p1271(2) [of n] by simp
  then have "x ^ p1271 = x + of_nat (n ^ p1271 - n)"
    unfolding n of_nat_power [symmetric] of_nat_add [symmetric] by simp
  moreover have "(of_nat (n ^ p1271 - n) :: gfp) = 0"
    using fermat_p1271(1) [of n] gfp_of_nat_zero by blast
  ultimately show ?thesis by simp
qed

lemma gfp_inverse: "x \<noteq> 0 \<Longrightarrow> (x :: gfp) * x ^ (p1271 - 2) = 1"
proof -
  assume x: "x \<noteq> 0"
  have "p1271 = Suc (Suc (p1271 - 2))" using p1271_pos(3) by simp
  then have "x * (x * x ^ (p1271 - 2)) = x" using gfp_fermat [of x] by (metis power_Suc)
  then show ?thesis using x by simp
qed

instantiation gfp :: field
begin

definition inverse_gfp :: "gfp \<Rightarrow> gfp" where "inverse_gfp x = x ^ (p1271 - 2)"
definition divide_gfp :: "gfp \<Rightarrow> gfp \<Rightarrow> gfp" where "divide_gfp x y = x * inverse y"

instance
proof
  fix a b :: gfp
  show "a \<noteq> 0 \<Longrightarrow> inverse a * a = 1" using gfp_inverse [of a] by (simp add: inverse_gfp_def mult.commute)
  show "a div b = a * inverse b" by (simp add: divide_gfp_def)
  show "inverse (0 :: gfp) = 0" using p1271_pos(3) by (simp add: inverse_gfp_def zero_power)
qed

end

text \<open>-1 is not a square.\<close>

lemma gfp_two: "(2 :: gfp) \<noteq> 0"
proof -
  have "\<not> p1271 dvd 2" using p1271_pos(3) by (auto dest: dvd_imp_le)
  then show ?thesis using gfp_of_nat_zero [of 2] by simp
qed

lemma gfp_square_minus_one: "(x :: gfp)\<^sup>2 \<noteq> - 1"
proof
  assume x: "x\<^sup>2 = - 1"
  obtain m where m: "p1271 = Suc (2 * m)" "odd m"
  proof
    show "p1271 = Suc (2 * (2 ^ 126 - 1))" by (simp add: p1271_def)
    show "odd (2 ^ 126 - 1 :: nat)" by simp
  qed
  have "x = x ^ p1271" by (simp only: gfp_fermat)
  also have "\<dots> = x * (x\<^sup>2) ^ m" unfolding m(1) by (simp only: power_Suc power_mult)
  also have "\<dots> = - x" unfolding x using m(2) by simp
  finally have "2 * x = 0" by (simp only: mult_2 eq_neg_iff_add_eq_0)
  then have "x = 0" using gfp_two by simp
  then show False using x by simp
qed

lemma gfp_sum_squares: "(a :: gfp)\<^sup>2 + b\<^sup>2 = 0 \<longleftrightarrow> a = 0 \<and> b = 0"
proof
  assume s: "a\<^sup>2 + b\<^sup>2 = 0"
  have "b = 0"
  proof (rule ccontr)
    assume b: "b \<noteq> 0"
    have "(a / b)\<^sup>2 = a\<^sup>2 / b\<^sup>2" by (simp add: power_divide)
    also have "a\<^sup>2 = - (b\<^sup>2)" using s by (simp add: eq_neg_iff_add_eq_0)
    also have "- (b\<^sup>2) / b\<^sup>2 = - 1" using b by simp
    finally show False using gfp_square_minus_one by blast
  qed
  then show "a = 0 \<and> b = 0" using s by simp
qed simp

section \<open>GF(p^2)\<close>

datatype fq = Fq (fq_re: gfp) (fq_im: gfp)

lemma fq_eq_iff: "x = y \<longleftrightarrow> fq_re x = fq_re y \<and> fq_im x = fq_im y"
  by (auto intro: fq.expand)

instantiation fq :: comm_ring_1
begin

definition "0 = Fq 0 0"
definition "1 = Fq 1 0"
definition "x + y = Fq (fq_re x + fq_re y) (fq_im x + fq_im y)"
definition "- x = Fq (- fq_re x) (- fq_im x)"
definition "x - y = Fq (fq_re x - fq_re y) (fq_im x - fq_im y)"
definition "x * y = Fq (fq_re x * fq_re y - fq_im x * fq_im y) (fq_re x * fq_im y + fq_im x * fq_re y)"

instance
  by standard
    (simp_all add: fq_eq_iff zero_fq_def one_fq_def plus_fq_def uminus_fq_def minus_fq_def
      times_fq_def algebra_simps)

end

lemma fq_parts [simp]:
  "fq_re (x + y) = fq_re x + fq_re y" "fq_im (x + y) = fq_im x + fq_im y"
  "fq_re (x - y) = fq_re x - fq_re y" "fq_im (x - y) = fq_im x - fq_im y"
  "fq_re (- x) = - fq_re x" "fq_im (- x) = - fq_im x"
  "fq_re (x * y) = fq_re x * fq_re y - fq_im x * fq_im y"
  "fq_im (x * y) = fq_re x * fq_im y + fq_im x * fq_re y"
  "fq_re 0 = 0" "fq_im 0 = 0" "fq_re 1 = 1" "fq_im 1 = 0"
  by (simp_all add: zero_fq_def one_fq_def plus_fq_def uminus_fq_def minus_fq_def times_fq_def)

definition fq_norm :: "fq \<Rightarrow> gfp" where
  "fq_norm x = (fq_re x)\<^sup>2 + (fq_im x)\<^sup>2"

lemma fq_norm_zero: "fq_norm x = 0 \<longleftrightarrow> x = 0"
  by (simp add: fq_norm_def gfp_sum_squares fq_eq_iff)

lemma fq_norm_mult: "fq_norm (x * y) = fq_norm x * fq_norm y"
  by (simp add: fq_norm_def power2_eq_square algebra_simps)

instantiation fq :: field
begin

definition inverse_fq :: "fq \<Rightarrow> fq" where
  "inverse_fq x = Fq (fq_re x * inverse (fq_norm x)) (- fq_im x * inverse (fq_norm x))"
definition divide_fq :: "fq \<Rightarrow> fq \<Rightarrow> fq" where "divide_fq x y = x * inverse y"

instance
proof
  fix a b :: fq
  show "inverse a * a = 1" if "a \<noteq> 0"
  proof -
    have n: "fq_norm a \<noteq> 0" using that by (simp add: fq_norm_zero)
    have "fq_re a * inverse (fq_norm a) * fq_re a + fq_im a * inverse (fq_norm a) * fq_im a =
        fq_norm a * inverse (fq_norm a)" by (simp add: fq_norm_def power2_eq_square algebra_simps)
    then show ?thesis using n by (simp add: fq_eq_iff inverse_fq_def)
  qed
  show "a div b = a * inverse b" by (simp add: divide_fq_def)
  show "inverse (0 :: fq) = 0" by (simp add: inverse_fq_def fq_eq_iff)
qed

end

lemma fq_two: "(2 :: fq) \<noteq> 0"
proof -
  have "fq_re (1 + 1) = 2" unfolding fq_parts by (rule one_add_one)
  moreover have "(2 :: fq) = 0 \<Longrightarrow> fq_re (1 + 1) = 0" by (simp only: one_add_one fq_parts)
  ultimately show ?thesis using gfp_two by metis
qed

end
