(* ===== verification/FourQ_Digits.thy ===== *)
theory FourQ_Digits
  imports Prelude
begin

text \<open>
  Digits of the portable FourQ arithmetic (\<open>oZKS/fourq/FourQ_internal.h\<close>,
  \<open>oZKS/fourq/generic/fp.h\<close>) with \<open>RADIX\<close> 64: the constant-time comparisons, the macros \<open>ADDC\<close>,
  \<open>SUBC\<close>, \<open>MUL\<close>, \<open>SHIFTR\<close>, \<open>SHIFTL\<close> and the multiprecision loops. A number is its list of digits, least
  significant digit first; \<open>digits_val\<close> reads it. A C loop over the digits is a recursion on the
  lists, carries and borrows are digits 0 or 1. The lemmas give the value of every result.
\<close>

type_synonym digit = u64

section \<open>Constant-time comparisons\<close>

definition is_digit_nonzero_ct :: "digit \<Rightarrow> digit" where
  "is_digit_nonzero_ct x = drop_bit 63 (x OR (0 - x))"

definition is_digit_zero_ct :: "digit \<Rightarrow> digit" where
  "is_digit_zero_ct x = 1 XOR is_digit_nonzero_ct x"

definition is_digit_lessthan_ct :: "digit \<Rightarrow> digit \<Rightarrow> digit" where
  "is_digit_lessthan_ct x y = drop_bit 63 (x XOR ((x XOR y) OR ((x - y) XOR y)))"

section \<open>Digit operations\<close>

text \<open>\<open>ADDC\<close> and \<open>SUBC\<close> return the carry (borrow) out and the digit.\<close>

definition ADDC :: "digit \<Rightarrow> digit \<Rightarrow> digit \<Rightarrow> digit \<times> digit" where
  "ADDC carryIn addend1 addend2 =
     (let tempReg = addend1 + carryIn; sumOut = addend2 + tempReg
      in (is_digit_lessthan_ct tempReg carryIn OR is_digit_lessthan_ct sumOut tempReg, sumOut))"

definition SUBC :: "digit \<Rightarrow> digit \<Rightarrow> digit \<Rightarrow> digit \<times> digit" where
  "SUBC borrowIn minuend subtrahend =
     (let tempReg = minuend - subtrahend;
          borrowReg = is_digit_lessthan_ct minuend subtrahend OR
            (borrowIn AND is_digit_zero_ct tempReg)
      in (borrowReg, tempReg - borrowIn))"

definition SHIFTR :: "digit \<Rightarrow> digit \<Rightarrow> nat \<Rightarrow> digit" where
  "SHIFTR highIn lowIn shift = drop_bit shift lowIn XOR push_bit (64 - shift) highIn"

definition SHIFTL :: "digit \<Rightarrow> digit \<Rightarrow> nat \<Rightarrow> digit" where
  "SHIFTL highIn lowIn shift = push_bit shift highIn XOR drop_bit (64 - shift) lowIn"

text \<open>The product of two digits, from the products of their halves; low digit first.\<close>

definition digit_x_digit :: "digit \<Rightarrow> digit \<Rightarrow> digit \<times> digit" where
  "digit_x_digit a b =
     (let mask_low = drop_bit 32 (-1); mask_high = push_bit 32 (-1);
          al = a AND mask_low; ah = drop_bit 32 a;
          bl = b AND mask_low; bh = drop_bit 32 b;
          albl = al * bl; albh = al * bh; ahbl = ah * bl; ahbh = ah * bh;
          c0 = albl AND mask_low;
          res1 = drop_bit 32 albl; res2 = ahbl AND mask_low; res3 = albh AND mask_low;
          temp = res1 + res2 + res3;
          carry = drop_bit 32 temp;
          c0 = c0 XOR push_bit 32 temp;
          res1 = drop_bit 32 ahbl; res2 = drop_bit 32 albh; res3 = ahbh AND mask_low;
          temp = res1 + res2 + res3 + carry;
          c1 = temp AND mask_low;
          carry = temp AND mask_high;
          c1 = c1 XOR ((ahbh AND mask_high) + carry)
      in (c0, c1))"

section \<open>Multiprecision loops\<close>

text \<open>The loops of \<open>ADDC\<close> and \<open>SUBC\<close> over the digits of two numbers; carry out and digits.\<close>

fun addc_loop :: "digit \<Rightarrow> digit list \<Rightarrow> digit list \<Rightarrow> digit \<times> digit list" where
  "addc_loop carry (a # as) (b # bs) =
     (let (carry, c) = ADDC carry a b; (carry, cs) = addc_loop carry as bs in (carry, c # cs))"
| "addc_loop carry _ _ = (carry, [])"

fun subc_loop :: "digit \<Rightarrow> digit list \<Rightarrow> digit list \<Rightarrow> digit \<times> digit list" where
  "subc_loop borrow (a # as) (b # bs) =
     (let (borrow, c) = SUBC borrow a b; (borrow, cs) = subc_loop borrow as bs in (borrow, c # cs))"
| "subc_loop borrow _ _ = (borrow, [])"

definition fourq_mp_add :: "digit list \<Rightarrow> digit list \<Rightarrow> digit \<times> digit list" where
  "fourq_mp_add a b = addc_loop 0 a b"

definition mp_subtract :: "digit list \<Rightarrow> digit list \<Rightarrow> digit \<times> digit list" where
  "mp_subtract a b = subc_loop 0 a b"

text \<open>
  The row \<open>a\<^sub>i * b\<close> of the schoolbook product, added into \<open>c\<close> from position \<open>k\<close> on; it returns the
  digit \<open>u\<close> that goes to the next position.
\<close>

fun mul_row :: "digit \<Rightarrow> digit list \<Rightarrow> nat \<Rightarrow> digit \<Rightarrow> digit list \<Rightarrow> digit \<times> digit list" where
  "mul_row ai [] k u c = (u, c)"
| "mul_row ai (bj # bs) k u c =
     (let (lo, hi) = digit_x_digit ai bj;
          (carry, v) = ADDC 0 lo u;
          u = hi + carry;
          (carry, v) = ADDC 0 (c ! k) v;
          u = u + carry
      in mul_row ai bs (Suc k) u (c[k := v]))"

fun mul_rows :: "digit list \<Rightarrow> digit list \<Rightarrow> nat \<Rightarrow> digit list \<Rightarrow> digit list" where
  "mul_rows [] b i c = c"
| "mul_rows (ai # as) b i c =
     (let (u, c) = mul_row ai b i 0 c in mul_rows as b (Suc i) (c[length b + i := u]))"

definition fourq_mp_mul :: "digit list \<Rightarrow> digit list \<Rightarrow> digit list" where
  "fourq_mp_mul a b = mul_rows a b 0 (replicate (length a + length b) 0)"

text \<open>The loops of \<open>SHIFTR\<close>: a number shifted right by fewer than 64 bits.\<close>

fun mp_shiftr :: "nat \<Rightarrow> digit list \<Rightarrow> digit list" where
  "mp_shiftr s [] = []"
| "mp_shiftr s [d] = [drop_bit s d]"
| "mp_shiftr s (d # e # ds) = SHIFTR e d s # mp_shiftr s (e # ds)"

section \<open>Values\<close>

fun digits_val :: "digit list \<Rightarrow> nat" where
  "digits_val [] = 0"
| "digits_val (d # ds) = unat d + 2 ^ 64 * digits_val ds"

lemma digit_less: "unat (d :: digit) < 2 ^ 64"
  using unsigned_less [of d] by simp

lemma digits_val_less: "digits_val ds < 2 ^ (64 * length ds)"
proof (induction ds)
  case (Cons d ds)
  have "digits_val (d # ds) < 2 ^ 64 + 2 ^ 64 * digits_val ds" using digit_less [of d] by simp
  also have "\<dots> = 2 ^ 64 * Suc (digits_val ds)" by simp
  also have "\<dots> \<le> 2 ^ 64 * 2 ^ (64 * length ds)" using Cons by (intro mult_le_mono2) simp
  also have "\<dots> = 2 ^ (64 * length (d # ds))" by (simp add: power_add)
  finally show ?case .
qed simp

lemma digits_val_replicate [simp]: "digits_val (replicate n 0) = 0"
  by (induction n) simp_all

lemma digits_val_append: "digits_val (xs @ ys) = digits_val xs + 2 ^ (64 * length xs) * digits_val ys"
  by (induction xs) (simp_all add: power_add algebra_simps)

lemma digit_less_num [simp]: "unat (d :: digit) < 18446744073709551616"
  using digit_less [of d] by simp

lemma digits_val_inj: "length xs = length ys \<Longrightarrow> digits_val xs = digits_val ys \<Longrightarrow> xs = ys"
proof (induction xs ys rule: list_induct2)
  case (Cons x xs y ys)
  have m: "digits_val (d # ds) mod 2 ^ 64 = unat d" for d ds by simp
  have "unat x = unat y" using m [of x xs] m [of y ys] Cons.prems by metis
  then have "x = y" "digits_val xs = digits_val ys" using Cons.prems by (simp_all add: word_unat_eq_iff)
  with Cons show ?case by simp
qed simp

text \<open>Bit 63 of a digit and the comparisons.\<close>

lemma bit_63: "bit (w :: digit) 63 = (2 ^ 63 \<le> unat w)"
proof -
  have "bit w 63 = bit (unat w) 63" by (simp add: bit_unsigned_iff)
  also have "\<dots> = odd (unat w div 2 ^ 63)" by (simp add: bit_iff_odd)
  also have "\<dots> = (1 \<le> unat w div 2 ^ 63)"
  proof -
    have "unat w div 2 ^ 63 < 2" by (rule less_mult_imp_div_less) (use digit_less [of w] in simp)
    then show ?thesis by (cases "unat w div 2 ^ 63 = 0") (auto simp: less_2_cases_iff)
  qed
  also have "\<dots> = (2 ^ 63 \<le> unat w)" by (simp add: less_eq_div_iff_mult_less_eq)
  finally show ?thesis .
qed

lemma drop_bit_63: "drop_bit 63 (w :: digit) = of_bool (bit w 63)"
proof (rule bit_word_eqI)
  fix n assume "n < LENGTH(64)"
  have "bit w (63 + n) \<Longrightarrow> n = 0" using bit_imp_le_length [of w "63 + n"] by simp
  then show "bit (drop_bit 63 w) n = bit (of_bool (bit w 63) :: digit) n"
    by (cases n) (auto simp: bit_simps)
qed

lemma unat_sub_digit: "unat ((x :: digit) - y) =
    (if unat y \<le> unat x then unat x - unat y else 2 ^ 64 + unat x - unat y)"
  by (simp add: unat_sub_if_size word_size) linarith

lemma digit_lessthan: "is_digit_lessthan_ct x y = of_bool (unat x < unat y)"
proof -
  have "bit (x XOR ((x XOR y) OR ((x - y) XOR y))) 63 = (unat x < unat y)"
    using digit_less [of x] digit_less [of y]
    unfolding bit_xor_iff bit_or_iff unfolding bit_63 unat_sub_digit 
    by (cases "unat y \<le> unat x") (simp_all del: digit_less_num, linarith+)
  then show ?thesis by (simp only: is_digit_lessthan_ct_def drop_bit_63)
qed

lemma digit_nonzero: "is_digit_nonzero_ct x = of_bool (x \<noteq> 0)"
proof -
  have "bit (x OR (0 - x)) 63 = (unat x \<noteq> 0)"
    using digit_less [of x] unfolding bit_or_iff unfolding bit_63 unat_sub_digit
    by (simp del: digit_less_num) linarith
  then show ?thesis by (simp only: is_digit_nonzero_ct_def drop_bit_63 unat_eq_0)
qed

lemma digit_zero: "is_digit_zero_ct x = of_bool (x = 0)"
  by (simp add: is_digit_zero_ct_def digit_nonzero)

section \<open>The value of the digit operations\<close>

lemma unat_add_digit: "unat ((x :: digit) + y) =
    (if unat x + unat y < 2 ^ 64 then unat x + unat y else unat x + unat y - 2 ^ 64)"
  by (simp add: unat_plus_if_size word_size)

lemma or_of_bool: "(of_bool p :: digit) OR of_bool q = of_bool (p \<or> q)"
  by (cases p; cases q) simp_all

lemma and_of_bool: "(of_bool p :: digit) AND of_bool q = of_bool (p \<and> q)"
  by (cases p; cases q) simp_all

lemma digit_bit_cases:
  assumes "unat (c :: digit) \<le> 1"
  obtains p where "c = of_bool p"
  using assms by (metis le_eq_less_or_eq less_one of_bool_eq(1,2) unat_1 unat_eq_0 word_unat_eq_iff)

lemma ADDC_spec:
  assumes "unat c \<le> 1" "ADDC c a b = (co, s)"
  shows "unat s + 2 ^ 64 * unat co = unat a + unat b + unat c" "unat co \<le> 1"
proof -
  have s: "s = b + (a + c)" and co: "co = of_bool (unat (a + c) < unat c \<or> unat (b + (a + c)) < unat (a + c))"
    using assms(2) by (auto simp: ADDC_def Let_def digit_lessthan or_of_bool)
  show "unat s + 2 ^ 64 * unat co = unat a + unat b + unat c"
    using assms(1) digit_less [of a] digit_less [of b] unfolding s co unat_add_digit
    by (simp del: digit_less_num split: if_splits) linarith
  show "unat co \<le> 1" by (simp add: co)
qed

lemma SUBC_spec:
  assumes "unat c \<le> 1" "SUBC c a b = (bo, d)"
  shows "unat d + unat b + unat c = unat a + 2 ^ 64 * unat bo" "unat bo \<le> 1"
proof -
  obtain p where p: "c = of_bool p" by (rule digit_bit_cases [OF assms(1)])
  have d: "d = a - b - c" and bo: "bo = of_bool (unat a < unat b \<or> p \<and> a = b)"
    using assms(2) by (auto simp: SUBC_def Let_def digit_lessthan digit_zero or_of_bool and_of_bool p)
  show "unat d + unat b + unat c = unat a + 2 ^ 64 * unat bo"
    using digit_less [of a] digit_less [of b] unfolding d bo unat_sub_digit word_unat_eq_iff p
    by (simp del: digit_less_num split: if_splits) linarith
  show "unat bo \<le> 1" by (simp add: bo)
qed

lemma addc_loop_spec:
  "length as = length bs \<Longrightarrow> unat c \<le> 1 \<Longrightarrow> addc_loop c as bs = (co, s) \<Longrightarrow>
    digits_val s + 2 ^ (64 * length as) * unat co = digits_val as + digits_val bs + unat c \<and>
    unat co \<le> 1 \<and> length s = length as"
proof (induction as bs arbitrary: c co s rule: list_induct2)
  case (Cons a as b bs)
  obtain c1 d where 1: "ADDC c a b = (c1, d)" by fastforce
  obtain ds where 2: "addc_loop c1 as bs = (co, ds)" "s = d # ds"
    using Cons.prems 1 by (auto split: prod.splits)
  note h = ADDC_spec [OF Cons.prems(1) 1] and t = Cons.IH [OF ADDC_spec(2) [OF Cons.prems(1) 1] 2(1)]
  have "digits_val s + 2 ^ (64 * length (a # as)) * unat co =
      unat d + 2 ^ 64 * (digits_val ds + 2 ^ (64 * length as) * unat co)"
    by (simp add: 2 power_add algebra_simps)
  also have "\<dots> = unat d + 2 ^ 64 * unat c1 + 2 ^ 64 * (digits_val as + digits_val bs)"
    using t by (simp add: algebra_simps)
  also have "\<dots> = digits_val (a # as) + digits_val (b # bs) + unat c"
    unfolding h(1) by (simp add: algebra_simps)
  finally show ?case using t 2 by simp
qed simp

lemma subc_loop_spec:
  "length as = length bs \<Longrightarrow> unat c \<le> 1 \<Longrightarrow> subc_loop c as bs = (bo, d) \<Longrightarrow>
    digits_val d + digits_val bs + unat c = digits_val as + 2 ^ (64 * length as) * unat bo \<and>
    unat bo \<le> 1 \<and> length d = length as"
proof (induction as bs arbitrary: c bo d rule: list_induct2)
  case (Cons a as b bs)
  obtain c1 e where 1: "SUBC c a b = (c1, e)" by fastforce
  obtain es where 2: "subc_loop c1 as bs = (bo, es)" "d = e # es"
    using Cons.prems 1 by (auto split: prod.splits)
  note h = SUBC_spec [OF Cons.prems(1) 1] and t = Cons.IH [OF SUBC_spec(2) [OF Cons.prems(1) 1] 2(1)]
  have "digits_val d + digits_val (b # bs) + unat c =
      (unat e + unat b + unat c) + 2 ^ 64 * (digits_val es + digits_val bs)"
    by (simp add: 2 algebra_simps)
  also have "\<dots> = unat a + 2 ^ 64 * (digits_val es + digits_val bs + unat c1)"
    unfolding h(1) by (simp add: algebra_simps)
  also have "\<dots> = unat a + 2 ^ 64 * (digits_val as + 2 ^ (64 * length as) * unat bo)"
    using t by simp
  also have "\<dots> = digits_val (a # as) + 2 ^ (64 * length (a # as)) * unat bo"
    by (simp add: power_add algebra_simps)
  finally show ?case using t 2 by simp
qed simp

text \<open>Halves of a digit.\<close>

lemma low_half: "unat (x AND drop_bit 32 (-1 :: digit)) = unat x mod 2 ^ 32"
proof -
  have "x AND drop_bit 32 (-1) = take_bit 32 x"
    by (rule bit_word_eqI) (auto simp: bit_simps)
  then show ?thesis by (simp only: unsigned_take_bit_eq) (simp only: take_bit_eq_mod)
qed

lemma high_half: "unat (drop_bit 32 (x :: digit)) = unat x div 2 ^ 32"
  by (simp only: unat_drop_bit_eq) (simp only: drop_bit_eq_div)

lemma high_mask_word: "x AND push_bit 32 (-1 :: digit) = push_bit 32 (drop_bit 32 x)"
  by (rule bit_word_eqI) (auto simp: bit_simps)

lemma high_mask: "unat (x AND push_bit 32 (-1 :: digit)) = 2 ^ 32 * (unat x div 2 ^ 32)"
proof -
  have "unat (x AND push_bit 32 (-1)) = unat (push_bit 32 (drop_bit 32 x))"
    by (simp only: high_mask_word)
  also have "\<dots> = take_bit 64 (push_bit 32 (unat x div 2 ^ 32))"
    by (simp add: unsigned_push_bit_eq high_half)
  also have "\<dots> = 2 ^ 32 * (unat x div 2 ^ 32)"
    using digit_less [of x]
    by (simp add: push_bit_eq_mult take_bit_nat_eq_self_iff less_mult_imp_div_less mult.commute
        del: digit_less_num)
  finally show ?thesis .
qed

lemma unat_push_32: "unat (push_bit 32 (t :: digit)) = 2 ^ 32 * (unat t mod 2 ^ 32)"
proof -
  have "unat (push_bit 32 t) = take_bit 64 (push_bit 32 (unat t))"
    by (simp add: unsigned_push_bit_eq)
  also have "\<dots> = push_bit 32 (take_bit 32 (unat t))" by (simp add: take_bit_push_bit)
  finally show ?thesis by (simp add: push_bit_eq_mult take_bit_eq_mod)
qed

lemma xor_halves:
  "(x AND drop_bit 32 (-1 :: digit)) XOR push_bit 32 y = (x AND drop_bit 32 (-1)) + push_bit 32 y"
proof -
  let ?x = "x AND drop_bit 32 (-1)" and ?y = "push_bit 32 y"
  have d: "?x AND ?y = 0" by (rule bit_word_eqI) (auto simp: bit_simps)
  then have "?x + ?y = ?x OR ?y" by (simp only: disjunctive_add_eq_or)
  also have "\<dots> = ?x XOR ?y" by (rule bit_word_eqI) (auto simp: bit_simps)
  finally show ?thesis by simp
qed

lemma half_product:
  assumes "unat (x :: digit) < 2 ^ 32" "unat (y :: digit) < 2 ^ 32"
  shows "unat (x * y) = unat x * unat y"
proof -
  have "unat x * unat y < 2 ^ 32 * 2 ^ 32" using assms by (intro mult_strict_mono) auto
  then have "unat x * unat y < 2 ^ LENGTH(64)" by simp
  then show ?thesis by (simp only: unat_mult_lem)
qed

text \<open>The sum of the four partial products, as the code collects it.\<close>

lemma unat_add_small: "unat (x :: digit) + unat y < 2 ^ 64 \<Longrightarrow> unat (x + y) = unat x + unat y"
  by (simp add: unat_add_digit)

lemma unat_add_halves:
  assumes "unat (x :: digit) < 2 ^ 32" "unat (y :: digit) < 2 ^ 32" "unat (z :: digit) < 2 ^ 32"
  shows "unat (x + y + z) = unat x + unat y + unat z"
    and "unat (w :: digit) < 2 ^ 32 \<Longrightarrow> unat (x + y + z + w) = unat x + unat y + unat z + unat w"
  using assms by (simp_all add: unat_add_digit)

text \<open>The sum of the four partial products, as the code collects it.\<close>

lemma product_columns:
  fixes p q r s B :: nat
  assumes t1: "t1 = p div B + r mod B + q mod B" and t2: "t2 = r div B + q div B + s mod B + t1 div B"
  shows "(p mod B + B * (t1 mod B)) + B * B * (t2 mod B + (B * (s div B) + B * (t2 div B))) =
    p + B * (q + r) + B * B * s"
proof -
  have d: "n mod B = n - B * (n div B)" "B * (n div B) \<le> n" for n
    by (simp_all add: minus_mult_div_eq_mod)
  have i: "int (n mod B) = int n - int B * int (n div B)" for n
    using d [of n] by simp
  have "int ((p mod B + B * (t1 mod B)) + B * B * (t2 mod B + (B * (s div B) + B * (t2 div B)))) =
      int (p + B * (q + r) + B * B * s)"
    unfolding of_nat_add of_nat_mult i unfolding t2 of_nat_add i unfolding t1 of_nat_add i
    by (simp add: algebra_simps)
  then show ?thesis by (simp only: of_nat_eq_iff)
qed

lemma half_less: "unat (x :: digit) div 2 ^ 32 < 2 ^ 32"
  using digit_less [of x] by (simp add: less_mult_imp_div_less del: digit_less_num)

lemma digit_x_digit_spec:
  assumes "digit_x_digit a b = (lo, hi)"
  shows "unat lo + 2 ^ 64 * unat hi = unat a * unat b"
proof -
  let ?B = "2 ^ 32 :: nat" and ?l = "\<lambda>x. x AND drop_bit 32 (-1) :: digit"
    and ?h = "\<lambda>x. x AND push_bit 32 (-1) :: digit"
  define al ah bl bh where h: "al = ?l a" "ah = drop_bit 32 a" "bl = ?l b" "bh = drop_bit 32 b"
  define P Q R S where w: "P = al * bl" "Q = al * bh" "R = ah * bl" "S = ah * bh"
  define T1 where "T1 = drop_bit 32 P + ?l R + ?l Q"
  define T2 where "T2 = drop_bit 32 R + drop_bit 32 Q + ?l S + drop_bit 32 T1"
  have u: "unat al = unat a mod ?B" "unat ah = unat a div ?B" "unat bl = unat b mod ?B" "unat bh = unat b div ?B"
    unfolding h by (simp_all only: low_half high_half)
  have lt: "unat al < ?B" "unat ah < ?B" "unat bl < ?B" "unat bh < ?B"
    unfolding u by (simp_all only: half_less) simp_all
  have pr: "unat P = unat al * unat bl" "unat Q = unat al * unat bh" "unat R = unat ah * unat bl"
    "unat S = unat ah * unat bh" unfolding w using lt by (simp_all only: half_product)
  have hs: "unat (drop_bit 32 x) < ?B" "unat (?l x) < ?B" for x :: digit
    unfolding low_half high_half by (simp_all only: half_less) simp
  have t1: "unat T1 = unat P div ?B + unat R mod ?B + unat Q mod ?B"
    unfolding T1_def low_half [symmetric] high_half [symmetric]
    by (rule unat_add_halves(1) [OF hs(1,2,2)])
  have t2: "unat T2 = unat R div ?B + unat Q div ?B + unat S mod ?B + unat T1 div ?B"
    unfolding T2_def low_half [symmetric] high_half [symmetric]
    by (rule unat_add_halves(2) [OF hs(1,1,2,1)])
  have lo: "lo = ?l P + push_bit 32 T1"
  proof -
    have "lo = ?l P XOR push_bit 32 T1"
      using assms unfolding digit_x_digit_def Let_def T1_def w h by simp
    then show ?thesis by (simp only: xor_halves)
  qed
  have hi: "hi = ?l T2 + (?h S + ?h T2)"
  proof -
    have "hi = ?l T2 XOR (?h S + ?h T2)"
      using assms unfolding digit_x_digit_def Let_def T1_def T2_def w h by simp
    then show ?thesis by (simp only: high_mask_word xor_halves flip: push_bit_add)
  qed
  let ?lo = "unat P mod ?B + ?B * (unat T1 mod ?B)"
    and ?hi = "unat T2 mod ?B + (?B * (unat S div ?B) + ?B * (unat T2 div ?B))"
  have "?lo + ?B * ?B * ?hi = unat P + ?B * (unat Q + unat R) + ?B * ?B * unat S"
    by (rule product_columns [OF t1 t2])
  also have "\<dots> = (unat al + ?B * unat ah) * (unat bl + ?B * unat bh)"
    unfolding pr by (simp add: algebra_simps)
  also have "\<dots> = unat a * unat b" unfolding u by simp
  finally have t: "?lo + ?B * ?B * ?hi = unat a * unat b" .
  have lo_lt: "?lo < 2 ^ 64"
  proof -
    have l: "x < ?B \<Longrightarrow> y < ?B \<Longrightarrow> x + ?B * y < 2 ^ 64" for x y :: nat by simp
    show ?thesis by (rule l) simp_all
  qed
  have "unat a * unat b < 2 ^ 64 * 2 ^ 64"
    by (rule mult_strict_mono) (simp_all add: digit_less)
  moreover have l: "x + ?B * ?B * y = n \<Longrightarrow> n < 2 ^ 64 * 2 ^ 64 \<Longrightarrow> y < 2 ^ 64" for x y n :: nat by simp
  ultimately have hi_lt: "?hi < 2 ^ 64" using t by blast
  have "unat lo = ?lo" unfolding lo using lo_lt
    by (simp only: unat_add_small low_half unat_push_32)
  moreover have "unat hi = ?hi"
  proof -
    have "unat (?h S + ?h T2) = unat (?h S) + unat (?h T2)"
      by (intro unat_add_small, unfold high_mask, rule le_less_trans [OF le_add2 hi_lt])
    then show ?thesis unfolding hi using hi_lt by (simp only: unat_add_small low_half high_mask)
  qed
  ultimately show ?thesis using t by simp
qed

section \<open>The value of a product\<close>

lemma digits_val_update:
  assumes "k < length c"
  shows "digits_val (c[k := v]) + 2 ^ (64 * k) * unat (c ! k) = digits_val c + 2 ^ (64 * k) * unat v"
  using assms
proof (induction c arbitrary: k)
  case (Cons d ds)
  show ?case
  proof (cases k)
    case (Suc j)
    have "digits_val (ds[j := v]) + 2 ^ (64 * j) * unat (ds ! j) = digits_val ds + 2 ^ (64 * j) * unat v"
      using Cons Suc by simp
    then have "2 ^ 64 * (digits_val (ds[j := v]) + 2 ^ (64 * j) * unat (ds ! j)) =
        2 ^ 64 * (digits_val ds + 2 ^ (64 * j) * unat v)" by simp
    then show ?thesis using Suc by (simp add: power_add algebra_simps)
  qed simp
qed simp

text \<open>One step of a row: the running digit never overflows.\<close>

lemma mul_step:
  assumes "digit_x_digit a b = (lo, hi)" "ADDC 0 lo u = (c1, v1)" "ADDC 0 x v1 = (c2, v2)"
  shows "unat v2 + 2 ^ 64 * unat (hi + c1 + c2) = unat a * unat b + unat u + unat x"
proof -
  have p: "unat lo + 2 ^ 64 * unat hi = unat a * unat b" by (rule digit_x_digit_spec [OF assms(1)])
  have 1: "unat v1 + 2 ^ 64 * unat c1 = unat lo + unat u" using ADDC_spec(1) [OF _ assms(2)] by simp
  have 2: "unat v2 + 2 ^ 64 * unat c2 = unat x + unat v1" using ADDC_spec(1) [OF _ assms(3)] by simp
  have s: "unat v2 + 2 ^ 64 * (unat hi + unat c1 + unat c2) = unat a * unat b + unat u + unat x"
    using p 1 2 by simp
  have "unat a * unat b \<le> (2 ^ 64 - 1) * (2 ^ 64 - 1)"
    using digit_less [of a] digit_less [of b] by (intro mult_le_mono) (simp_all del: digit_less_num)
  moreover have "unat u \<le> 2 ^ 64 - 1" "unat x \<le> 2 ^ 64 - 1"
    using digit_less [of u] digit_less [of x] by (simp_all del: digit_less_num)
  ultimately have "unat hi + unat c1 + unat c2 < 2 ^ 64" using s by simp
  then have "unat (hi + c1 + c2) = unat hi + unat c1 + unat c2"
    by (simp add: unat_add_digit)
  then show ?thesis using s by simp
qed

lemma mul_row_spec:
  "k + length bs \<le> length c \<Longrightarrow> mul_row a bs k u c = (u', c') \<Longrightarrow>
    digits_val c' + 2 ^ (64 * (k + length bs)) * unat u' =
      digits_val c + 2 ^ (64 * k) * (unat a * digits_val bs + unat u) \<and>
    length c' = length c \<and> (\<forall>i. k + length bs \<le> i \<longrightarrow> c' ! i = c ! i)"
proof (induction a bs k u c arbitrary: u' c' rule: mul_row.induct)
  case (2 ai bj bs k u c)
  obtain lo hi where m: "digit_x_digit ai bj = (lo, hi)" by fastforce
  obtain c1 v1 where a1: "ADDC 0 lo u = (c1, v1)" by fastforce
  obtain c2 v2 where a2: "ADDC 0 (c ! k) v1 = (c2, v2)" by fastforce
  let ?u = "hi + c1 + c2"
  have r: "mul_row ai bs (Suc k) ?u (c[k := v2]) = (u', c')" using "2.prems"(2) by (simp add: m a1 a2)
  have ih: "digits_val c' + 2 ^ (64 * (Suc k + length bs)) * unat u' =
      digits_val (c[k := v2]) + 2 ^ (64 * Suc k) * (unat ai * digits_val bs + unat ?u)"
    "length c' = length c" "\<forall>i. Suc k + length bs \<le> i \<longrightarrow> c' ! i = (c[k := v2]) ! i"
    using "2.IH" [OF m [symmetric] refl a1 [symmetric] refl refl a2 [symmetric] refl refl _ r] "2.prems"(1)
    by simp_all
  have s: "unat v2 + 2 ^ 64 * unat ?u = unat ai * unat bj + unat u + unat (c ! k)"
    by (rule mul_step [OF m a1 a2])
  have w: "digits_val (c[k := v2]) + 2 ^ (64 * k) * unat (c ! k) = digits_val c + 2 ^ (64 * k) * unat v2"
    using "2.prems"(1) by (intro digits_val_update) simp
  have "digits_val c' + 2 ^ (64 * (k + length (bj # bs))) * unat u' + 2 ^ (64 * k) * unat (c ! k) =
      digits_val (c[k := v2]) + 2 ^ (64 * k) * unat (c ! k) +
        2 ^ (64 * Suc k) * (unat ai * digits_val bs + unat ?u)"
    using ih(1) by simp
  also have "\<dots> = digits_val c + 2 ^ (64 * k) * (unat v2 + 2 ^ 64 * unat ?u) +
      2 ^ (64 * Suc k) * (unat ai * digits_val bs)"
    unfolding w by (simp add: power_add algebra_simps)
  also have "\<dots> = digits_val c + 2 ^ (64 * k) * (unat ai * digits_val (bj # bs) + unat u) +
      2 ^ (64 * k) * unat (c ! k)"
    unfolding s by (simp add: power_add algebra_simps)
  finally show ?case using ih(2,3) by auto
qed auto

lemma mul_rows_spec:
  "i + length as + length b \<le> length c \<Longrightarrow> (\<forall>j. length b + i \<le> j \<longrightarrow> j < length c \<longrightarrow> c ! j = 0) \<Longrightarrow>
    digits_val (mul_rows as b i c) = digits_val c + 2 ^ (64 * i) * (digits_val as * digits_val b) \<and>
    length (mul_rows as b i c) = length c"
proof (induction as b i c rule: mul_rows.induct)
  case (2 ai as b i c)
  obtain u c' where r: "mul_row ai b i 0 c = (u, c')" by fastforce
  let ?c = "c'[length b + i := u]"
  have s: "digits_val c' + 2 ^ (64 * (i + length b)) * unat u = digits_val c + 2 ^ (64 * i) * (unat ai * digits_val b)"
    "length c' = length c" "\<forall>j. i + length b \<le> j \<longrightarrow> c' ! j = c ! j"
    using mul_row_spec [OF _ r] "2.prems"(1) by simp_all
  have k: "length b + i < length c'" using "2.prems"(1) s(2) by simp
  then have z: "c' ! (length b + i) = 0" using s "2.prems"(2) by (simp add: add.commute)
  have u: "digits_val ?c = digits_val c + 2 ^ (64 * i) * (unat ai * digits_val b)"
    using digits_val_update [OF k, of u] s(1) unfolding z by (simp add: add.commute)
  have "\<forall>j. length b + Suc i \<le> j \<longrightarrow> j < length ?c \<longrightarrow> ?c ! j = 0"
    using s(2,3) "2.prems"(2) by (simp add: nth_list_update)
  moreover have "Suc i + length as + length b \<le> length ?c" using "2.prems"(1) s(2) by simp
  ultimately have "digits_val (mul_rows as b (Suc i) ?c) =
      digits_val ?c + 2 ^ (64 * Suc i) * (digits_val as * digits_val b)"
    "length (mul_rows as b (Suc i) ?c) = length ?c"
    using "2.IH" [OF r [symmetric] refl] by simp_all
  then have "digits_val (mul_rows (ai # as) b i c) =
      digits_val c + 2 ^ (64 * i) * (unat ai * digits_val b) +
        2 ^ (64 * Suc i) * (digits_val as * digits_val b)"
    "length (mul_rows (ai # as) b i c) = length c"
    using s(2) u by (simp_all add: r)
  then show ?case by (simp add: power_add algebra_simps)
qed simp

lemma fourq_mp_mul_spec:
  "digits_val (fourq_mp_mul a b) = digits_val a * digits_val b"
  "length (fourq_mp_mul a b) = length a + length b"
  using mul_rows_spec [of 0 a b "replicate (length a + length b) 0"]
  by (simp_all add: fourq_mp_mul_def)

section \<open>The value of a shift\<close>

lemma SHIFTR_spec:
  assumes "0 < s" "s < 64"
  shows "unat (SHIFTR hi lo s) = unat lo div 2 ^ s + 2 ^ (64 - s) * (unat hi mod 2 ^ s)"
proof -
  let ?l = "drop_bit s lo" and ?h = "push_bit (64 - s) hi"
  have l: "unat ?l = unat lo div 2 ^ s" by (simp only: unat_drop_bit_eq) (simp only: drop_bit_eq_div)
  have "unat ?h = take_bit 64 (push_bit (64 - s) (unat hi))" by (simp add: unsigned_push_bit_eq)
  also have "\<dots> = push_bit (64 - s) (take_bit s (unat hi))" using assms by (simp add: take_bit_push_bit)
  finally have h: "unat ?h = 2 ^ (64 - s) * (unat hi mod 2 ^ s)"
    by (simp add: push_bit_eq_mult take_bit_eq_mod mult.commute)
  have "?l AND ?h = 0"
  proof (rule bit_word_eqI)
    fix n assume n: "n < LENGTH(64)"
    have "bit lo (s + n) \<Longrightarrow> s + n < 64" using bit_imp_le_length [of lo "s + n"] by simp
    then show "bit (?l AND ?h) n = bit (0 :: digit) n" by (auto simp: bit_simps)
  qed
  then have "?l + ?h = ?l OR ?h" by (rule disjunctive_add_eq_or)
  also have "\<dots> = ?l XOR ?h" using \<open>?l AND ?h = 0\<close>
    by (intro bit_word_eqI) (metis bit_0_eq bit_and_iff bit_or_iff bit_xor_iff bot_apply bot_bool_def)
  finally have x: "SHIFTR hi lo s = ?l + ?h" by (simp add: SHIFTR_def)
  have "unat ?l + unat ?h < 2 ^ 64"
  proof -
    have e: "(2 :: nat) ^ (64 - s) * 2 ^ s = 2 ^ 64" using assms by (simp flip: power_add)
    have "unat ?l < 2 ^ (64 - s)"
      unfolding l using digit_less [of lo] e by (intro less_mult_imp_div_less) (simp only:)
    moreover have "unat hi mod 2 ^ s + 1 \<le> 2 ^ s" by (simp add: Suc_leI)
    then have "2 ^ (64 - s) * (unat hi mod 2 ^ s + 1) \<le> 2 ^ (64 - s) * 2 ^ s" by (rule mult_le_mono2)
    ultimately show ?thesis unfolding h e by (simp only: distrib_left)
  qed
  then show ?thesis unfolding x by (simp only: unat_add_small l h)
qed

lemma length_mp_shiftr [simp]: "length (mp_shiftr s ds) = length ds"
  by (induction s ds rule: mp_shiftr.induct) simp_all

lemma mp_shiftr_spec:
  assumes "0 < s" "s < 64"
  shows "digits_val (mp_shiftr s ds) = digits_val ds div 2 ^ s"
  using assms
proof (induction s ds rule: mp_shiftr.induct)
  case (2 s d)
  show ?case by (simp only: mp_shiftr.simps digits_val.simps unat_drop_bit_eq mult_0_right add_0_right)
      (simp only: drop_bit_eq_div)
next
  case (3 s d e ds)
  let ?B = "2 ^ 64 :: nat" and ?s = "2 ^ s :: nat" and ?t = "2 ^ (64 - s) :: nat" and ?v = "digits_val (e # ds)"
  have B: "?B = ?t * ?s" using 3(2,3) by (simp flip: power_add)
  have "?v = unat e + ?s * (?t * digits_val ds)" by (simp only: digits_val.simps B ac_simps)
  then have m: "?v mod ?s = unat e mod ?s" by (simp only: mod_mult_self2)
  have "unat d + ?B * ?v = unat d + ?s * (?t * ?v)" by (simp only: B ac_simps)
  then have "digits_val (d # e # ds) div ?s = unat d div ?s + ?t * ?v"
    unfolding digits_val.simps(2) [of d] by (simp only:, subst div_mult_self2) simp_all
  also have "?t * ?v = ?t * (?s * (?v div ?s) + ?v mod ?s)" by simp
  also have "\<dots> = ?t * (unat e mod ?s) + ?B * (?v div ?s)" unfolding B m by (simp only: distrib_left ac_simps)
  finally show ?case using 3 by (simp only: mp_shiftr.simps digits_val.simps SHIFTR_spec ac_simps)
qed simp

end
