(* ===== verification/FourQ_Fp.thy ===== *)
theory FourQ_Fp
  imports FourQ_Field FourQ_Digits
begin

text \<open>
  Arithmetic of GF(2^127 - 1) as the portable code computes it (\<open>oZKS/fourq/generic/fp.h\<close>): an
  element is two digits with a value below 2^127 (zero has the two representations 0 and p), a
  result is folded at bit 127. \<open>felm\<close> is the representation invariant, \<open>fp_abs\<close> the element of
  GF(p); every operation keeps the invariant and computes the field operation. The C functions
  write their result after they have read their arguments, so a call whose result overwrites an
  argument is a call of the function.
\<close>

abbreviation (input) NWORDS_FIELD :: nat where "NWORDS_FIELD \<equiv> 2"

type_synonym felm_t = "digit list"

definition mask_7fff :: digit where "mask_7fff = drop_bit 1 (-1)"
definition prime1271_0 :: digit where "prime1271_0 = -1"

definition fpcopy1271 :: "felm_t \<Rightarrow> felm_t" where
  "fpcopy1271 a = take NWORDS_FIELD a"

definition fpzero1271 :: felm_t where
  "fpzero1271 = replicate NWORDS_FIELD 0"

definition fpadd1271 :: "felm_t \<Rightarrow> felm_t \<Rightarrow> felm_t" where
  "fpadd1271 a b =
     (let (carry, c) = addc_loop 0 a b;
          carry = drop_bit 63 (c ! 1);
          c = c[1 := c ! 1 AND mask_7fff]
      in snd (addc_loop carry c (replicate NWORDS_FIELD 0)))"

definition fpsub1271 :: "felm_t \<Rightarrow> felm_t \<Rightarrow> felm_t" where
  "fpsub1271 a b =
     (let (borrow, c) = subc_loop 0 a b;
          borrow = drop_bit 63 (c ! 1);
          c = c[1 := c ! 1 AND mask_7fff]
      in snd (subc_loop borrow c (replicate NWORDS_FIELD 0)))"

text \<open>The last digit of the negation is subtracted without the borrow.\<close>

definition fpneg1271 :: "felm_t \<Rightarrow> felm_t" where
  "fpneg1271 a =
     (let (borrow, a0) = SUBC 0 prime1271_0 (a ! 0) in [a0, mask_7fff - a ! 1])"

text \<open>
  The loop that shifts the upper half left by one bit, \<open>bit_mask\<close> coming in below, and adds it to
  the lower half.
\<close>

fun fold_loop :: "digit \<Rightarrow> digit \<Rightarrow> digit list \<Rightarrow> digit list \<Rightarrow> digit list" where
  "fold_loop bit_mask carry (l # ls) (h # hs) =
     (let temp = drop_bit 63 h;
          h = push_bit 1 h + bit_mask;
          (carry, l) = ADDC carry l h
      in l # fold_loop temp carry ls hs)"
| "fold_loop bit_mask carry _ _ = []"

definition fpmul1271 :: "felm_t \<Rightarrow> felm_t \<Rightarrow> felm_t" where
  "fpmul1271 a b =
     (let t = fourq_mp_mul a b;
          bit_mask = drop_bit 63 (t ! 1);
          t = t[1 := t ! 1 AND mask_7fff];
          l = fold_loop bit_mask 0 (take NWORDS_FIELD t) (drop NWORDS_FIELD t);
          carry = drop_bit 63 (l ! 1);
          l = l[1 := l ! 1 AND mask_7fff]
      in snd (addc_loop carry l (replicate NWORDS_FIELD 0)))"

definition fpsqr1271 :: "felm_t \<Rightarrow> felm_t" where
  "fpsqr1271 a = fpmul1271 a a"

definition mod1271 :: "felm_t \<Rightarrow> felm_t" where
  "mod1271 a =
     (let (borrow, a) = subc_loop 0 a [prime1271_0, mask_7fff];
          mask = 0 - borrow
      in snd (addc_loop 0 a [mask, drop_bit 1 mask]))"

definition fpdiv1271 :: "felm_t \<Rightarrow> felm_t" where
  "fpdiv1271 a =
     (let mask = 0 - (a ! 0 AND 1);
          (carry, a) = addc_loop 0 [mask, drop_bit 1 mask] a
      in [SHIFTR (a ! 1) (a ! 0) 1, drop_bit 1 (a ! 1)])"

text \<open>\<open>n\<close> squarings in a row.\<close>

primrec fpsqr_times :: "nat \<Rightarrow> felm_t \<Rightarrow> felm_t" where
  "fpsqr_times 0 t = t"
| "fpsqr_times (Suc n) t = fpsqr_times n (fpsqr1271 t)"

text \<open>The addition chain for the exponent 2^125 - 1.\<close>

definition fpexp1251 :: "felm_t \<Rightarrow> felm_t" where
  "fpexp1251 a =
     (let t2 = fpsqr1271 a;
          t2 = fpmul1271 a t2;
          t3 = fpsqr1271 t2;
          t3 = fpsqr1271 t3;
          t3 = fpmul1271 t2 t3;
          t4 = fpsqr1271 t3;
          t4 = fpsqr1271 t4;
          t4 = fpsqr1271 t4;
          t4 = fpsqr1271 t4;
          t4 = fpmul1271 t3 t4;
          t5 = fpsqr1271 t4;
          t5 = fpsqr_times 7 t5;
          t5 = fpmul1271 t4 t5;
          t2 = fpsqr1271 t5;
          t2 = fpsqr_times 15 t2;
          t2 = fpmul1271 t5 t2;
          t1 = fpsqr1271 t2;
          t1 = fpsqr_times 31 t1;
          t1 = fpmul1271 t2 t1;
          t1 = fpsqr_times 32 t1;
          t1 = fpmul1271 t1 t2;
          t1 = fpsqr_times 16 t1;
          t1 = fpmul1271 t5 t1;
          t1 = fpsqr_times 8 t1;
          t1 = fpmul1271 t4 t1;
          t1 = fpsqr_times 4 t1;
          t1 = fpmul1271 t3 t1;
          t1 = fpsqr1271 t1
      in fpmul1271 a t1)"

definition fpinv1271 :: "felm_t \<Rightarrow> felm_t" where
  "fpinv1271 a =
     (let t = fpexp1251 a;
          t = fpsqr1271 t;
          t = fpsqr1271 t
      in fpmul1271 a t)"

section \<open>Representation\<close>

definition felm :: "felm_t \<Rightarrow> bool" where
  "felm a = (length a = NWORDS_FIELD \<and> digits_val a < 2 ^ 127)"

definition fp_abs :: "felm_t \<Rightarrow> gfp" where
  "fp_abs a = of_nat (digits_val a)"

lemma length_2: "length a = 2 \<longleftrightarrow> (\<exists>x y. a = [x, y])"
  by (auto simp: numeral_2_eq_2 length_Suc_conv)

lemma felm_length: "felm a \<Longrightarrow> length a = 2"
  by (simp add: felm_def)

text \<open>Equality in GF(p) of the sums and products of representatives.\<close>

lemma gfp_2_127: "of_nat (2 ^ 127) = (1 :: gfp)"
proof -
  have "of_nat (Suc p1271) = (1 :: gfp)" using gfp_of_nat_zero [of p1271] by simp
  then show ?thesis by (simp only: p1271_suc)
qed

lemma gfp_fold: "(of_nat (n mod 2 ^ 127 + n div 2 ^ 127) :: gfp) = of_nat n"
proof -
  have "(of_nat n :: gfp) = of_nat (n mod 2 ^ 127 + 2 ^ 127 * (n div 2 ^ 127))" by (simp only: mod_mult_div_eq)
  also have "\<dots> = of_nat (n mod 2 ^ 127) + of_nat (2 ^ 127) * of_nat (n div 2 ^ 127)"
    by (simp only: of_nat_add of_nat_mult)
  also have "\<dots> = of_nat (n mod 2 ^ 127 + n div 2 ^ 127)" by (simp only: gfp_2_127 of_nat_add mult_1_left)
  finally show ?thesis by simp
qed

text \<open>Bit 127 of a two-digit number and the rest.\<close>

lemma top_bit:
  assumes "length c = 2"
  shows "unat (drop_bit 63 (c ! 1)) = digits_val c div 2 ^ 127"
    "digits_val (c[1 := c ! 1 AND mask_7fff]) = digits_val c mod 2 ^ 127"
    "unat (drop_bit 63 (c ! 1)) \<le> 1"
proof -
  obtain x y where c: "c = [x, y]" using assms by (auto simp: length_2)
  have m: "unat (y AND mask_7fff) = unat y mod 2 ^ 63"
  proof -
    have "y AND mask_7fff = take_bit 63 y" unfolding mask_7fff_def
      by (rule bit_word_eqI) (auto simp: bit_simps)
    then show ?thesis by (simp only: unsigned_take_bit_eq) (simp only: take_bit_eq_mod)
  qed
  have d: "unat (drop_bit 63 y) = unat y div 2 ^ 63"
    by (simp only: unat_drop_bit_eq) (simp only: drop_bit_eq_div)
  have v: "digits_val c = (unat y div 2 ^ 63) * 2 ^ 127 + (unat x + 2 ^ 64 * (unat y mod 2 ^ 63))"
  proof -
    have "n = 2 ^ 63 * q + r \<Longrightarrow> m + 2 ^ 64 * n = q * 2 ^ 127 + (m + 2 ^ 64 * r)" for n m q r :: nat by simp
    from this [of "unat y" "unat y div 2 ^ 63" "unat y mod 2 ^ 63" "unat x"] show ?thesis by (simp add: c)
  qed
  have lt: "unat x + 2 ^ 64 * (unat y mod 2 ^ 63) < 2 ^ 127"
  proof -
    have "unat y mod 2 ^ 63 \<le> 2 ^ 63 - 1" by (simp add: mod_less_divisor Suc_leI flip: less_Suc_eq_le)
    then show ?thesis using digit_less [of x] by (simp del: digit_less_num)
  qed
  show "unat (drop_bit 63 (c ! 1)) = digits_val c div 2 ^ 127"
    unfolding v using lt by (simp add: c d del: power_numeral)
  show "digits_val (c[1 := c ! 1 AND mask_7fff]) = digits_val c mod 2 ^ 127"
    unfolding v using lt by (simp add: c m del: power_numeral)
  show "unat (drop_bit 63 (c ! 1)) \<le> 1" using digit_less [of y]
    by (simp add: c d less_mult_imp_div_less flip: less_Suc_eq_le del: digit_less_num)
qed

text \<open>The second pass of every operation: the carry of the fold.\<close>

lemma fold_pass:
  assumes "length c = 2" "digits_val c mod 2 ^ 127 + digits_val c div 2 ^ 127 < 2 ^ 127"
  shows "felm (snd (addc_loop (drop_bit 63 (c ! 1)) (c[1 := c ! 1 AND mask_7fff]) (replicate NWORDS_FIELD 0)))"
    "digits_val (snd (addc_loop (drop_bit 63 (c ! 1)) (c[1 := c ! 1 AND mask_7fff]) (replicate NWORDS_FIELD 0))) =
      digits_val c mod 2 ^ 127 + digits_val c div 2 ^ 127"
proof -
  let ?c = "c[1 := c ! 1 AND mask_7fff]"
  obtain co s where r: "addc_loop (drop_bit 63 (c ! 1)) ?c (replicate NWORDS_FIELD 0) = (co, s)" by fastforce
  have v: "digits_val s + 2 ^ (64 * length ?c) * unat co =
      digits_val ?c + digits_val (replicate NWORDS_FIELD 0) + unat (drop_bit 63 (c ! 1))" "length s = length ?c"
    using addc_loop_spec [OF _ top_bit(3) [OF assms(1)] r] assms(1) by simp_all
  then have e: "digits_val s + 2 ^ 128 * unat co = digits_val c mod 2 ^ 127 + digits_val c div 2 ^ 127"
    unfolding top_bit(1,2) [OF assms(1)] using assms(1) by simp
  then have "unat co = 0" using assms(2) by (cases "unat co") simp_all
  then show "felm (snd (addc_loop (drop_bit 63 (c ! 1)) ?c (replicate NWORDS_FIELD 0)))"
    "digits_val (snd (addc_loop (drop_bit 63 (c ! 1)) ?c (replicate NWORDS_FIELD 0))) =
      digits_val c mod 2 ^ 127 + digits_val c div 2 ^ 127"
    using e assms v(2) unfolding r by (simp_all add: felm_def)
qed

lemma fp_abs_fold: "digits_val s = n mod 2 ^ 127 + n div 2 ^ 127 \<Longrightarrow> fp_abs s = of_nat n"
  unfolding fp_abs_def using gfp_fold by simp

text \<open>Folding a sum of two numbers below 2^127.\<close>

lemma fold_less:
  assumes "n \<le> 2 * (2 ^ 127 - 1)"
  shows "n mod 2 ^ 127 + n div 2 ^ 127 < (2 ^ 127 :: nat)"
proof (cases "n < 2 ^ 127")
  case False
  then have "n mod 2 ^ 127 = n - 2 ^ 127" "n div 2 ^ 127 = 1"
    using assms by (auto simp: div_nat_eqI mod_if le_mod_geq)
  then show ?thesis using assms False by simp
qed (simp del: power_numeral)

section \<open>The operations\<close>

lemma fpadd1271_spec:
  assumes "felm a" "felm b"
  shows "felm (fpadd1271 a b)" "fp_abs (fpadd1271 a b) = fp_abs a + fp_abs b"
proof -
  obtain co c where r: "addc_loop 0 a b = (co, c)" by fastforce
  have len: "length a = 2" "length b = 2" using assms by (simp_all add: felm_def)
  have lt: "digits_val a \<le> 2 ^ 127 - 1" "digits_val b \<le> 2 ^ 127 - 1" using assms by (simp_all add: felm_def)
  have s: "digits_val c + 2 ^ 128 * unat co = digits_val a + digits_val b" "length c = 2"
    using addc_loop_spec [OF _ _ r] len by simp_all
  then have v: "digits_val c = digits_val a + digits_val b" using lt by (cases "unat co") simp_all
  have "digits_val c \<le> 2 * (2 ^ 127 - 1)" unfolding v using lt by linarith
  note f = fold_pass [OF s(2) fold_less [OF this]]
  show "felm (fpadd1271 a b)" using f(1) by (simp add: fpadd1271_def r)
  have "fp_abs (fpadd1271 a b) = of_nat (digits_val c)"
    by (rule fp_abs_fold) (simp only: fpadd1271_def r Let_def prod.case f(2))
  then show "fp_abs (fpadd1271 a b) = fp_abs a + fp_abs b" by (simp add: v fp_abs_def)
qed

lemma borrow_pass:
  assumes "length c = 2" "digits_val c div 2 ^ 127 \<le> digits_val c mod 2 ^ 127"
  defines "d \<equiv> snd (subc_loop (drop_bit 63 (c ! 1)) (c[1 := c ! 1 AND mask_7fff]) (replicate NWORDS_FIELD 0))"
  shows "felm d" "digits_val d = digits_val c mod 2 ^ 127 - digits_val c div 2 ^ 127"
proof -
  let ?c = "c[1 := c ! 1 AND mask_7fff]"
  obtain bo s where r: "subc_loop (drop_bit 63 (c ! 1)) ?c (replicate NWORDS_FIELD 0) = (bo, s)" by fastforce
  have d: "d = s" unfolding d_def r by simp
  have v: "digits_val s + digits_val (replicate NWORDS_FIELD 0) + unat (drop_bit 63 (c ! 1)) =
      digits_val ?c + 2 ^ (64 * length ?c) * unat bo" "length s = length ?c"
    using subc_loop_spec [OF _ top_bit(3) [OF assms(1)] r] assms(1) by simp_all
  then have e: "digits_val s + digits_val c div 2 ^ 127 = digits_val c mod 2 ^ 127 + 2 ^ 128 * unat bo"
    unfolding top_bit(1,2) [OF assms(1)] using assms(1) by simp
  have lt: "digits_val s < 2 ^ 128" using digits_val_less [of s] v(2) assms(1) by simp
  have "unat bo = 0" using e lt assms(2) by (cases "unat bo") simp_all
  then show "digits_val d = digits_val c mod 2 ^ 127 - digits_val c div 2 ^ 127"
    using e unfolding d by simp
  moreover have "digits_val c mod 2 ^ 127 < 2 ^ 127" by simp
  ultimately have "digits_val d < 2 ^ 127" using le_less_trans [OF diff_le_self] by metis
  then show "felm d" using v(2) assms(1) unfolding felm_def d by simp
qed

lemma gfp_borrow:
  fixes f q m c a b M :: gfp
  assumes "f + q = m" "c = m + q" "c + b = a + M * q" "M = 2"
  shows "f = a - b"
proof -
  have "(f + b) + (q + q) = (f + q + q) + b" by (simp only: ac_simps)
  also have "\<dots> = c + b" by (simp only: assms(1,2))
  also have "\<dots> = a + (q + q)" by (simp only: assms(3,4) mult_2)
  finally have "f + b = a" by (simp only: add_right_cancel)
  then show ?thesis by (simp only: eq_diff_eq)
qed

lemma sub_raw:
  assumes "felm a" "felm b" "subc_loop 0 a b = (bo, c)"
  shows "digits_val c + digits_val b = digits_val a + (2 * 2 ^ 127) * (digits_val c div 2 ^ 127)"
    "digits_val c div 2 ^ 127 \<le> digits_val c mod 2 ^ 127" "length c = 2"
proof -
  have len: "length a = 2" "length b = 2" using assms by (simp_all add: felm_def)
  have lt: "digits_val a < 2 ^ 127" "digits_val b < 2 ^ 127" using assms by (simp_all add: felm_def)
  have s: "digits_val c + digits_val b = digits_val a + 2 ^ 128 * unat bo" "unat bo \<le> 1" "length c = 2"
    using subc_loop_spec [OF _ _ assms(3)] len by simp_all
  show "length c = 2" by (rule s(3))
  have "unat bo = digits_val c div 2 ^ 127 \<and> digits_val c div 2 ^ 127 \<le> digits_val c mod 2 ^ 127"
  proof (cases "unat bo = 0")
    case True
    then have "digits_val c \<le> digits_val a" using s(1) by simp
    then have "digits_val c < 2 ^ 127" using lt(1) by (rule le_less_trans)
    then show ?thesis using True by simp
  next
    case False
    then have 1: "unat bo = 1" using s(2) by linarith
    have "digits_val c + digits_val b = digits_val a + 2 * 2 ^ 127" using s(1) unfolding 1 by simp
    then have gt: "2 ^ 127 < digits_val c" using lt(2) by linarith
    have lt2: "digits_val c < 2 * 2 ^ 127" using digits_val_less [of c] s(3) by simp
    have q: "digits_val c div 2 ^ 127 = 1" using gt lt2 by (intro div_nat_eqI) simp_all
    have "digits_val c mod 2 ^ 127 = digits_val c - 2 ^ 127 * 1"
      unfolding q [symmetric] by (rule minus_mult_div_eq_mod [symmetric])
    then have "1 \<le> digits_val c mod 2 ^ 127" using gt by linarith
    then show ?thesis unfolding q 1 by blast
  qed
  note e = this
  show "digits_val c div 2 ^ 127 \<le> digits_val c mod 2 ^ 127" using e by blast
  show "digits_val c + digits_val b = digits_val a + (2 * 2 ^ 127) * (digits_val c div 2 ^ 127)"
    unfolding conjunct1 [OF e, symmetric] using s(1) by simp
qed

lemma fpsub1271_spec:
  assumes "felm a" "felm b"
  shows "felm (fpsub1271 a b)" "fp_abs (fpsub1271 a b) = fp_abs a - fp_abs b"
proof -
  obtain bo c where r: "subc_loop 0 a b = (bo, c)" by fastforce
  note s = sub_raw [OF assms r]
  note f = borrow_pass [OF s(3,2)]
  have d: "fpsub1271 a b = snd (subc_loop (drop_bit 63 (c ! 1)) (c[1 := c ! 1 AND mask_7fff]) (replicate NWORDS_FIELD 0))"
    by (simp add: fpsub1271_def r)
  show "felm (fpsub1271 a b)" unfolding d by (rule f(1))
  define q m where qm: "q = digits_val c div 2 ^ 127" "m = digits_val c mod 2 ^ 127"
  have "digits_val (fpsub1271 a b) + q = m" unfolding d f(2) qm using s(2) by (rule le_add_diff_inverse2)
  then have 1: "of_nat (digits_val (fpsub1271 a b)) + of_nat q = (of_nat m :: gfp)"
    by (metis of_nat_add)
  have 2: "of_nat (digits_val c) = (of_nat m + of_nat q :: gfp)"
    unfolding qm using gfp_fold [of "digits_val c"] by (simp only: of_nat_add)
  have 3: "of_nat (digits_val c) + of_nat (digits_val b) =
      (of_nat (digits_val a) + of_nat (2 * 2 ^ 127) * of_nat q :: gfp)"
    using arg_cong [OF s(1), of of_nat] unfolding qm [symmetric] by (simp only: of_nat_add of_nat_mult)
  have 4: "of_nat (2 * 2 ^ 127) = (2 :: gfp)" unfolding of_nat_mult gfp_2_127 by simp
  show "fp_abs (fpsub1271 a b) = fp_abs a - fp_abs b"
    unfolding fp_abs_def by (rule gfp_borrow [OF 1 2 3 4])
qed

lemma fpneg1271_spec:
  assumes "felm a"
  shows "felm (fpneg1271 a)" "fp_abs (fpneg1271 a) = - fp_abs a"
    "digits_val (fpneg1271 a) = p1271 - digits_val a"
proof -
  obtain x y where a: "a = [x, y]" using assms by (auto simp: felm_def length_2)
  obtain bo d where r: "SUBC 0 prime1271_0 x = (bo, d)" by fastforce
  have p0: "unat prime1271_0 = 2 ^ 64 - 1" "unat mask_7fff = 2 ^ 63 - 1"
    by (simp_all add: prime1271_0_def mask_7fff_def unat_drop_bit_eq unsigned_minus_1_eq_mask
        drop_bit_mask_eq mask_eq_exp_minus_1)
  have y: "unat y \<le> 2 ^ 63 - 1" using assms digit_less [of x] by (simp add: felm_def a)
  have d: "unat d = 2 ^ 64 - 1 - unat x"
    using r digit_less [of x] unfolding SUBC_def Let_def by (auto simp: unat_sub_digit p0 simp del: digit_less_num)
  have e: "unat (mask_7fff - y) = 2 ^ 63 - 1 - unat y" unfolding unat_sub_digit p0 using y by simp
  have v: "digits_val (fpneg1271 a) + digits_val a = p1271"
    using y digit_less [of x] by (simp add: fpneg1271_def a r d e p1271_def del: digit_less_num)
  then show "digits_val (fpneg1271 a) = p1271 - digits_val a" by simp
  show "felm (fpneg1271 a)" using v by (simp add: felm_def fpneg1271_def a r p1271_def)
  have "of_nat (digits_val (fpneg1271 a)) + of_nat (digits_val a) = (of_nat p1271 :: gfp)"
    using v by (simp only: flip: of_nat_add)
  moreover have "of_nat p1271 = (0 :: gfp)" using gfp_of_nat_zero by simp
  ultimately show "fp_abs (fpneg1271 a) = - fp_abs a" by (simp add: fp_abs_def eq_neg_iff_add_eq_0)
qed

text \<open>The shifted upper half, as a number.\<close>

fun shift1 :: "digit \<Rightarrow> digit list \<Rightarrow> digit list" where
  "shift1 bit_mask [] = []"
| "shift1 bit_mask (h # hs) = (push_bit 1 h + bit_mask) # shift1 (drop_bit 63 h) hs"

lemma fold_loop_addc:
  "length ls = length hs \<Longrightarrow> fold_loop b c ls hs = snd (addc_loop c ls (shift1 b hs))"
  by (induction ls hs arbitrary: b c rule: list_induct2) (auto simp: Let_def split: prod.splits)

lemma length_shift1 [simp]: "length (shift1 b hs) = length hs"
  by (induction hs arbitrary: b) simp_all

lemma mod_digit: "m < B \<Longrightarrow> (m + B * v) mod (B * n) = m + B * (v mod n)" for m B v n :: nat
  by (simp add: mod_mult2_eq)

lemma shift1_spec:
  "unat b \<le> 1 \<Longrightarrow> digits_val (shift1 b hs) = (2 * digits_val hs + unat b) mod 2 ^ (64 * length hs)"
proof (induction hs arbitrary: b)
  case (Cons h hs)
  define q r where qr: "q = unat h div 2 ^ 63" "r = unat h mod 2 ^ 63"
  have h: "unat h = 2 ^ 63 * q + r" by (simp add: qr)
  have r: "r < 2 ^ 63" by (simp add: qr)
  have d: "unat (drop_bit 63 h) = q" unfolding qr by (simp only: unat_drop_bit_eq) (simp only: drop_bit_eq_div)
  then have q: "q \<le> 1" by (cases "bit h 63") (simp_all add: drop_bit_63)
  have "unat (push_bit 1 h) = 2 * r"
  proof -
    have "unat (push_bit 1 h) = (2 * unat h) mod 2 ^ 64"
      by (simp only: unsigned_push_bit_eq) (simp add: push_bit_eq_mult take_bit_eq_mod mult.commute)
    also have "2 * unat h = 2 * r + q * 2 ^ 64" unfolding h by simp
    finally show ?thesis using r by simp
  qed
  then have s: "unat (push_bit 1 h + b) = 2 * r + unat b"
    using r Cons.prems by (simp add: unat_add_digit)
  have m: "2 * r + unat b < 2 ^ 64" using r Cons.prems by simp
  let ?n = "2 ^ (64 * length hs) :: nat" and ?v = "2 * digits_val hs + q"
  have "2 * digits_val (h # hs) + unat b = (2 * r + unat b) + 2 ^ 64 * ?v" using h by simp
  moreover have "((2 * r + unat b) + 2 ^ 64 * ?v) mod (2 ^ 64 * ?n) = (2 * r + unat b) + 2 ^ 64 * (?v mod ?n)"
    by (rule mod_digit [OF m])
  moreover have "digits_val (shift1 b (h # hs)) = (2 * r + unat b) + 2 ^ 64 * (?v mod ?n)"
    using Cons.IH [of "drop_bit 63 h"] s d q by simp
  moreover have "2 ^ 64 * ?n = 2 ^ (64 * length (h # hs))" by (simp add: power_add)
  ultimately show ?case by metis
qed simp

lemma fpmul1271_spec:
  assumes "felm a" "felm b"
  shows "felm (fpmul1271 a b)" "fp_abs (fpmul1271 a b) = fp_abs a * fp_abs b"
proof -
  define t where "t = fourq_mp_mul a b"
  define T where "T = digits_val a * digits_val b"
  have len: "length a = 2" "length b = 2" using assms by (simp_all add: felm_def)
  have t: "digits_val t = T" "length t = 4" using len by (simp_all add: t_def T_def fourq_mp_mul_spec)
  have "digits_val a \<le> 2 ^ 127 - 1" "digits_val b \<le> 2 ^ 127 - 1" using assms by (simp_all add: felm_def)
  then have T: "T \<le> (2 ^ 127 - 1) * (2 ^ 127 - 1)" unfolding T_def by (rule mult_le_mono)
  obtain x y z w where tl: "t = [x, y, z, w]" using t(2) by (auto simp: numeral_eq_Suc length_Suc_conv)
  define l h where lh: "l = [x, y]" "h = [z, w]"
  have v: "T = digits_val l + 2 ^ 128 * digits_val h" using t(1) by (simp add: tl lh)
  let ?bm = "drop_bit 63 (l ! 1)" and ?l = "l[1 := l ! 1 AND mask_7fff]"
  have l2: "length l = 2" by (simp add: lh)
  note top = top_bit [OF l2]
  have l_lt: "digits_val l < 2 ^ 128" using digits_val_less [of l] l2 by simp
  have hi: "T div 2 ^ 127 = 2 * digits_val h + digits_val l div 2 ^ 127" "T mod 2 ^ 127 = digits_val l mod 2 ^ 127"
  proof -
    have e: "T = digits_val l + (2 * digits_val h) * 2 ^ 127" unfolding v by simp
    show "T div 2 ^ 127 = 2 * digits_val h + digits_val l div 2 ^ 127" 
      unfolding e by (subst div_mult_self1) simp_all
    show "T mod 2 ^ 127 = digits_val l mod 2 ^ 127" unfolding e by (simp only: mod_mult_self1)
  qed
  have hb: "T div 2 ^ 127 \<le> 2 ^ 127 - 2"
  proof -
    have "T div 2 ^ 127 \<le> ((2 ^ 127 - 1) * (2 ^ 127 - 1)) div 2 ^ 127" by (rule div_le_mono [OF T])
    also have "\<dots> = 2 ^ 127 - 2" by simp
    finally show ?thesis .
  qed
  have sh: "digits_val (shift1 ?bm h) = T div 2 ^ 127"
  proof -
    have "length h = 2" by (simp add: lh)
    then have "digits_val (shift1 ?bm h) = (2 * digits_val h + unat ?bm) mod 2 ^ 128"
      using shift1_spec [OF top(3)] by simp
    also have "2 * digits_val h + unat ?bm = T div 2 ^ 127" unfolding top(1) hi(1) ..
    also have "(T div 2 ^ 127) mod 2 ^ 128 = T div 2 ^ 127" using hb by (intro mod_less) simp
    finally show ?thesis .
  qed
  obtain co c where r: "addc_loop 0 ?l (shift1 ?bm h) = (co, c)" by fastforce
  have lens: "length ?l = length (shift1 ?bm h)" "length ?l = 2" by (simp_all add: lh)
  have s: "digits_val c + 2 ^ 128 * unat co = T mod 2 ^ 127 + T div 2 ^ 127" "length c = 2"
    using addc_loop_spec [OF lens(1) _ r] lens top(2) sh hi(2) by simp_all
  have lt: "T mod 2 ^ 127 + T div 2 ^ 127 \<le> 2 * (2 ^ 127 - 1)"
  proof -
    have "T mod 2 ^ 127 < 2 ^ 127" by simp
    then show ?thesis using hb by linarith
  qed
  have cv: "digits_val c = T mod 2 ^ 127 + T div 2 ^ 127"
  proof (cases "unat co")
    case (Suc n)
    then have "2 ^ 128 \<le> T mod 2 ^ 127 + T div 2 ^ 127" using s(1) by (simp del: power_numeral)
    from le_trans [OF this lt] show ?thesis by simp
  qed (use s(1) in simp)
  note f = fold_pass [OF s(2) fold_less [OF lt [folded cv]]]
  have m: "fpmul1271 a b = snd (addc_loop (drop_bit 63 (c ! 1)) (c[1 := c ! 1 AND mask_7fff]) (replicate NWORDS_FIELD 0))"
  proof -
    have "fold_loop ?bm 0 ?l h = c" using fold_loop_addc [of ?l h ?bm 0] lens r by simp
    then show ?thesis by (simp add: fpmul1271_def Let_def flip: t_def) (simp add: tl lh)
  qed
  show "felm (fpmul1271 a b)" unfolding m by (rule f(1))
  have "fp_abs (fpmul1271 a b) = of_nat (digits_val c)" by (rule fp_abs_fold) (simp only: m f(2))
  also have "\<dots> = of_nat T" unfolding cv by (rule gfp_fold)
  finally show "fp_abs (fpmul1271 a b) = fp_abs a * fp_abs b" by (simp add: T_def fp_abs_def)
qed

lemma fpsqr1271_spec:
  "felm a \<Longrightarrow> felm (fpsqr1271 a)" "felm a \<Longrightarrow> fp_abs (fpsqr1271 a) = (fp_abs a)\<^sup>2"
  by (simp_all add: fpsqr1271_def fpmul1271_spec power2_eq_square)

text \<open>\<open>mod1271\<close> gives the representative below p.\<close>

lemma prime_digits: "digits_val [prime1271_0, mask_7fff] = p1271"
proof -
  have "unat prime1271_0 = 2 ^ 64 - 1" "unat mask_7fff = 2 ^ 63 - 1"
    by (simp_all add: prime1271_0_def mask_7fff_def unat_drop_bit_eq unsigned_minus_1_eq_mask
        drop_bit_mask_eq mask_eq_exp_minus_1)
  then show ?thesis by (simp add: p1271_def)
qed

lemma borrow_mask:
  assumes "unat bo \<le> 1"
  shows "digits_val [0 - bo, drop_bit 1 (0 - bo)] = (if unat bo = 1 then p1271 else 0)"
proof -
  obtain p where p: "bo = of_bool p" by (rule digit_bit_cases [OF assms])
  show ?thesis
  proof (cases p)
    case True
    then have "[0 - bo, drop_bit 1 (0 - bo)] = [prime1271_0, mask_7fff]"
      by (simp add: p prime1271_0_def mask_7fff_def)
    then show ?thesis using True by (simp only: prime_digits) (simp add: p)
  qed (simp add: p)
qed

lemma mod1271_spec:
  assumes "felm a"
  shows "felm (mod1271 a)" "fp_abs (mod1271 a) = fp_abs a" "digits_val (mod1271 a) = digits_val a mod p1271"
proof -
  obtain bo c where r: "subc_loop 0 a [prime1271_0, mask_7fff] = (bo, c)" by fastforce
  have len: "length a = 2" and lt: "digits_val a < 2 ^ 127" using assms by (simp_all add: felm_def)
  have l: "length a = length [prime1271_0, mask_7fff]" using len by simp
  have "digits_val c + digits_val [prime1271_0, mask_7fff] + unat (0 :: digit) =
      digits_val a + 2 ^ (64 * length a) * unat bo \<and> unat bo \<le> 1 \<and> length c = length a"
    by (rule subc_loop_spec [OF l _ r]) simp
  then have s: "digits_val c + p1271 = digits_val a + 2 ^ 128 * unat bo" "unat bo \<le> 1" "length c = 2"
    unfolding prime_digits len by simp_all
  obtain co d where r2: "addc_loop 0 c [0 - bo, drop_bit 1 (0 - bo)] = (co, d)" by fastforce
  have s2: "digits_val d + 2 ^ 128 * unat co = digits_val c + (if unat bo = 1 then p1271 else 0)" "length d = 2"
    using addc_loop_spec [OF _ _ r2] s(3) borrow_mask [OF s(2)] by simp_all
  have d_lt: "digits_val d < 2 ^ 128" using digits_val_less [of d] s2(2) by simp
  have p: "Suc p1271 = 2 ^ 127" by (rule p1271_suc)
  have m: "mod1271 a = d" by (simp only: mod1271_def r r2 Let_def prod.case snd_conv)
  have v: "digits_val d = digits_val a mod p1271"
  proof (cases "unat bo = 1")
    case True
    then have e: "digits_val d + 2 ^ 128 * unat co = digits_val a + 2 ^ 128" using s s2(1) by simp
    consider "unat co = 0" | "unat co = 1" | k where "unat co = k + 2"
      by (metis One_nat_def add_2_eq_Suc' not0_implies_Suc)
    then have "digits_val d = digits_val a" using e d_lt lt by cases simp_all
    moreover have "digits_val a < p1271"
      using s(1) True digits_val_less [of c] s(3) by simp
    ultimately show ?thesis by simp
  next
    case False
    then have b0: "unat bo = 0" using s(2) by linarith
    then have c: "digits_val c + p1271 = digits_val a" using s(1) by simp
    then have "digits_val c \<le> 1" using lt p by linarith
    moreover have "unat co = 0" using s2(1) b0 \<open>digits_val c \<le> 1\<close> by (cases "unat co") simp_all
    ultimately have "digits_val d = digits_val c" "digits_val c < p1271"
      using s2(1) b0 p1271_pos(3) by simp_all
    then show ?thesis using c by (metis mod_add_self2 mod_less)
  qed
  then show "digits_val (mod1271 a) = digits_val a mod p1271" by (simp only: m)
  have "digits_val d < p1271" unfolding v using p1271_pos(1) by simp
  then show "felm (mod1271 a)" using s2(2) p unfolding m felm_def by simp
  show "fp_abs (mod1271 a) = fp_abs a" unfolding m fp_abs_def v gfp_of_nat_eq by simp
qed

text \<open>Two elements are equal in GF(p) exactly when their reduced digits are.\<close>

lemma mod1271_eq_iff:
  assumes "felm a" "felm b"
  shows "mod1271 a = mod1271 b \<longleftrightarrow> fp_abs a = fp_abs b"
proof -
  have "mod1271 a = mod1271 b \<longleftrightarrow> digits_val (mod1271 a) = digits_val (mod1271 b)"
    using digits_val_inj felm_length [OF mod1271_spec(1) [OF assms(1)]]
      felm_length [OF mod1271_spec(1) [OF assms(2)]] by metis
  then show ?thesis using assms by (simp add: mod1271_spec(3) fp_abs_def gfp_of_nat_eq)
qed

lemma fpdiv1271_spec:
  assumes "felm a"
  shows "felm (fpdiv1271 a)" "2 * fp_abs (fpdiv1271 a) = fp_abs a"
proof -
  obtain x y where a: "a = [x, y]" using assms by (auto simp: felm_def length_2)
  have x1: "x AND 1 = of_bool (odd x)" by (simp add: and_one_eq odd_iff_mod_2_eq_one)
  have ox: "even (unat x) = even x" using bit_unsigned_iff [where 'a = nat, of x 0] by (simp add: bit_0)
  let ?m = "0 - (x AND 1)"
  obtain co c where r: "addc_loop 0 [?m, drop_bit 1 ?m] a = (co, c)" by fastforce
  have lt: "digits_val a < 2 ^ 127" using assms by (simp add: felm_def)
  have bm: "digits_val [?m, drop_bit 1 ?m] = (if odd x then p1271 else 0)"
    using borrow_mask [of "x AND 1"] by (simp add: x1)
  have s: "digits_val c + 2 ^ 128 * unat co = (if odd x then p1271 else 0) + digits_val a" "length c = 2"
    using addc_loop_spec [OF _ _ r] bm by (simp_all add: a)
  have p: "Suc p1271 = 2 ^ 127" by (rule p1271_suc)
  have "unat co = 0" using s(1) lt p by (cases "unat co") (auto split: if_splits)
  then have v: "digits_val c = (if odd x then p1271 else 0) + digits_val a" using s(1) by simp
  have even: "even (digits_val c)" unfolding v a by (auto simp: p1271_def ox)
  obtain u w where c: "c = [u, w]" using s(2) by (auto simp: length_2)
  have f: "fpdiv1271 a = [SHIFTR w u 1, drop_bit 1 w]"
    using r by (simp add: fpdiv1271_def a c del: diff_0)
  have "mp_shiftr 1 c = fpdiv1271 a" by (simp add: f c)
  then have d: "digits_val (fpdiv1271 a) = digits_val c div 2" using mp_shiftr_spec [of 1 c] by simp
  have "digits_val c < 2 * 2 ^ 127" unfolding v using lt p by auto
  then have "digits_val (fpdiv1271 a) < 2 ^ 127"
    unfolding d by (intro less_mult_imp_div_less) (simp add: mult.commute)
  then show "felm (fpdiv1271 a)" by (simp add: felm_def f)
  have "2 * digits_val (fpdiv1271 a) = digits_val c" unfolding d using even by simp
  then have "2 * fp_abs (fpdiv1271 a) = of_nat (digits_val c)"
    unfolding fp_abs_def by (metis of_nat_mult of_nat_numeral)
  also have "\<dots> = fp_abs a" unfolding v fp_abs_def gfp_of_nat_eq by simp
  finally show "2 * fp_abs (fpdiv1271 a) = fp_abs a" .
qed

section \<open>Exponentiation and inversion\<close>

text \<open>\<open>pow_of x t e\<close>: \<open>t\<close> represents \<open>x ^ e\<close>.\<close>

definition pow_of :: "gfp \<Rightarrow> felm_t \<Rightarrow> nat \<Rightarrow> bool" where
  "pow_of x t e = (felm t \<and> fp_abs t = x ^ e)"

lemma pow_of_self: "felm a \<Longrightarrow> pow_of (fp_abs a) a 1"
  by (simp add: pow_of_def)

lemma pow_of_mul: "pow_of x t e \<Longrightarrow> pow_of x u f \<Longrightarrow> pow_of x (fpmul1271 t u) (e + f)"
  by (simp add: pow_of_def fpmul1271_spec power_add)

lemma pow_of_sqr: "pow_of x t e \<Longrightarrow> pow_of x (fpsqr1271 t) (2 * e)"
  by (simp add: pow_of_def fpsqr1271_spec mult.commute flip: power_mult)

lemma pow_of_sqr_times: "pow_of x t e \<Longrightarrow> pow_of x (fpsqr_times n t) (2 ^ n * e)"
proof (induction n arbitrary: t e)
  case (Suc n)
  then have "pow_of x (fpsqr_times n (fpsqr1271 t)) (2 ^ n * (2 * e))" using pow_of_sqr by blast
  then show ?case by (simp add: ac_simps)
qed simp

lemma pow_of_exp1251: "pow_of x a 1 \<Longrightarrow> pow_of x (fpexp1251 a) (2 ^ 125 - 1)"
proof -
  assume a: "pow_of x a 1"
  define t2 where "t2 = fpmul1271 a (fpsqr1271 a)"
  define t3 where "t3 = fpmul1271 t2 (fpsqr1271 (fpsqr1271 t2))"
  define t4 where "t4 = fpmul1271 t3 (fpsqr1271 (fpsqr1271 (fpsqr1271 (fpsqr1271 t3))))"
  define t5 where "t5 = fpmul1271 t4 (fpsqr_times 7 (fpsqr1271 t4))"
  define s2 where "s2 = fpmul1271 t5 (fpsqr_times 15 (fpsqr1271 t5))"
  define s1 where "s1 = fpmul1271 s2 (fpsqr_times 31 (fpsqr1271 s2))"
  define r1 where "r1 = fpmul1271 (fpsqr_times 32 s1) s2"
  define r2 where "r2 = fpmul1271 t5 (fpsqr_times 16 r1)"
  define r3 where "r3 = fpmul1271 t4 (fpsqr_times 8 r2)"
  define r4 where "r4 = fpmul1271 t3 (fpsqr_times 4 r3)"
  have d: "fpexp1251 a = fpmul1271 a (fpsqr1271 r4)"
    by (simp only: fpexp1251_def Let_def t2_def t3_def t4_def t5_def s2_def s1_def r1_def r2_def r3_def r4_def)
  note rules = pow_of_mul pow_of_sqr pow_of_sqr_times
  have t2: "pow_of x t2 (2 ^ 2 - 1)"
    using rules(1) [OF a rules(2) [OF a]] by (simp add: t2_def eval_nat_numeral)
  have t3: "pow_of x t3 (2 ^ 4 - 1)"
    using rules(1) [OF t2 rules(2) [OF rules(2) [OF t2]]] by (simp add: t3_def)
  have t4: "pow_of x t4 (2 ^ 8 - 1)"
    using rules(1) [OF t3 rules(2) [OF rules(2) [OF rules(2) [OF rules(2) [OF t3]]]]] by (simp add: t4_def)
  have t5: "pow_of x t5 (2 ^ 16 - 1)"
    using rules(1) [OF t4 rules(3) [OF rules(2) [OF t4], of 7]] by (simp add: t5_def)
  have s2: "pow_of x s2 (2 ^ 32 - 1)"
    using rules(1) [OF t5 rules(3) [OF rules(2) [OF t5], of 15]] by (simp add: s2_def)
  have s1: "pow_of x s1 (2 ^ 64 - 1)"
    using rules(1) [OF s2 rules(3) [OF rules(2) [OF s2], of 31]] by (simp add: s1_def)
  have r1: "pow_of x r1 (2 ^ 96 - 1)"
    using rules(1) [OF rules(3) [OF s1, of 32] s2] by (simp add: r1_def)
  have r2: "pow_of x r2 (2 ^ 112 - 1)"
    using rules(1) [OF t5 rules(3) [OF r1, of 16]] by (simp add: r2_def)
  have r3: "pow_of x r3 (2 ^ 120 - 1)"
    using rules(1) [OF t4 rules(3) [OF r2, of 8]] by (simp add: r3_def)
  have r4: "pow_of x r4 (2 ^ 124 - 1)"
    using rules(1) [OF t3 rules(3) [OF r3, of 4]] by (simp add: r4_def)
  show ?thesis using rules(1) [OF a rules(2) [OF r4]] by (simp add: d)
qed

lemma fpexp1251_spec:
  assumes "felm a"
  shows "felm (fpexp1251 a)" "fp_abs (fpexp1251 a) = fp_abs a ^ (2 ^ 125 - 1)"
  using pow_of_exp1251 [OF pow_of_self [OF assms]] unfolding pow_of_def by blast+

lemma fpinv1271_spec:
  assumes "felm a"
  shows "felm (fpinv1271 a)" "fp_abs (fpinv1271 a) = inverse (fp_abs a)"
proof -
  let ?x = "fp_abs a"
  have e: "1 + 2 * (2 * (2 ^ 125 - 1)) = p1271 - 2" by (simp add: p1271_def)
  have "pow_of ?x (fpinv1271 a) (1 + 2 * (2 * (2 ^ 125 - 1)))"
    unfolding fpinv1271_def Let_def
    by (rule pow_of_mul [OF pow_of_self [OF assms] pow_of_sqr [OF pow_of_sqr
          [OF pow_of_exp1251 [OF pow_of_self [OF assms]]]]])
  then show "felm (fpinv1271 a)" "fp_abs (fpinv1271 a) = inverse ?x"
    unfolding e pow_of_def inverse_gfp_def by blast+
qed

text \<open>The remaining operations.\<close>

lemma fpcopy1271_spec: "felm a \<Longrightarrow> fpcopy1271 a = a"
  by (simp add: fpcopy1271_def felm_def)

lemma fpzero1271_spec: "felm fpzero1271" "fp_abs fpzero1271 = 0"
  by (simp_all add: fpzero1271_def felm_def fp_abs_def)

lemma felm_one: "felm [1, 0]" "fp_abs [1, 0] = 1"
  by (simp_all add: felm_def fp_abs_def)

lemmas fp_felm = fpadd1271_spec(1) fpsub1271_spec(1) fpneg1271_spec(1) fpmul1271_spec(1) fpsqr1271_spec(1)
  mod1271_spec(1) fpdiv1271_spec(1) fpexp1251_spec(1) fpinv1271_spec(1) fpzero1271_spec(1) felm_one(1)

lemmas fp_value = fpadd1271_spec(2) fpsub1271_spec(2) fpneg1271_spec(2) fpmul1271_spec(2) fpsqr1271_spec(2)
  mod1271_spec(2) fpinv1271_spec(2) fpzero1271_spec(2) felm_one(2)

end
