(* ===== verification/FourQ_Fp2.thy ===== *)
theory FourQ_Fp2
  imports FourQ_Fp
begin

text \<open>
  Arithmetic of GF(p^2) (the first half of \<open>oZKS/fourq/eccp2_core.c\<close>, portable build): an element
  \<open>a0 + a1 i\<close> is the pair of its coordinates. \<open>f2elm\<close> is the invariant of both coordinates, \<open>fq_abs\<close>
  the element of the field; every operation keeps the invariant and computes the field operation,
  inversion included.
\<close>

type_synonym f2elm_t = "felm_t \<times> felm_t"

definition fp2copy1271 :: "f2elm_t \<Rightarrow> f2elm_t" where
  "fp2copy1271 a = (fpcopy1271 (fst a), fpcopy1271 (snd a))"

definition fp2zero1271 :: f2elm_t where
  "fp2zero1271 = (fpzero1271, fpzero1271)"

definition fp2neg1271 :: "f2elm_t \<Rightarrow> f2elm_t" where
  "fp2neg1271 a = (fpneg1271 (fst a), fpneg1271 (snd a))"

definition fp2sqr1271 :: "f2elm_t \<Rightarrow> f2elm_t" where
  "fp2sqr1271 a =
     (let t1 = fpadd1271 (fst a) (snd a);
          t2 = fpsub1271 (fst a) (snd a);
          t3 = fpmul1271 (fst a) (snd a);
          c0 = fpmul1271 t1 t2;
          c1 = fpadd1271 t3 t3
      in (c0, c1))"

definition fp2mul1271 :: "f2elm_t \<Rightarrow> f2elm_t \<Rightarrow> f2elm_t" where
  "fp2mul1271 a b =
     (let t1 = fpmul1271 (fst a) (fst b);
          t2 = fpmul1271 (snd a) (snd b);
          t3 = fpadd1271 (fst a) (snd a);
          t4 = fpadd1271 (fst b) (snd b);
          c0 = fpsub1271 t1 t2;
          t3 = fpmul1271 t3 t4;
          t3 = fpsub1271 t3 t1;
          c1 = fpsub1271 t3 t2
      in (c0, c1))"

definition fp2add1271 :: "f2elm_t \<Rightarrow> f2elm_t \<Rightarrow> f2elm_t" where
  "fp2add1271 a b = (fpadd1271 (fst a) (fst b), fpadd1271 (snd a) (snd b))"

definition fp2sub1271 :: "f2elm_t \<Rightarrow> f2elm_t \<Rightarrow> f2elm_t" where
  "fp2sub1271 a b = (fpsub1271 (fst a) (fst b), fpsub1271 (snd a) (snd b))"

definition fp2addsub1271 :: "f2elm_t \<Rightarrow> f2elm_t \<Rightarrow> f2elm_t" where
  "fp2addsub1271 a b = (let a = fp2add1271 a a in fp2sub1271 a b)"

definition fp2inv1271 :: "f2elm_t \<Rightarrow> f2elm_t" where
  "fp2inv1271 a =
     (let t10 = fpsqr1271 (fst a);
          t11 = fpsqr1271 (snd a);
          t10 = fpadd1271 t10 t11;
          t10 = fpinv1271 t10;
          a1 = fpneg1271 (snd a)
      in (fpmul1271 (fst a) t10, fpmul1271 a1 t10))"

definition fp2div1271 :: "f2elm_t \<Rightarrow> f2elm_t" where
  "fp2div1271 a = (fpdiv1271 (fst a), fpdiv1271 (snd a))"

text \<open>The element 1, set with \<open>fp2zero1271\<close> and an assignment of the lowest digit.\<close>

definition fp2one :: f2elm_t where
  "fp2one = (let z = fp2zero1271 in ((fst z)[0 := 1], snd z))"

section \<open>The operations compute in GF(p^2)\<close>

definition f2elm :: "f2elm_t \<Rightarrow> bool" where
  "f2elm a = (felm (fst a) \<and> felm (snd a))"

definition fq_abs :: "f2elm_t \<Rightarrow> fq" where
  "fq_abs a = Fq (fp_abs (fst a)) (fp_abs (snd a))"

named_theorems fp2 \<open>validity and value of the operations of GF(p^2)\<close>

lemma fp2copy1271_spec [fp2]: "f2elm a \<Longrightarrow> fp2copy1271 a = a"
  by (simp add: fp2copy1271_def f2elm_def fpcopy1271_spec)

lemma fp2zero1271_spec [fp2]: "f2elm fp2zero1271" "fq_abs fp2zero1271 = 0"
  by (simp_all add: fp2zero1271_def f2elm_def fpzero1271_spec fq_abs_def zero_fq_def)

lemma fp2one_spec [fp2]: "f2elm fp2one" "fq_abs fp2one = 1"
proof -
  have e: "fp2one = ([1, 0], [0, 0])" by (simp add: fp2one_def fp2zero1271_def fpzero1271_def numeral_2_eq_2)
  have z: "felm [0, 0]" "fp_abs [0, 0] = 0" by (simp_all add: felm_def fp_abs_def)
  show "f2elm fp2one" "fq_abs fp2one = 1"
    unfolding e by (simp_all add: f2elm_def fq_abs_def felm_one z one_fq_def)
qed

lemma fp2neg1271_spec [fp2]:
  "f2elm a \<Longrightarrow> f2elm (fp2neg1271 a)" "f2elm a \<Longrightarrow> fq_abs (fp2neg1271 a) = - fq_abs a"
  by (simp_all add: fp2neg1271_def f2elm_def fp_felm fp_value fq_abs_def fq_eq_iff)

lemma fp2add1271_spec [fp2]:
  "f2elm a \<Longrightarrow> f2elm b \<Longrightarrow> f2elm (fp2add1271 a b)"
  "f2elm a \<Longrightarrow> f2elm b \<Longrightarrow> fq_abs (fp2add1271 a b) = fq_abs a + fq_abs b"
  by (simp_all add: fp2add1271_def f2elm_def fp_felm fp_value fq_abs_def fq_eq_iff)

lemma fp2sub1271_spec [fp2]:
  "f2elm a \<Longrightarrow> f2elm b \<Longrightarrow> f2elm (fp2sub1271 a b)"
  "f2elm a \<Longrightarrow> f2elm b \<Longrightarrow> fq_abs (fp2sub1271 a b) = fq_abs a - fq_abs b"
  by (simp_all add: fp2sub1271_def f2elm_def fp_felm fp_value fq_abs_def fq_eq_iff)

lemma fp2addsub1271_spec [fp2]:
  "f2elm a \<Longrightarrow> f2elm b \<Longrightarrow> f2elm (fp2addsub1271 a b)"
  "f2elm a \<Longrightarrow> f2elm b \<Longrightarrow> fq_abs (fp2addsub1271 a b) = 2 * fq_abs a - fq_abs b"
  unfolding mult_2 by (simp_all only: fp2addsub1271_def Let_def fp2)

text \<open>Squaring with two products, multiplication with three.\<close>

lemma fp2sqr1271_spec [fp2]:
  "f2elm a \<Longrightarrow> f2elm (fp2sqr1271 a)" "f2elm a \<Longrightarrow> fq_abs (fp2sqr1271 a) = (fq_abs a)\<^sup>2"
proof -
  assume a: "f2elm a"
  show "f2elm (fp2sqr1271 a)" using a by (simp add: fp2sqr1271_def Let_def f2elm_def fp_felm)
  have "(x + y) * (x - y) = x * x - y * y" "x * y + x * y = x * y + y * x" for x y :: gfp
    by (simp_all add: algebra_simps)
  then show "fq_abs (fp2sqr1271 a) = (fq_abs a)\<^sup>2" using a
    by (simp add: fp2sqr1271_def Let_def f2elm_def fp_felm fp_value fq_abs_def fq_eq_iff power2_eq_square)
qed

lemma fp2mul1271_spec [fp2]:
  "f2elm a \<Longrightarrow> f2elm b \<Longrightarrow> f2elm (fp2mul1271 a b)"
  "f2elm a \<Longrightarrow> f2elm b \<Longrightarrow> fq_abs (fp2mul1271 a b) = fq_abs a * fq_abs b"
proof -
  assume ab: "f2elm a" "f2elm b"
  show "f2elm (fp2mul1271 a b)" using ab by (simp add: fp2mul1271_def Let_def f2elm_def fp_felm)
  have "(x + y) * (z + w) - x * z - y * w = x * w + y * z" for x y z w :: gfp
    by (simp add: algebra_simps)
  then show "fq_abs (fp2mul1271 a b) = fq_abs a * fq_abs b" using ab
    by (simp add: fp2mul1271_def Let_def f2elm_def fp_felm fp_value fq_abs_def fq_eq_iff)
qed

lemma fp2inv1271_spec [fp2]:
  "f2elm a \<Longrightarrow> f2elm (fp2inv1271 a)" "f2elm a \<Longrightarrow> fq_abs (fp2inv1271 a) = inverse (fq_abs a)"
  by (simp_all add: fp2inv1271_def Let_def f2elm_def fp_felm fp_value fq_abs_def inverse_fq_def fq_norm_def)

lemma fp2div1271_spec [fp2]:
  "f2elm a \<Longrightarrow> f2elm (fp2div1271 a)" "f2elm a \<Longrightarrow> 2 * fq_abs (fp2div1271 a) = fq_abs a"
proof -
  assume a: "f2elm a"
  show "f2elm (fp2div1271 a)" using a by (simp add: fp2div1271_def f2elm_def fpdiv1271_spec)
  have "2 * Fq x y = Fq (2 * x) (2 * y)" for x y
    unfolding mult_2 by (simp only: fq_eq_iff fq_parts fq.sel)
  then show "2 * fq_abs (fp2div1271 a) = fq_abs a"
    using a by (simp only: fp2div1271_def f2elm_def fpdiv1271_spec fq_abs_def fst_conv snd_conv)
qed

text \<open>Reduction of both coordinates decides equality.\<close>

definition fp2mod :: "f2elm_t \<Rightarrow> f2elm_t" where
  "fp2mod a = (mod1271 (fst a), mod1271 (snd a))"

lemma fp2mod_spec [fp2]: "f2elm a \<Longrightarrow> f2elm (fp2mod a)" "f2elm a \<Longrightarrow> fq_abs (fp2mod a) = fq_abs a"
  by (simp_all add: fp2mod_def f2elm_def fp_felm fp_value fq_abs_def)

lemma fp2mod_eq_iff: "f2elm a \<Longrightarrow> f2elm b \<Longrightarrow> fp2mod a = fp2mod b \<longleftrightarrow> fq_abs a = fq_abs b"
  by (auto simp: fp2mod_def f2elm_def mod1271_eq_iff fq_abs_def)

end
