(* ===== verification/FourQ_Edwards.thy ===== *)
theory FourQ_Edwards
  imports FourQ_Fp2
begin

text \<open>
  The curve of FourQ, the twisted Edwards curve \<open>- x\<^sup>2 + y\<^sup>2 = 1 + d x\<^sup>2 y\<^sup>2\<close> over GF(p^2) with the
  constant \<open>d\<close> of \<open>oZKS/fourq/FourQ_params.h\<close>: its addition law is complete (no denominator vanishes)
  because \<open>d\<close> is not a square, and closed. The group operations of the code are compared with it.
\<close>

section \<open>The constant of the curve\<close>

definition PARAMETER_d :: f2elm_t where
  "PARAMETER_d = ([0x0000000000000142, 0x00000000000000E4], [0xB3821488F1FC0C8D, 0x5E472F846657E0FC])"

definition curve_d :: fq where
  "curve_d = fq_abs PARAMETER_d"

lemma PARAMETER_d_spec [fp2]: "f2elm PARAMETER_d" "fq_abs PARAMETER_d = curve_d"
  by (simp_all add: PARAMETER_d_def f2elm_def felm_def curve_d_def)

text \<open>Its norm is not a square in GF(p): the power \<open>(p - 1) / 2\<close> is -1, by an addition chain.\<close>

definition mersenne_mul :: "int \<Rightarrow> int \<Rightarrow> int" where
  "mersenne_mul x y = mersenne_red (mersenne_red (x * y))"

fun mersenne_sqn :: "unit list \<Rightarrow> int \<Rightarrow> int" where
  "mersenne_sqn [] x = x"
| "mersenne_sqn (_ # us) x = mersenne_sqn us (mersenne_red (mersenne_red (mersenne_sqr x)))"

lemma gfp_mersenne_red: "(of_int (mersenne_red x) :: gfp) = of_int x"
proof -
  have "of_int (2 ^ 127) = (1 :: gfp)" using gfp_2_127 by (metis of_int_of_nat_eq of_nat_numeral of_nat_power)
  then show ?thesis
    unfolding mersenne_red_def mersenne_fold_def
    by (simp only: of_int_add of_int_diff of_int_mult) simp
qed

lemma gfp_mersenne_mul: "(of_int (mersenne_mul x y) :: gfp) = of_int x * of_int y"
  by (simp add: mersenne_mul_def gfp_mersenne_red)

lemma gfp_mersenne_sqn: "(of_int (mersenne_sqn us x) :: gfp) = of_int x ^ 2 ^ length us"
proof (induction us x rule: mersenne_sqn.induct)
  case (2 u us x)
  then show ?case by (simp add: gfp_mersenne_red mersenne_sqr_def power_mult power2_eq_square)
qed simp

lemma chain_step:
  assumes "mersenne_mul (mersenne_sqn us x) y = z" "(of_int x :: gfp) = g ^ (2 ^ a - 1)"
    "(of_int y :: gfp) = g ^ (2 ^ b - 1)" "length us = b" "a + b = c"
  shows "(of_int z :: gfp) = g ^ (2 ^ c - 1)"
proof -
  have "(of_int z :: gfp) = (g ^ (2 ^ a - 1)) ^ 2 ^ b * g ^ (2 ^ b - 1)"
    unfolding assms(1) [symmetric] gfp_mersenne_mul gfp_mersenne_sqn assms(2-4) ..
  also have "\<dots> = g ^ ((2 ^ a - 1) * 2 ^ b + (2 ^ b - 1))" by (simp only: power_add power_mult)
  also have "(2 ^ a - 1) * 2 ^ b + (2 ^ b - 1) = (2 :: nat) ^ c - 1"
  proof -
    have "(2 :: nat) ^ b \<le> 2 ^ a * 2 ^ b" "1 \<le> (2 :: nat) ^ b" by simp_all
    then show ?thesis by (simp add: power_add diff_mult_distrib flip: assms(5))
  qed
  finally show ?thesis .
qed

definition norm_d :: int where
  "norm_d = 170141183460469230846243588177825628091"

lemma norm_chain_2: "mersenne_mul (mersenne_sqn [()] 170141183460469230846243588177825628091) 170141183460469230846243588177825628091 = 170141183460452868731824160395217394623"
  by (simp only: mersenne_sqn.simps mersenne_mul_def mersenne_simps)

lemma norm_chain_3: "mersenne_mul (mersenne_sqn [()] 170141183460452868731824160395217394623) 170141183460469230846243588177825628091 = 170135605006449669966929042609505288191"
  by (simp only: mersenne_sqn.simps mersenne_mul_def mersenne_simps)

lemma norm_chain_6: "mersenne_mul (mersenne_sqn [(), (), ()] 170135605006449669966929042609505288191) 170135605006449669966929042609505288191 = 79801838977724096625238879662263441637"
  by (simp only: mersenne_sqn.simps mersenne_mul_def mersenne_simps)

lemma norm_chain_7: "mersenne_mul (mersenne_sqn [()] 79801838977724096625238879662263441637) 170141183460469230846243588177825628091 = 101509037933033462830094890713499172313"
  by (simp only: mersenne_sqn.simps mersenne_mul_def mersenne_simps)

lemma norm_chain_14: "mersenne_mul (mersenne_sqn [(), (), (), (), (), (), ()] 101509037933033462830094890713499172313) 101509037933033462830094890713499172313 = 50279993045309103783015642522128724101"
  by (simp only: mersenne_sqn.simps mersenne_mul_def mersenne_simps)

lemma norm_chain_15: "mersenne_mul (mersenne_sqn [()] 50279993045309103783015642522128724101) 170141183460469230846243588177825628091 = 20179768955699411059959782833655147820"
  by (simp only: mersenne_sqn.simps mersenne_mul_def mersenne_simps)

lemma norm_chain_30: "mersenne_mul (mersenne_sqn [(), (), (), (), (), (), (), (), (), (), (), (), (), (), ()] 20179768955699411059959782833655147820) 20179768955699411059959782833655147820 = 160035504088879068700021589826254690991"
  by (simp only: mersenne_sqn.simps mersenne_mul_def mersenne_simps)

lemma norm_chain_31: "mersenne_mul (mersenne_sqn [()] 160035504088879068700021589826254690991) 170141183460469230846243588177825628091 = 78933935244024437151131949859612685517"
  by (simp only: mersenne_sqn.simps mersenne_mul_def mersenne_simps)

lemma norm_chain_62: "mersenne_mul (mersenne_sqn [(), (), (), (), (), (), (), (), (), (), (), (), (), (), (), (), (), (), (), (), (), (),
      (), (), (), (), (), (), (), (), ()] 78933935244024437151131949859612685517) 78933935244024437151131949859612685517 = 37897595832631547847094658061492293825"
  by (simp only: mersenne_sqn.simps mersenne_mul_def mersenne_simps)

lemma norm_chain_63: "mersenne_mul (mersenne_sqn [()] 37897595832631547847094658061492293825) 170141183460469230846243588177825628091 = 64714143841101015964578925443267536254"
  by (simp only: mersenne_sqn.simps mersenne_mul_def mersenne_simps)

lemma norm_chain_126: "mersenne_mul (mersenne_sqn [(), (), (), (), (), (), (), (), (), (), (), (), (), (), (), (), (), (), (), (), (), (),
      (), (), (), (), (), (), (), (), (), (), (), (), (), (), (), (), (), (), (), (), (), (),
      (), (), (), (), (), (), (), (), (), (), (), (), (), (), (), (), (), (), ()] 64714143841101015964578925443267536254) 64714143841101015964578925443267536254 = 170141183460469231731687303715884105726"
  by (simp only: mersenne_sqn.simps mersenne_mul_def mersenne_simps)

lemma norm_d_power: "(of_int norm_d :: gfp) ^ (2 ^ 126 - 1) = - 1"
proof -
  let ?g = "\<lambda>k. (of_int k :: gfp)"
  have 1: "?g 170141183460469230846243588177825628091 = ?g norm_d ^ (2 ^ 1 - 1)" by (simp add: norm_d_def)
  have 2: "?g 170141183460452868731824160395217394623 = ?g norm_d ^ (2 ^ 2 - 1)"
    by (rule chain_step [OF norm_chain_2 1 1]) simp_all
  have 3: "?g 170135605006449669966929042609505288191 = ?g norm_d ^ (2 ^ 3 - 1)"
    by (rule chain_step [OF norm_chain_3 2 1]) simp_all
  have 6: "?g 79801838977724096625238879662263441637 = ?g norm_d ^ (2 ^ 6 - 1)"
    by (rule chain_step [OF norm_chain_6 3 3]) simp_all
  have 7: "?g 101509037933033462830094890713499172313 = ?g norm_d ^ (2 ^ 7 - 1)"
    by (rule chain_step [OF norm_chain_7 6 1]) simp_all
  have 14: "?g 50279993045309103783015642522128724101 = ?g norm_d ^ (2 ^ 14 - 1)"
    by (rule chain_step [OF norm_chain_14 7 7]) simp_all
  have 15: "?g 20179768955699411059959782833655147820 = ?g norm_d ^ (2 ^ 15 - 1)"
    by (rule chain_step [OF norm_chain_15 14 1]) simp_all
  have 30: "?g 160035504088879068700021589826254690991 = ?g norm_d ^ (2 ^ 30 - 1)"
    by (rule chain_step [OF norm_chain_30 15 15]) simp_all
  have 31: "?g 78933935244024437151131949859612685517 = ?g norm_d ^ (2 ^ 31 - 1)"
    by (rule chain_step [OF norm_chain_31 30 1]) simp_all
  have 62: "?g 37897595832631547847094658061492293825 = ?g norm_d ^ (2 ^ 62 - 1)"
    by (rule chain_step [OF norm_chain_62 31 31]) simp_all
  have 63: "?g 64714143841101015964578925443267536254 = ?g norm_d ^ (2 ^ 63 - 1)"
    by (rule chain_step [OF norm_chain_63 62 1]) simp_all
  have 126: "?g 170141183460469231731687303715884105726 = ?g norm_d ^ (2 ^ 126 - 1)"
    by (rule chain_step [OF norm_chain_126 63 63]) simp_all
  have "?g 170141183460469231731687303715884105726 = - 1"
  proof -
    have "?g 170141183460469231731687303715884105726 + 1 = of_nat p1271" by (simp add: p1271_def)
    then show ?thesis using gfp_of_nat_zero [of p1271] by (simp add: eq_neg_iff_add_eq_0)
  qed
  with 126 show ?thesis by (simp only:)
qed

lemma curve_d_norm: "fq_norm curve_d = of_int norm_d"
proof -
  have "fq_norm curve_d = of_nat (digits_val (fst PARAMETER_d) ^ 2 + digits_val (snd PARAMETER_d) ^ 2)"
    by (simp add: fq_norm_def curve_d_def fq_abs_def fp_abs_def)
  also have "\<dots> = of_nat (nat norm_d)"
    unfolding gfp_of_nat_eq by (simp add: PARAMETER_d_def norm_d_def p1271_def)
  finally show ?thesis by (simp add: norm_d_def)
qed

lemma curve_d_nonsquare: "x\<^sup>2 \<noteq> curve_d"
proof
  assume x: "x\<^sup>2 = curve_d"
  obtain m where m: "p1271 - 1 = 2 * m" "m = 2 ^ 126 - 1" by (simp add: p1271_def)
  have n: "of_int norm_d = (fq_norm x)\<^sup>2"
    unfolding curve_d_norm [symmetric] x [symmetric] by (simp add: power2_eq_square fq_norm_mult)
  have pw: "(of_int norm_d :: gfp) ^ m = - 1" unfolding m(2) by (rule norm_d_power)
  have e: "(fq_norm x) ^ (2 * m) = - 1" using pw unfolding n by (simp only: power_mult)
  have "fq_norm x * (fq_norm x) ^ (2 * m) = fq_norm x ^ Suc (p1271 - 1)"
    unfolding m(1) by simp
  also have "\<dots> = fq_norm x" using gfp_fermat p1271_pos(1) by simp
  finally have "- fq_norm x = fq_norm x" unfolding e by simp
  then have "2 * fq_norm x = 0" by (simp only: mult_2) (metis add.left_inverse)
  then have "fq_norm x = 0" using gfp_two by simp
  then have "(0 :: gfp) = - 1" using e m p1271_pos(3) by (simp add: zero_power)
  then show False by simp
qed

section \<open>The curve and its addition law\<close>

definition on_curve :: "fq \<times> fq \<Rightarrow> bool" where
  "on_curve P = (case P of (x, y) \<Rightarrow> y\<^sup>2 - x\<^sup>2 = 1 + curve_d * x\<^sup>2 * y\<^sup>2)"

definition edw_delta :: "fq \<times> fq \<Rightarrow> fq \<times> fq \<Rightarrow> fq" where
  "edw_delta P Q = curve_d * fst P * fst Q * snd P * snd Q"

definition edw_add :: "fq \<times> fq \<Rightarrow> fq \<times> fq \<Rightarrow> fq \<times> fq" where
  "edw_add P Q =
     ((fst P * snd Q + snd P * fst Q) / (1 + edw_delta P Q),
      (snd P * snd Q + fst P * fst Q) / (1 - edw_delta P Q))"

definition edw_neg :: "fq \<times> fq \<Rightarrow> fq \<times> fq" where
  "edw_neg P = (- fst P, snd P)"

definition edw_zero :: "fq \<times> fq" where
  "edw_zero = (0, 1)"

text \<open>-1 is the square of \<open>i\<close>, so \<open>- d\<close> is not a square either.\<close>

definition fq_i :: fq where "fq_i = Fq 0 1"

lemma fq_i_square: "fq_i\<^sup>2 = - 1"
  by (simp add: fq_i_def fq_eq_iff power2_eq_square)

lemma neg_d_nonsquare: "c\<^sup>2 \<noteq> - curve_d"
proof
  assume "c\<^sup>2 = - curve_d"
  then have "(fq_i * c)\<^sup>2 = curve_d" by (simp add: power_mult_distrib fq_i_square)
  then show False using curve_d_nonsquare by blast
qed

lemma square_quotient:
  assumes "(s :: fq)\<^sup>2 = c * m\<^sup>2" "m \<noteq> 0"
  shows "\<exists>r. r\<^sup>2 = c"
proof -
  have "(s / m)\<^sup>2 = c" using assms by (simp add: power_divide)
  then show ?thesis by blast
qed

text \<open>
  Completeness, for the curve \<open>u\<^sup>2 + v\<^sup>2 = 1 + c u\<^sup>2 v\<^sup>2\<close> with \<open>c\<close> not a square: the product
  \<open>c u\<^sub>1 v\<^sub>1 u\<^sub>2 v\<^sub>2\<close> is neither 1 nor -1.
\<close>

lemma complete_aux:
  fixes c u1 v1 u2 v2 e :: fq
  assumes "u1\<^sup>2 + v1\<^sup>2 = 1 + c * u1\<^sup>2 * v1\<^sup>2" "u2\<^sup>2 + v2\<^sup>2 = 1 + c * u2\<^sup>2 * v2\<^sup>2"
    and e: "e = c * u1 * v1 * u2 * v2" "e\<^sup>2 = 1" and ns: "\<And>r. r\<^sup>2 \<noteq> c"
  shows False
proof -
  have nz: "u1 \<noteq> 0" "v1 \<noteq> 0" "u2 \<noteq> 0" "v2 \<noteq> 0" using e by auto
  have k: "c * u1\<^sup>2 * v1\<^sup>2 * (u2\<^sup>2 + v2\<^sup>2) = u1\<^sup>2 + v1\<^sup>2"
  proof -
    have "c * u1\<^sup>2 * v1\<^sup>2 * (u2\<^sup>2 + v2\<^sup>2) = c * u1\<^sup>2 * v1\<^sup>2 + (c * u1 * v1 * u2 * v2)\<^sup>2"
      unfolding assms(2) by (simp add: power2_eq_square algebra_simps)
    also have "\<dots> = 1 + c * u1\<^sup>2 * v1\<^sup>2" using e by simp
    finally show ?thesis using assms(1) by simp
  qed
  have p: "(u1 + e * v1)\<^sup>2 = c * (u1 * v1 * (u2 + v2))\<^sup>2"
  proof -
    have "(u1 + e * v1)\<^sup>2 = u1\<^sup>2 + e\<^sup>2 * v1\<^sup>2 + 2 * (e * (u1 * v1))"
      by (simp add: power2_eq_square algebra_simps)
    also have "\<dots> = c * u1\<^sup>2 * v1\<^sup>2 * (u2\<^sup>2 + v2\<^sup>2) + 2 * (e * (u1 * v1))" using e(2) k by simp
    also have "\<dots> = c * (u1 * v1 * (u2 + v2))\<^sup>2"
      unfolding e(1) by (simp add: power2_eq_square algebra_simps)
    finally show ?thesis .
  qed
  have m: "(u1 - e * v1)\<^sup>2 = c * (u1 * v1 * (u2 - v2))\<^sup>2"
  proof -
    have "(u1 - e * v1)\<^sup>2 = u1\<^sup>2 + e\<^sup>2 * v1\<^sup>2 - 2 * (e * (u1 * v1))"
      by (simp add: power2_eq_square algebra_simps)
    also have "\<dots> = c * u1\<^sup>2 * v1\<^sup>2 * (u2\<^sup>2 + v2\<^sup>2) - 2 * (e * (u1 * v1))" using e(2) k by simp
    also have "\<dots> = c * (u1 * v1 * (u2 - v2))\<^sup>2"
      unfolding e(1) by (simp add: power2_eq_square algebra_simps)
    finally show ?thesis .
  qed
  have "u1 * v1 * (u2 + v2) = 0" using square_quotient [OF p] ns by blast
  moreover have "u1 * v1 * (u2 - v2) = 0" using square_quotient [OF m] ns by blast
  ultimately have "u2 + v2 = 0" "u2 - v2 = 0" using nz by simp_all
  then have "2 * u2 = 0" by (simp only: mult_2) (metis add.right_neutral add_diff_eq diff_add_cancel eq_iff_diff_eq_0)
  then show False using nz fq_two by simp
qed

lemma edw_complete:
  assumes "on_curve P" "on_curve Q"
  shows "1 + edw_delta P Q \<noteq> 0" "1 - edw_delta P Q \<noteq> 0"
proof -
  obtain x1 y1 x2 y2 where PQ: "P = (x1, y1)" "Q = (x2, y2)" by (metis surj_pair)
  let ?i = "fq_i" and ?c = "- curve_d"
  have sq: "(?i * x)\<^sup>2 = - (x\<^sup>2)" for x by (simp add: power_mult_distrib fq_i_square)
  have 1: "(?i * x1)\<^sup>2 + y1\<^sup>2 = 1 + ?c * (?i * x1)\<^sup>2 * y1\<^sup>2" "(?i * x2)\<^sup>2 + y2\<^sup>2 = 1 + ?c * (?i * x2)\<^sup>2 * y2\<^sup>2"
    using assms by (simp_all add: PQ on_curve_def sq)
  have e: "edw_delta P Q = ?c * (?i * x1) * y1 * (?i * x2) * y2"
  proof -
    have "?c * (?i * x1) * y1 * (?i * x2) * y2 = ?i\<^sup>2 * ?c * x1 * x2 * y1 * y2"
      by (simp add: power2_eq_square ac_simps)
    then show ?thesis by (simp add: fq_i_square edw_delta_def PQ)
  qed
  have "(edw_delta P Q)\<^sup>2 \<noteq> 1"
    using complete_aux [OF 1 e] neg_d_nonsquare by blast
  then show "1 + edw_delta P Q \<noteq> 0" "1 - edw_delta P Q \<noteq> 0"
    by (auto simp: power2_eq_1_iff eq_neg_iff_add_eq_0 add.commute)
qed

text \<open>Closure, from a polynomial identity.\<close>

lemma closure_identity:
  fixes x1 y1 x2 y2 d :: "'a :: idom"
  assumes "y1\<^sup>2 - x1\<^sup>2 = 1 + d * x1\<^sup>2 * y1\<^sup>2" "y2\<^sup>2 - x2\<^sup>2 = 1 + d * x2\<^sup>2 * y2\<^sup>2"
  shows "(y1 * y2 + x1 * x2)\<^sup>2 * (1 + d * x1 * x2 * y1 * y2)\<^sup>2 -
      (x1 * y2 + y1 * x2)\<^sup>2 * (1 - d * x1 * x2 * y1 * y2)\<^sup>2 =
    (1 - (d * x1 * x2 * y1 * y2)\<^sup>2)\<^sup>2 + d * (x1 * y2 + y1 * x2)\<^sup>2 * (y1 * y2 + x1 * x2)\<^sup>2"
  using assms by algebra

lemma edw_add_on_curve:
  assumes "on_curve P" "on_curve Q"
  shows "on_curve (edw_add P Q)"
proof -
  obtain x1 y1 x2 y2 where PQ: "P = (x1, y1)" "Q = (x2, y2)" by (metis surj_pair)
  define e where "e = curve_d * x1 * x2 * y1 * y2"
  define A where "A = x1 * y2 + y1 * x2"
  define B where "B = y1 * y2 + x1 * x2"
  have c: "y1\<^sup>2 - x1\<^sup>2 = 1 + curve_d * x1\<^sup>2 * y1\<^sup>2" "y2\<^sup>2 - x2\<^sup>2 = 1 + curve_d * x2\<^sup>2 * y2\<^sup>2"
    using assms by (simp_all add: PQ on_curve_def)
  have id: "B\<^sup>2 * (1 + e)\<^sup>2 - A\<^sup>2 * (1 - e)\<^sup>2 = (1 - e\<^sup>2)\<^sup>2 + curve_d * A\<^sup>2 * B\<^sup>2"
    unfolding A_def B_def e_def by (rule closure_identity [OF c])
  have s: "edw_add P Q = (A / (1 + e), B / (1 - e))"
    by (simp add: edw_add_def edw_delta_def PQ A_def B_def e_def)
  have nz: "1 + e \<noteq> 0" "1 - e \<noteq> 0"
    using edw_complete [OF assms] by (simp_all add: edw_delta_def PQ e_def)
  have f: "(1 - e\<^sup>2)\<^sup>2 = (1 + e)\<^sup>2 * (1 - e)\<^sup>2" by (simp add: power2_eq_square algebra_simps)
  have "(B / (1 - e))\<^sup>2 - (A / (1 + e))\<^sup>2 = (B\<^sup>2 * (1 + e)\<^sup>2 - A\<^sup>2 * (1 - e)\<^sup>2) / ((1 + e)\<^sup>2 * (1 - e)\<^sup>2)"
    using nz by (simp add: power_divide diff_divide_distrib)
  also have "\<dots> = 1 + curve_d * (A / (1 + e))\<^sup>2 * (B / (1 - e))\<^sup>2"
    unfolding id f using nz by (simp add: add_divide_distrib power_divide)
  finally show ?thesis by (simp add: s on_curve_def)
qed

lemma edw_zero_on_curve: "on_curve edw_zero"
  by (simp add: edw_zero_def on_curve_def)

lemma edw_neg_on_curve: "on_curve P \<Longrightarrow> on_curve (edw_neg P)"
  by (cases P) (simp add: edw_neg_def on_curve_def)

lemma edw_add_zero: "edw_add P edw_zero = P"
  by (simp add: edw_add_def edw_delta_def edw_zero_def)

lemma edw_add_commute: "edw_add P Q = edw_add Q P"
  by (simp add: edw_add_def edw_delta_def ac_simps)

lemma edw_add_neg:
  assumes "on_curve P"
  shows "edw_add P (edw_neg P) = edw_zero"
proof -
  obtain x y where P: "P = (x, y)" by (metis surj_pair)
  have c: "y * y - x * x = 1 + curve_d * (x * x) * (y * y)"
    using assms by (simp add: P on_curve_def power2_eq_square)
  have nz: "1 - edw_delta P (edw_neg P) \<noteq> 0" by (rule edw_complete(2) [OF assms edw_neg_on_curve [OF assms]])
  have e: "1 - edw_delta P (edw_neg P) = y * y - x * x"
    unfolding c by (simp add: edw_delta_def edw_neg_def P ac_simps)
  have "fst (edw_add P (edw_neg P)) = 0" by (simp add: edw_add_def edw_neg_def P mult.commute)
  moreover have "snd (edw_add P (edw_neg P)) = (y * y - x * x) / (1 - edw_delta P (edw_neg P))"
    by (simp add: edw_add_def edw_neg_def P)
  then have "snd (edw_add P (edw_neg P)) = 1" using divide_self [OF nz [unfolded e]] unfolding e by metis
  ultimately show ?thesis by (simp add: edw_zero_def prod_eq_iff)
qed

end
