(* ===== verification/FourQ_Curve.thy ===== *)
theory FourQ_Curve
  imports FourQ_Edwards
begin

text \<open>
  Points of FourQ (\<open>oZKS/fourq/eccp2_core.c\<close>, portable build; the structures of
  \<open>oZKS/fourq/FourQ.h\<close> and \<open>oZKS/fourq/FourQ_internal.h\<close>): conversions between the representations,
  doubling, complete and mixed addition, normalization, validation. The functions that update their
  point argument return the updated point; fields a function leaves alone keep their values. The
  lemmas say which point of the curve a structure represents (\<open>r1_rep\<close> and its companions, named
  after the representations of the code) and that the operations compute the addition law.
\<close>

record point_affine =
  pa_x :: f2elm_t
  pa_y :: f2elm_t

record point_extproj =
  pe_x :: f2elm_t
  pe_y :: f2elm_t
  pe_z :: f2elm_t
  pe_ta :: f2elm_t
  pe_tb :: f2elm_t

record point_extproj_precomp =
  pp_xy :: f2elm_t
  pp_yx :: f2elm_t
  pp_z2 :: f2elm_t
  pp_t2 :: f2elm_t

record point_precomp =
  pc_xy :: f2elm_t
  pc_yx :: f2elm_t
  pc_t2 :: f2elm_t

section \<open>Operations\<close>

definition GENERATOR_x :: f2elm_t where
  "GENERATOR_x = ([0x286592AD7B3833AA, 0x1A3472237C2FB305], [0x96869FB360AC77F6, 0x1E1F553F2878AA9C])"

definition GENERATOR_y :: f2elm_t where
  "GENERATOR_y = ([0xB924A2462BCBB287, 0x0E3FEE9BA120785A], [0x49A7C344844C8B5C, 0x6E1C4AF8630E0242])"

definition eccset :: point_affine where
  "eccset = \<lparr>pa_x = fp2copy1271 GENERATOR_x, pa_y = fp2copy1271 GENERATOR_y\<rparr>"

definition eccnorm :: "point_extproj \<Rightarrow> point_affine" where
  "eccnorm P =
     (let z = fp2inv1271 (pe_z P);
          x = fp2mul1271 (pe_x P) z;
          y = fp2mul1271 (pe_y P) z
      in \<lparr>pa_x = fp2mod x, pa_y = fp2mod y\<rparr>)"

definition R1_to_R2 :: "point_extproj \<Rightarrow> point_extproj_precomp" where
  "R1_to_R2 P =
     (let t2 = fp2add1271 (pe_ta P) (pe_ta P);
          xy = fp2add1271 (pe_x P) (pe_y P);
          yx = fp2sub1271 (pe_y P) (pe_x P);
          t2 = fp2mul1271 t2 (pe_tb P);
          z2 = fp2add1271 (pe_z P) (pe_z P);
          t2 = fp2mul1271 t2 PARAMETER_d
      in \<lparr>pp_xy = xy, pp_yx = yx, pp_z2 = z2, pp_t2 = t2\<rparr>)"

definition R1_to_R3 :: "point_extproj \<Rightarrow> point_extproj_precomp" where
  "R1_to_R3 P =
     \<lparr>pp_xy = fp2add1271 (pe_x P) (pe_y P),
      pp_yx = fp2sub1271 (pe_y P) (pe_x P),
      pp_z2 = fp2copy1271 (pe_z P),
      pp_t2 = fp2mul1271 (pe_ta P) (pe_tb P)\<rparr>"

text \<open>\<open>R2_to_R4\<close> sets the coordinates of \<open>Q\<close> and leaves \<open>Ta\<close>, \<open>Tb\<close>.\<close>

definition R2_to_R4 :: "point_extproj_precomp \<Rightarrow> point_extproj \<Rightarrow> point_extproj" where
  "R2_to_R4 P Q =
     Q\<lparr>pe_x := fp2sub1271 (pp_xy P) (pp_yx P),
       pe_y := fp2add1271 (pp_xy P) (pp_yx P),
       pe_z := fp2copy1271 (pp_z2 P)\<rparr>"

definition eccdouble :: "point_extproj \<Rightarrow> point_extproj" where
  "eccdouble P =
     (let t1 = fp2sqr1271 (pe_x P);
          t2 = fp2sqr1271 (pe_y P);
          x = fp2add1271 (pe_x P) (pe_y P);
          tb = fp2add1271 t1 t2;
          t1 = fp2sub1271 t2 t1;
          ta = fp2sqr1271 x;
          t2 = fp2sqr1271 (pe_z P);
          ta = fp2sub1271 ta tb;
          t2 = fp2addsub1271 t2 t1;
          y = fp2mul1271 t1 tb;
          x = fp2mul1271 t2 ta;
          z = fp2mul1271 t1 t2
      in \<lparr>pe_x = x, pe_y = y, pe_z = z, pe_ta = ta, pe_tb = tb\<rparr>)"

definition eccadd_core :: "point_extproj_precomp \<Rightarrow> point_extproj_precomp \<Rightarrow> point_extproj" where
  "eccadd_core P Q =
     (let z = fp2mul1271 (pp_t2 P) (pp_t2 Q);
          t1 = fp2mul1271 (pp_z2 P) (pp_z2 Q);
          x = fp2mul1271 (pp_xy P) (pp_xy Q);
          y = fp2mul1271 (pp_yx P) (pp_yx Q);
          t2 = fp2sub1271 t1 z;
          t1 = fp2add1271 t1 z;
          tb = fp2sub1271 x y;
          ta = fp2add1271 x y;
          x = fp2mul1271 tb t2;
          z = fp2mul1271 t1 t2;
          y = fp2mul1271 ta t1
      in \<lparr>pe_x = x, pe_y = y, pe_z = z, pe_ta = ta, pe_tb = tb\<rparr>)"

definition eccadd :: "point_extproj_precomp \<Rightarrow> point_extproj \<Rightarrow> point_extproj" where
  "eccadd Q P = eccadd_core Q (R1_to_R3 P)"

definition point_setup :: "point_affine \<Rightarrow> point_extproj" where
  "point_setup P =
     (let x = fp2copy1271 (pa_x P); y = fp2copy1271 (pa_y P)
      in \<lparr>pe_x = x, pe_y = y, pe_z = fp2one, pe_ta = fp2copy1271 x, pe_tb = fp2copy1271 y\<rparr>)"

definition ecc_point_validate :: "point_extproj \<Rightarrow> bool" where
  "ecc_point_validate P =
     (let t1 = fp2sqr1271 (pe_y P);
          t2 = fp2sqr1271 (pe_x P);
          t3 = fp2sub1271 t1 t2;
          t1 = fp2mul1271 t1 t2;
          t2 = fp2mul1271 PARAMETER_d t1;
          t1 = fp2one;
          t2 = fp2add1271 t2 t1;
          t1 = fp2sub1271 t3 t2;
          t1 = fp2mod t1
      in list_all (\<lambda>d. d = 0) (fst t1) \<and> list_all (\<lambda>d. d = 0) (snd t1))"

definition R5_to_R1 :: "point_precomp \<Rightarrow> point_extproj" where
  "R5_to_R1 P =
     (let x = fp2sub1271 (pc_xy P) (pc_yx P);
          y = fp2add1271 (pc_xy P) (pc_yx P);
          x = fp2div1271 x;
          y = fp2div1271 y
      in \<lparr>pe_x = x, pe_y = y, pe_z = fp2one, pe_ta = fp2copy1271 x, pe_tb = fp2copy1271 y\<rparr>)"

definition eccmadd :: "point_precomp \<Rightarrow> point_extproj \<Rightarrow> point_extproj" where
  "eccmadd Q P =
     (let ta = fp2mul1271 (pe_ta P) (pe_tb P);
          t1 = fp2add1271 (pe_z P) (pe_z P);
          ta = fp2mul1271 ta (pc_t2 Q);
          z = fp2add1271 (pe_x P) (pe_y P);
          tb = fp2sub1271 (pe_y P) (pe_x P);
          t2 = fp2sub1271 t1 ta;
          t1 = fp2add1271 t1 ta;
          ta = fp2mul1271 (pc_xy Q) z;
          x = fp2mul1271 (pc_yx Q) tb;
          z = fp2mul1271 t1 t2;
          tb = fp2sub1271 ta x;
          ta = fp2add1271 ta x;
          x = fp2mul1271 tb t2;
          y = fp2mul1271 ta t1
      in \<lparr>pe_x = x, pe_y = y, pe_z = z, pe_ta = ta, pe_tb = tb\<rparr>)"

definition eccneg_extproj_precomp :: "point_extproj_precomp \<Rightarrow> point_extproj_precomp" where
  "eccneg_extproj_precomp P =
     \<lparr>pp_xy = fp2copy1271 (pp_yx P), pp_yx = fp2copy1271 (pp_xy P), pp_z2 = fp2copy1271 (pp_z2 P),
      pp_t2 = fp2neg1271 (fp2copy1271 (pp_t2 P))\<rparr>"

definition eccneg_precomp :: "point_precomp \<Rightarrow> point_precomp" where
  "eccneg_precomp P =
     \<lparr>pc_xy = fp2copy1271 (pc_yx P), pc_yx = fp2copy1271 (pc_xy P),
      pc_t2 = fp2neg1271 (fp2copy1271 (pc_t2 P))\<rparr>"

text \<open>
  The table of the odd multiples \<open>P, 3P, 5P, ...\<close>, for the double scalar multiplication; the
  function also doubles its argument.
\<close>

fun precomp_double_loop :: "nat \<Rightarrow> point_extproj_precomp \<Rightarrow> point_extproj_precomp \<Rightarrow> point_extproj_precomp list" where
  "precomp_double_loop 0 PP prev = []"
| "precomp_double_loop (Suc n) PP prev =
     (let Q = eccadd_core prev PP; entry = R1_to_R2 Q in entry # precomp_double_loop n PP entry)"

definition ecc_precomp_double :: "point_extproj \<Rightarrow> nat \<Rightarrow> point_extproj \<times> point_extproj_precomp list" where
  "ecc_precomp_double P npoints =
     (let entry = R1_to_R2 P;
          P = eccdouble P;
          PP = R1_to_R3 P
      in (P, entry # precomp_double_loop (npoints - 1) PP entry))"

section \<open>What a structure represents\<close>

definition aff_valid :: "point_affine \<Rightarrow> bool" where
  "aff_valid P = (f2elm (pa_x P) \<and> f2elm (pa_y P))"

definition aff_point :: "point_affine \<Rightarrow> fq \<times> fq" where
  "aff_point P = (fq_abs (pa_x P), fq_abs (pa_y P))"

text \<open>Projective coordinates of a point of the curve; \<open>r1_rep\<close> adds \<open>T = Ta Tb\<close>.\<close>

definition r4_rep :: "point_extproj \<Rightarrow> fq \<times> fq \<Rightarrow> bool" where
  "r4_rep P a = (f2elm (pe_x P) \<and> f2elm (pe_y P) \<and> f2elm (pe_z P) \<and> on_curve a \<and>
     fq_abs (pe_z P) \<noteq> 0 \<and> fq_abs (pe_x P) = fst a * fq_abs (pe_z P) \<and>
     fq_abs (pe_y P) = snd a * fq_abs (pe_z P))"

definition r1_rep :: "point_extproj \<Rightarrow> fq \<times> fq \<Rightarrow> bool" where
  "r1_rep P a = (r4_rep P a \<and> f2elm (pe_ta P) \<and> f2elm (pe_tb P) \<and>
     fq_abs (pe_ta P) * fq_abs (pe_tb P) = fst a * snd a * fq_abs (pe_z P))"

definition pp_valid :: "point_extproj_precomp \<Rightarrow> bool" where
  "pp_valid P = (f2elm (pp_xy P) \<and> f2elm (pp_yx P) \<and> f2elm (pp_z2 P) \<and> f2elm (pp_t2 P))"

definition r2_rep :: "point_extproj_precomp \<Rightarrow> fq \<times> fq \<Rightarrow> bool" where
  "r2_rep P a = (pp_valid P \<and> on_curve a \<and> (\<exists>z. z \<noteq> 0 \<and>
     fq_abs (pp_xy P) = (fst a + snd a) * z \<and> fq_abs (pp_yx P) = (snd a - fst a) * z \<and>
     fq_abs (pp_z2 P) = 2 * z \<and> fq_abs (pp_t2 P) = 2 * curve_d * (fst a * snd a * z)))"

definition r3_rep :: "point_extproj_precomp \<Rightarrow> fq \<times> fq \<Rightarrow> bool" where
  "r3_rep P a = (pp_valid P \<and> on_curve a \<and> (\<exists>z. z \<noteq> 0 \<and>
     fq_abs (pp_xy P) = (fst a + snd a) * z \<and> fq_abs (pp_yx P) = (snd a - fst a) * z \<and>
     fq_abs (pp_z2 P) = z \<and> fq_abs (pp_t2 P) = fst a * snd a * z))"

definition r5_rep :: "point_precomp \<Rightarrow> fq \<times> fq \<Rightarrow> bool" where
  "r5_rep P a = (f2elm (pc_xy P) \<and> f2elm (pc_yx P) \<and> f2elm (pc_t2 P) \<and> on_curve a \<and>
     fq_abs (pc_xy P) = fst a + snd a \<and> fq_abs (pc_yx P) = snd a - fst a \<and>
     fq_abs (pc_t2 P) = 2 * curve_d * (fst a * snd a))"

section \<open>Conversions\<close>

lemma double_sum: "z + z = 2 * (z :: fq)"
  by (rule mult_2 [symmetric])

lemma R1_to_R2_spec:
  assumes "r1_rep P a"
  shows "r2_rep (R1_to_R2 P) a"
proof -
  let ?x = "fst a" and ?y = "snd a" and ?z = "fq_abs (pe_z P)"
  have v: "f2elm (pe_x P)" "f2elm (pe_y P)" "f2elm (pe_z P)" "f2elm (pe_ta P)" "f2elm (pe_tb P)"
    and c: "on_curve a" "?z \<noteq> 0" and e: "fq_abs (pe_x P) = ?x * ?z" "fq_abs (pe_y P) = ?y * ?z"
    and t: "fq_abs (pe_ta P) * fq_abs (pe_tb P) = ?x * ?y * ?z"
    using assms by (simp_all add: r1_rep_def r4_rep_def)
  have "(fq_abs (pe_ta P) + fq_abs (pe_ta P)) * fq_abs (pe_tb P) * curve_d = 2 * curve_d * (?x * ?y * ?z)"
    unfolding t [symmetric] double_sum by (simp only: ac_simps)
  then have "pp_valid (R1_to_R2 P)" "fq_abs (pp_xy (R1_to_R2 P)) = (?x + ?y) * ?z"
    "fq_abs (pp_yx (R1_to_R2 P)) = (?y - ?x) * ?z" "fq_abs (pp_z2 (R1_to_R2 P)) = 2 * ?z"
    "fq_abs (pp_t2 (R1_to_R2 P)) = 2 * curve_d * (?x * ?y * ?z)"
    using v by (simp_all add: R1_to_R2_def Let_def pp_valid_def fp2 e double_sum algebra_simps del: mult_2)
  then show ?thesis using c by (auto simp: r2_rep_def)
qed

lemma R1_to_R3_spec:
  assumes "r1_rep P a"
  shows "r3_rep (R1_to_R3 P) a"
proof -
  let ?x = "fst a" and ?y = "snd a" and ?z = "fq_abs (pe_z P)"
  have "pp_valid (R1_to_R3 P)" "fq_abs (pp_xy (R1_to_R3 P)) = (?x + ?y) * ?z"
    "fq_abs (pp_yx (R1_to_R3 P)) = (?y - ?x) * ?z" "fq_abs (pp_z2 (R1_to_R3 P)) = ?z"
    "fq_abs (pp_t2 (R1_to_R3 P)) = ?x * ?y * ?z" "on_curve a" "?z \<noteq> 0"
    using assms
    by (simp_all add: R1_to_R3_def pp_valid_def fp2 r1_rep_def r4_rep_def algebra_simps)
  then show ?thesis by (auto simp: r3_rep_def)
qed

lemma R2_to_R4_spec:
  assumes "r2_rep P a"
  shows "r4_rep (R2_to_R4 P Q) a"
proof -
  obtain z where z: "z \<noteq> 0" "fq_abs (pp_xy P) = (fst a + snd a) * z" "fq_abs (pp_yx P) = (snd a - fst a) * z"
    "fq_abs (pp_z2 P) = 2 * z" and v: "pp_valid P" "on_curve a"
    using assms by (auto simp: r2_rep_def)
  have "(fst a + snd a) * z - (snd a - fst a) * z = fst a * (2 * z)"
    "(fst a + snd a) * z + (snd a - fst a) * z = snd a * (2 * z)" by (simp_all add: algebra_simps)
  then show ?thesis using z v fq_two
    by (simp add: r4_rep_def R2_to_R4_def fp2 pp_valid_def)
qed

lemma r1_rep_r4: "r1_rep P a \<Longrightarrow> r4_rep P a"
  by (simp add: r1_rep_def)

section \<open>Doubling and addition\<close>

text \<open>A quotient with a non-zero denominator, multiplied up.\<close>

lemma quotient_times: "(c :: fq) \<noteq> 0 \<Longrightarrow> b / c * (c * e) = b * e"
  by simp

lemma eccdouble_spec:
  assumes "r4_rep P a"
  shows "r1_rep (eccdouble P) (edw_add a a)"
proof -
  define x y z where "x = fst a" "y = snd a" "z = fq_abs (pe_z P)"
  note xyz = this
  have v: "f2elm (pe_x P)" "f2elm (pe_y P)" "f2elm (pe_z P)" and c: "on_curve a" "z \<noteq> 0"
    and e: "fq_abs (pe_x P) = x * z" "fq_abs (pe_y P) = y * z"
    using assms by (simp_all add: r4_rep_def xyz)
  define s where "s = edw_delta a a"
  have nz: "1 + s \<noteq> 0" "1 - s \<noteq> 0" unfolding s_def by (rule edw_complete [OF c(1) c(1)])+
  have s: "y\<^sup>2 - x\<^sup>2 = 1 + s"
    using c(1) by (cases a) (simp add: on_curve_def s_def edw_delta_def xyz power2_eq_square ac_simps)
  have ad: "edw_add a a = ((2 * x * y) / (1 + s), (x\<^sup>2 + y\<^sup>2) / (1 - s))"
    by (simp add: edw_add_def s_def xyz power2_eq_square algebra_simps)
  let ?t1 = "(1 + s) * z\<^sup>2" and ?t2 = "(1 - s) * z\<^sup>2" and ?ta = "2 * x * y * z\<^sup>2" and ?tb = "(x\<^sup>2 + y\<^sup>2) * z\<^sup>2"
  have 1: "(y * z)\<^sup>2 - (x * z)\<^sup>2 = ?t1" unfolding s [symmetric] by (simp add: power2_eq_square algebra_simps)
  have 2: "2 * z\<^sup>2 - ?t1 = ?t2" by (simp add: algebra_simps)
  have 3: "(x * z)\<^sup>2 + (y * z)\<^sup>2 = ?tb" by (simp add: power2_eq_square algebra_simps)
  have 4: "(x * z + y * z)\<^sup>2 - ?tb = ?ta" by (simp add: power2_eq_square algebra_simps)
  have val: "fq_abs (pe_x (eccdouble P)) = ?t2 * ?ta" "fq_abs (pe_y (eccdouble P)) = ?t1 * ?tb"
    "fq_abs (pe_z (eccdouble P)) = ?t1 * ?t2" "fq_abs (pe_ta (eccdouble P)) = ?ta"
    "fq_abs (pe_tb (eccdouble P)) = ?tb"
    using v by (simp_all only: eccdouble_def Let_def fp2 point_extproj.simps e xyz(3) [symmetric] 1 2 3 4)
  have valid: "f2elm (pe_x (eccdouble P))" "f2elm (pe_y (eccdouble P))" "f2elm (pe_z (eccdouble P))"
    "f2elm (pe_ta (eccdouble P))" "f2elm (pe_tb (eccdouble P))"
    using v by (simp_all only: eccdouble_def Let_def fp2 point_extproj.simps)
  have z: "?t1 * ?t2 \<noteq> 0" using nz c(2) by simp
  have "?t2 * ?ta = (2 * x * y) / (1 + s) * (?t1 * ?t2)" "?t1 * ?tb = (x\<^sup>2 + y\<^sup>2) / (1 - s) * (?t1 * ?t2)"
    "?ta * ?tb = (2 * x * y) / (1 + s) * ((x\<^sup>2 + y\<^sup>2) / (1 - s)) * (?t1 * ?t2)"
    using nz by simp_all
  then show ?thesis
    using valid z edw_add_on_curve [OF c(1) c(1)] unfolding r1_rep_def r4_rep_def val ad by simp
qed

lemma eccadd_core_values:
  assumes "pp_valid P" "pp_valid Q" "on_curve a" "on_curve b" "z1 \<noteq> 0" "z2 \<noteq> 0"
    and "fq_abs (pp_xy P) * fq_abs (pp_xy Q) = (fst a + snd a) * z1 * ((fst b + snd b) * z2)"
    and "fq_abs (pp_yx P) * fq_abs (pp_yx Q) = (snd a - fst a) * z1 * ((snd b - fst b) * z2)"
    and "fq_abs (pp_z2 P) * fq_abs (pp_z2 Q) = 2 * (z1 * z2)"
    and "fq_abs (pp_t2 P) * fq_abs (pp_t2 Q) = 2 * curve_d * (fst a * snd a * z1) * (fst b * snd b * z2)"
  shows "r1_rep (eccadd_core P Q) (edw_add a b)"
proof -
  define s where "s = edw_delta a b"
  define m where "m = 2 * (z1 * z2)"
  define A where "A = fst a * snd b + snd a * fst b"
  define B where "B = snd a * snd b + fst a * fst b"
  have nz: "1 + s \<noteq> 0" "1 - s \<noteq> 0" unfolding s_def by (rule edw_complete [OF assms(3,4)])+
  have mz: "m \<noteq> 0" using assms(5,6) fq_two by (simp add: m_def)
  have ad: "edw_add a b = (A / (1 + s), B / (1 - s))" by (simp add: edw_add_def A_def B_def s_def)
  have t2: "fq_abs (pp_t2 P) * fq_abs (pp_t2 Q) = m * s"
    unfolding assms(10) m_def s_def edw_delta_def by (simp only: ac_simps)
  have z2: "fq_abs (pp_z2 P) * fq_abs (pp_z2 Q) = m" by (simp only: assms(9) m_def)
  have 1: "fq_abs (pp_xy P) * fq_abs (pp_xy Q) - fq_abs (pp_yx P) * fq_abs (pp_yx Q) = m * A"
    unfolding assms(7,8) m_def A_def by (simp add: algebra_simps)
  have 2: "fq_abs (pp_xy P) * fq_abs (pp_xy Q) + fq_abs (pp_yx P) * fq_abs (pp_yx Q) = m * B"
    unfolding assms(7,8) m_def B_def by (simp add: algebra_simps)
  have 3: "m - m * s = m * (1 - s)" "m + m * s = m * (1 + s)" by (simp_all add: algebra_simps)
  let ?R = "eccadd_core P Q"
  have v: "f2elm (pp_xy P)" "f2elm (pp_yx P)" "f2elm (pp_z2 P)" "f2elm (pp_t2 P)"
    "f2elm (pp_xy Q)" "f2elm (pp_yx Q)" "f2elm (pp_z2 Q)" "f2elm (pp_t2 Q)"
    using assms(1,2) by (simp_all add: pp_valid_def)
  have val: "fq_abs (pe_x ?R) = (m * A) * (m * (1 - s))" "fq_abs (pe_y ?R) = (m * B) * (m * (1 + s))"
    "fq_abs (pe_z ?R) = (m * (1 + s)) * (m * (1 - s))" "fq_abs (pe_ta ?R) = m * B" "fq_abs (pe_tb ?R) = m * A"
    using v by (simp_all only: eccadd_core_def Let_def fp2 point_extproj.simps t2 z2 1 2 3)
  have valid: "f2elm (pe_x ?R)" "f2elm (pe_y ?R)" "f2elm (pe_z ?R)" "f2elm (pe_ta ?R)" "f2elm (pe_tb ?R)"
    using v by (simp_all only: eccadd_core_def Let_def fp2 point_extproj.simps)
  have z: "(m * (1 + s)) * (m * (1 - s)) \<noteq> 0" using nz mz by simp
  have "(m * A) * (m * (1 - s)) = A / (1 + s) * ((m * (1 + s)) * (m * (1 - s)))"
    "(m * B) * (m * (1 + s)) = B / (1 - s) * ((m * (1 + s)) * (m * (1 - s)))"
    "(m * B) * (m * A) = A / (1 + s) * (B / (1 - s)) * ((m * (1 + s)) * (m * (1 - s)))"
    using nz by simp_all
  then show ?thesis
    using valid z edw_add_on_curve [OF assms(3,4)] unfolding r1_rep_def r4_rep_def val ad by simp
qed

lemma eccadd_core_spec:
  assumes "r2_rep P a" "r3_rep Q b"
  shows "r1_rep (eccadd_core P Q) (edw_add a b)" "r1_rep (eccadd_core Q P) (edw_add a b)"
proof -
  obtain z1 where z1: "z1 \<noteq> 0" "fq_abs (pp_xy P) = (fst a + snd a) * z1" "fq_abs (pp_yx P) = (snd a - fst a) * z1"
    "fq_abs (pp_z2 P) = 2 * z1" "fq_abs (pp_t2 P) = 2 * curve_d * (fst a * snd a * z1)"
    and a: "pp_valid P" "on_curve a" using assms(1) by (auto simp: r2_rep_def)
  obtain z2 where z2: "z2 \<noteq> 0" "fq_abs (pp_xy Q) = (fst b + snd b) * z2" "fq_abs (pp_yx Q) = (snd b - fst b) * z2"
    "fq_abs (pp_z2 Q) = z2" "fq_abs (pp_t2 Q) = fst b * snd b * z2"
    and b: "pp_valid Q" "on_curve b" using assms(2) by (auto simp: r3_rep_def)
  show "r1_rep (eccadd_core P Q) (edw_add a b)"
    by (rule eccadd_core_values [OF a(1) b(1) a(2) b(2) z1(1) z2(1)])
      (simp_all only: z1 z2 ac_simps)
  show "r1_rep (eccadd_core Q P) (edw_add a b)"
    unfolding edw_add_commute [of a b]
    by (rule eccadd_core_values [OF b(1) a(1) b(2) a(2) z2(1) z1(1)])
      (simp_all only: z1 z2 ac_simps)
qed

lemma eccadd_spec:
  assumes "r2_rep Q b" "r1_rep P a"
  shows "r1_rep (eccadd Q P) (edw_add a b)"
  unfolding eccadd_def edw_add_commute [of a b]
  by (rule eccadd_core_spec(1) [OF assms(1) R1_to_R3_spec [OF assms(2)]])

text \<open>Mixed addition: the second point is affine.\<close>

lemma eccmadd_core:
  assumes "f2elm (pe_x P)" "f2elm (pe_y P)" "f2elm (pe_z P)" "f2elm (pe_ta P)" "f2elm (pe_tb P)"
    "f2elm (pc_xy Q)" "f2elm (pc_yx Q)" "f2elm (pc_t2 Q)"
  defines "Q' \<equiv> \<lparr>pp_xy = pc_xy Q, pp_yx = pc_yx Q, pp_z2 = fp2add1271 fp2one fp2one, pp_t2 = pc_t2 Q\<rparr>"
  shows "fq_abs (pe_x (eccmadd Q P)) = fq_abs (pe_x (eccadd Q' P))"
    "fq_abs (pe_y (eccmadd Q P)) = fq_abs (pe_y (eccadd Q' P))"
    "fq_abs (pe_z (eccmadd Q P)) = fq_abs (pe_z (eccadd Q' P))"
    "fq_abs (pe_ta (eccmadd Q P)) = fq_abs (pe_ta (eccadd Q' P))"
    "fq_abs (pe_tb (eccmadd Q P)) = fq_abs (pe_tb (eccadd Q' P))"
    "f2elm (pe_x (eccmadd Q P))" "f2elm (pe_y (eccmadd Q P))" "f2elm (pe_z (eccmadd Q P))"
    "f2elm (pe_ta (eccmadd Q P))" "f2elm (pe_tb (eccmadd Q P))"
proof -
  note defs = eccmadd_def eccadd_def eccadd_core_def R1_to_R3_def Q'_def
  have o: "(1 + 1) * fq_abs (pe_z P) = fq_abs (pe_z P) + fq_abs (pe_z P)" by (simp only: distrib_right mult_1_left)
  have c: "fq_abs (pc_t2 Q) * w = w * fq_abs (pc_t2 Q)" for w by (rule mult.commute)
  show "fq_abs (pe_x (eccmadd Q P)) = fq_abs (pe_x (eccadd Q' P))"
    "fq_abs (pe_y (eccmadd Q P)) = fq_abs (pe_y (eccadd Q' P))"
    "fq_abs (pe_z (eccmadd Q P)) = fq_abs (pe_z (eccadd Q' P))"
    "fq_abs (pe_ta (eccmadd Q P)) = fq_abs (pe_ta (eccadd Q' P))"
    "fq_abs (pe_tb (eccmadd Q P)) = fq_abs (pe_tb (eccadd Q' P))"
    using assms(1-8)
    by (simp_all only: defs Let_def fp2 point_extproj.simps point_extproj_precomp.simps o c)
  show "f2elm (pe_x (eccmadd Q P))" "f2elm (pe_y (eccmadd Q P))" "f2elm (pe_z (eccmadd Q P))"
    "f2elm (pe_ta (eccmadd Q P))" "f2elm (pe_tb (eccmadd Q P))"
    using assms(1-8) by (simp_all only: eccmadd_def Let_def fp2 point_extproj.simps)
qed

lemma eccmadd_spec:
  assumes "r5_rep Q b" "r1_rep P a"
  shows "r1_rep (eccmadd Q P) (edw_add a b)"
proof -
  let ?Q = "\<lparr>pp_xy = pc_xy Q, pp_yx = pc_yx Q, pp_z2 = fp2add1271 fp2one fp2one, pp_t2 = pc_t2 Q\<rparr>"
  have v: "f2elm (pe_x P)" "f2elm (pe_y P)" "f2elm (pe_z P)" "f2elm (pe_ta P)" "f2elm (pe_tb P)"
    "f2elm (pc_xy Q)" "f2elm (pc_yx Q)" "f2elm (pc_t2 Q)"
    using assms by (simp_all add: r5_rep_def r1_rep_def r4_rep_def)
  have "r2_rep ?Q b"
    using assms(1) by (auto simp: r2_rep_def r5_rep_def pp_valid_def fp2 intro: exI [of _ 1])
  from eccadd_spec [OF this assms(2)] show ?thesis
    using eccmadd_core(6-10) [OF v] unfolding r1_rep_def r4_rep_def eccmadd_core(1-5) [OF v] by blast
qed

lemma R5_to_R1_spec:
  assumes "r5_rep P a"
  shows "r1_rep (R5_to_R1 P) a"
proof -
  let ?R = "R5_to_R1 P"
  have v: "f2elm (pc_xy P)" "f2elm (pc_yx P)" and c: "on_curve a"
    and e: "fq_abs (pc_xy P) = fst a + snd a" "fq_abs (pc_yx P) = snd a - fst a"
    using assms by (simp_all add: r5_rep_def)
  have half: "2 * u = 2 * w \<Longrightarrow> u = w" for u w :: fq using fq_two by simp
  have "2 * fq_abs (fp2div1271 (fp2sub1271 (pc_xy P) (pc_yx P))) = 2 * fst a"
    "2 * fq_abs (fp2div1271 (fp2add1271 (pc_xy P) (pc_yx P))) = 2 * snd a"
    using v by (simp_all add: fp2 e)
  then have "fq_abs (fp2div1271 (fp2sub1271 (pc_xy P) (pc_yx P))) = fst a"
    "fq_abs (fp2div1271 (fp2add1271 (pc_xy P) (pc_yx P))) = snd a" by (blast intro: half)+
  then show ?thesis using v c by (simp add: r1_rep_def r4_rep_def R5_to_R1_def Let_def fp2)
qed

section \<open>Set-up, normalization, validation\<close>

lemma point_setup_spec:
  assumes "aff_valid P" "on_curve (aff_point P)"
  shows "r1_rep (point_setup P) (aff_point P)"
  using assms by (simp add: r1_rep_def r4_rep_def point_setup_def Let_def fp2 aff_valid_def aff_point_def)

lemma eccnorm_spec:
  assumes "r4_rep P a"
  shows "aff_valid (eccnorm P)" "aff_point (eccnorm P) = a"
    "fp2mod (pa_x (eccnorm P)) = pa_x (eccnorm P)" "fp2mod (pa_y (eccnorm P)) = pa_y (eccnorm P)"
proof -
  have v: "f2elm (pe_x P)" "f2elm (pe_y P)" "f2elm (pe_z P)" using assms by (simp_all add: r4_rep_def)
  then show "aff_valid (eccnorm P)" by (simp add: eccnorm_def Let_def aff_valid_def fp2)
  have "z \<noteq> 0 \<Longrightarrow> u * z * inverse z = u" for u z :: fq by (simp add: mult.assoc)
  then show "aff_point (eccnorm P) = a"
    using assms v by (simp add: eccnorm_def Let_def aff_point_def fp2 r4_rep_def prod_eq_iff)
  have idem: "fp2mod (fp2mod u) = fp2mod u" if "f2elm u" for u
    using that by (simp add: fp2mod_eq_iff fp2)
  show "fp2mod (pa_x (eccnorm P)) = pa_x (eccnorm P)" "fp2mod (pa_y (eccnorm P)) = pa_y (eccnorm P)"
    using v by (simp_all add: eccnorm_def Let_def idem fp2)
qed

lemma zero_digits: "length ds = n \<Longrightarrow> list_all (\<lambda>d. d = 0) ds \<longleftrightarrow> digits_val ds = 0"
  by (induction ds arbitrary: n) (auto simp: unat_eq_0)

lemma fp2mod_zero:
  assumes "f2elm t"
  shows "list_all (\<lambda>d. d = 0) (fst (fp2mod t)) \<and> list_all (\<lambda>d. d = 0) (snd (fp2mod t)) \<longleftrightarrow> fq_abs t = 0"
proof -
  have "digits_val (mod1271 u) = 0 \<longleftrightarrow> fp_abs u = 0" if "felm u" for u
    using mod1271_spec(3) [OF that] by (simp add: fp_abs_def gfp_of_nat_zero dvd_eq_mod_eq_0)
  then show ?thesis
    using assms zero_digits by (simp add: fp2mod_def f2elm_def fq_abs_def fq_eq_iff)
qed

text \<open>Validation decides the curve equation, for any representatives of the coordinates.\<close>

lemma ecc_point_validate_spec:
  assumes "f2elm (pe_x P)" "f2elm (pe_y P)"
  shows "ecc_point_validate P = on_curve (fq_abs (pe_x P), fq_abs (pe_y P))"
proof -
  let ?x = "fq_abs (pe_x P)" and ?y = "fq_abs (pe_y P)"
  define t where "t = fp2sub1271 (fp2sub1271 (fp2sqr1271 (pe_y P)) (fp2sqr1271 (pe_x P)))
    (fp2add1271 (fp2mul1271 PARAMETER_d (fp2mul1271 (fp2sqr1271 (pe_y P)) (fp2sqr1271 (pe_x P)))) fp2one)"
  have t: "f2elm t" "fq_abs t = (?y\<^sup>2 - ?x\<^sup>2) - (curve_d * (?y\<^sup>2 * ?x\<^sup>2) + 1)"
    using assms by (simp_all add: t_def fp2)
  have "ecc_point_validate P \<longleftrightarrow> fq_abs t = 0"
    using fp2mod_zero [OF t(1)] by (simp add: ecc_point_validate_def Let_def flip: t_def)
  also have "\<dots> \<longleftrightarrow> ?y\<^sup>2 - ?x\<^sup>2 = 1 + curve_d * ?x\<^sup>2 * ?y\<^sup>2"
    unfolding t(2) right_minus_eq by (simp only: ac_simps)
  finally show ?thesis by (simp add: on_curve_def)
qed

lemma eccneg_extproj_precomp_spec:
  assumes "r2_rep P a"
  shows "r2_rep (eccneg_extproj_precomp P) (edw_neg a)"
proof -
  obtain z where z: "z \<noteq> 0" "fq_abs (pp_xy P) = (fst a + snd a) * z" "fq_abs (pp_yx P) = (snd a - fst a) * z"
    "fq_abs (pp_z2 P) = 2 * z" "fq_abs (pp_t2 P) = 2 * curve_d * (fst a * snd a * z)"
    and v: "pp_valid P" "on_curve a" using assms by (auto simp: r2_rep_def)
  show ?thesis
    unfolding r2_rep_def
    using z v edw_neg_on_curve [OF v(2)]
    by (auto simp: eccneg_extproj_precomp_def edw_neg_def pp_valid_def fp2 intro!: exI [of _ z])
qed

lemma eccneg_precomp_spec:
  assumes "r5_rep P a"
  shows "r5_rep (eccneg_precomp P) (edw_neg a)"
  using assms edw_neg_on_curve [of a]
  by (simp add: r5_rep_def eccneg_precomp_def edw_neg_def fp2)

text \<open>The table of odd multiples.\<close>

fun odd_multiples :: "nat \<Rightarrow> fq \<times> fq \<Rightarrow> fq \<times> fq \<Rightarrow> (fq \<times> fq) list" where
  "odd_multiples 0 twice a = []"
| "odd_multiples (Suc n) twice a = a # odd_multiples n twice (edw_add a twice)"

lemma precomp_double_loop_spec:
  "r3_rep PP b \<Longrightarrow> r2_rep prev a \<Longrightarrow>
    list_all2 r2_rep (precomp_double_loop n PP prev) (odd_multiples n b (edw_add a b))"
proof (induction n arbitrary: prev a)
  case (Suc n)
  note e = R1_to_R2_spec [OF eccadd_core_spec(1) [OF Suc.prems(2,1)]]
  show ?case using e Suc.IH [OF Suc.prems(1) e] by (simp add: Let_def)
qed simp

lemma ecc_precomp_double_spec:
  assumes "r1_rep P a" "0 < n"
  shows "r1_rep (fst (ecc_precomp_double P n)) (edw_add a a)"
    "list_all2 r2_rep (snd (ecc_precomp_double P n)) (odd_multiples n (edw_add a a) a)"
proof -
  note d = eccdouble_spec [OF r1_rep_r4 [OF assms(1)]]
  show "r1_rep (fst (ecc_precomp_double P n)) (edw_add a a)"
    using d by (simp add: ecc_precomp_double_def Let_def)
  obtain m where n: "n = Suc m" using assms(2) by (cases n) auto
  show "list_all2 r2_rep (snd (ecc_precomp_double P n)) (odd_multiples n (edw_add a a) a)"
    using precomp_double_loop_spec [OF R1_to_R3_spec [OF d] R1_to_R2_spec [OF assms(1)], of m] R1_to_R2_spec [OF assms(1)]
    by (simp add: ecc_precomp_double_def Let_def n)
qed

section \<open>The generator\<close>

text \<open>Products of elements of GF(p^2) given by integer representatives.\<close>

definition fqi :: "int \<Rightarrow> int \<Rightarrow> fq" where
  "fqi a b = Fq (of_int a) (of_int b)"

lemma gfp_of_int_p: "of_int 170141183460469231731687303715884105727 = (0 :: gfp)"
proof -
  have "of_int 170141183460469231731687303715884105727 = (of_nat p1271 :: gfp)" by (simp add: p1271_def)
  then show ?thesis using gfp_of_nat_zero [of p1271] by simp
qed

lemma fqi_eq:
  assumes "a = r + 170141183460469231731687303715884105727 * k"
    "b = s + 170141183460469231731687303715884105727 * l"
  shows "fqi a b = fqi r s"
  unfolding assms fqi_def of_int_add of_int_mult gfp_of_int_p by simp

lemma fqi_mult:
  assumes "a * c - b * d = r + 170141183460469231731687303715884105727 * k"
    "a * d + b * c = s + 170141183460469231731687303715884105727 * l"
  shows "fqi a b * fqi c d = fqi r s"
proof -
  have "fqi a b * fqi c d = fqi (a * c - b * d) (a * d + b * c)"
    by (simp add: fqi_def fq_eq_iff)
  then show ?thesis using fqi_eq [OF assms] by simp
qed

lemma fqi_add: "fqi a b + fqi c d = fqi (a + c) (b + d)" "fqi a b - fqi c d = fqi (a - c) (b - d)"
  by (simp_all add: fqi_def fq_eq_iff)

lemma generator_x_sqr: "fqi 34832242333165934151976439273177494442 40039530084877881816286215037915002870 * fqi 34832242333165934151976439273177494442 40039530084877881816286215037915002870 = fqi 45278317681843253383387607518905594141 72801499026080255372748377154504748819"
  by (rule fqi_mult [where k = "-2291502007519706906318931198988458851" and l = "16394227270043558421372533326537726043"]) (simp_all only: Num.arith_simps)

lemma generator_y_sqr: "fqi 18941146186793715734774048165794132615 146361984425930646555497992424795179868 * fqi 18941146186793715734774048165794132615 146361984425930646555497992424795179868 = fqi 91425659736278335463353069471676139934 1440788918054798083309312099334772043"
  by (rule fqi_mult [where k = "-123797560577805006835454602886549762179" and l = "32587803691219626829059106241560799811"]) (simp_all only: Num.arith_simps)

lemma generator_xy_sqr: "fqi 45278317681843253383387607518905594141 72801499026080255372748377154504748819 * fqi 91425659736278335463353069471676139934 1440788918054798083309312099334772043 = fqi 57239136216175057982903817971267034948 153082239825716669197087177522461236508"
  by (rule fqi_mult [where k = "23713885084937067216029760690323743727" and l = "39503437321247842720933293600741384163"]) (simp_all only: Num.arith_simps)

lemma generator_d_xy: "fqi 4205857648805777768770 125317048443780598345676279555970305165 * fqi 57239136216175057982903817971267034948 153082239825716669197087177522461236508 = fqi 46147342054435082079965461952770545792 98780473352443774442248238660714128951"
  by (rule fqi_mult [where k = "-112752327648990177321705252870919365276" and l = "42159337675872919317636952351023014027"]) (simp_all only: Num.arith_simps)

lemma generator_fqi:
  "aff_point eccset = (fqi 34832242333165934151976439273177494442 40039530084877881816286215037915002870,
    fqi 18941146186793715734774048165794132615 146361984425930646555497992424795179868)"
  "aff_valid eccset"
  "curve_d = fqi 4205857648805777768770 125317048443780598345676279555970305165"
proof -
  have v: "f2elm GENERATOR_x" "f2elm GENERATOR_y"
    by (simp_all add: GENERATOR_x_def GENERATOR_y_def f2elm_def felm_def)
  show "aff_valid eccset" using v by (simp add: aff_valid_def eccset_def fp2)
  show "aff_point eccset = (fqi 34832242333165934151976439273177494442 40039530084877881816286215037915002870,
    fqi 18941146186793715734774048165794132615 146361984425930646555497992424795179868)"
    using v by (simp add: aff_point_def eccset_def fp2 fq_abs_def fp_abs_def fqi_def GENERATOR_x_def GENERATOR_y_def)
  show "curve_d = fqi 4205857648805777768770 125317048443780598345676279555970305165"
    by (simp add: curve_d_def PARAMETER_d_def fq_abs_def fp_abs_def fqi_def)
qed

lemma generator_on_curve: "on_curve (aff_point eccset)"
proof -
  have d: "c * x\<^sup>2 * y\<^sup>2 = c * (x * x * (y * y))" for c x y :: fq
    by (simp only: power2_eq_square mult.assoc)
  have one: "1 = fqi 1 0" by (simp add: fqi_def fq_eq_iff)
  show ?thesis
    unfolding generator_fqi on_curve_def prod.case d
    unfolding power2_eq_square generator_x_sqr generator_y_sqr generator_xy_sqr generator_d_xy one fqi_add
    by (rule fqi_eq [where k = 0 and l = "-1"]) (simp_all only: Num.arith_simps)
qed

end
