(* ===== verification/FourQ_Group.thy ===== *)
theory FourQ_Group
  imports FourQ_Curve
begin

text \<open>
  The points of the curve form an abelian group under the complete addition law: associativity by
  two polynomial identities, the type \<open>ecp\<close> of points as an instance of \<open>ab_group_add\<close>, integer
  multiples, and the specifications of the point operations restated in the group. \<open>xy\<close> gives the
  affine coordinates of a point of the group.
\<close>

section \<open>Associativity\<close>

lemma assoc_x_identity:
  fixes d x1 y1 x2 y2 x3 y3 :: "'a :: idom"
  assumes "y1 * y1 - x1 * x1 = 1 + d * (x1 * x1) * (y1 * y1)"
    "y2 * y2 - x2 * x2 = 1 + d * (x2 * x2) * (y2 * y2)"
    "y3 * y3 - x3 * x3 = 1 + d * (x3 * x3) * (y3 * y3)"
  shows "((x1 * y2 + y1 * x2) * (1 - d * x1 * x2 * y1 * y2) * y3 + (y1 * y2 + x1 * x2) * (1 + d * x1 * x2 * y1 * y2) * x3) *
      ((1 + d * x2 * x3 * y2 * y3) * (1 - d * x2 * x3 * y2 * y3) + d * x1 * (x2 * y3 + y2 * x3) * y1 * (y2 * y3 + x2 * x3)) =
    (x1 * ((y2 * y3 + x2 * x3) * (1 + d * x2 * x3 * y2 * y3)) + y1 * ((x2 * y3 + y2 * x3) * (1 - d * x2 * x3 * y2 * y3))) *
      ((1 + d * x1 * x2 * y1 * y2) * (1 - d * x1 * x2 * y1 * y2) + d * (x1 * y2 + y1 * x2) * x3 * (y1 * y2 + x1 * x2) * y3)"
  using assms by algebra

lemma assoc_y_identity:
  fixes d x1 y1 x2 y2 x3 y3 :: "'a :: idom"
  assumes "y1 * y1 - x1 * x1 = 1 + d * (x1 * x1) * (y1 * y1)"
    "y2 * y2 - x2 * x2 = 1 + d * (x2 * x2) * (y2 * y2)"
    "y3 * y3 - x3 * x3 = 1 + d * (x3 * x3) * (y3 * y3)"
  shows "((y1 * y2 + x1 * x2) * (1 + d * x1 * x2 * y1 * y2) * y3 + (x1 * y2 + y1 * x2) * (1 - d * x1 * x2 * y1 * y2) * x3) *
      ((1 + d * x2 * x3 * y2 * y3) * (1 - d * x2 * x3 * y2 * y3) - d * x1 * (x2 * y3 + y2 * x3) * y1 * (y2 * y3 + x2 * x3)) =
    (y1 * ((y2 * y3 + x2 * x3) * (1 + d * x2 * x3 * y2 * y3)) + x1 * ((x2 * y3 + y2 * x3) * (1 - d * x2 * x3 * y2 * y3))) *
      ((1 + d * x1 * x2 * y1 * y2) * (1 - d * x1 * x2 * y1 * y2) - d * (x1 * y2 + y1 * x2) * x3 * (y1 * y2 + x1 * x2) * y3)"
  using assms by algebra

text \<open>A sum whose first summand is a pair of fractions.\<close>

lemma edw_add_fractions:
  assumes "u \<noteq> 0" "v \<noteq> 0"
  shows "edw_add (n / u, m / v) (x, y) =
    ((n * v * y + m * u * x) / (u * v + curve_d * n * x * m * y),
     (m * u * y + n * v * x) / (u * v - curve_d * n * x * m * y))"
    and "1 + edw_delta (n / u, m / v) (x, y) = (u * v + curve_d * n * x * m * y) / (u * v)"
    and "1 - edw_delta (n / u, m / v) (x, y) = (u * v - curve_d * n * x * m * y) / (u * v)"
proof -
  have d: "edw_delta (n / u, m / v) (x, y) = (curve_d * n * x * m * y) / (u * v)"
    by (simp add: edw_delta_def)
  show 1: "1 + edw_delta (n / u, m / v) (x, y) = (u * v + curve_d * n * x * m * y) / (u * v)"
    and 2: "1 - edw_delta (n / u, m / v) (x, y) = (u * v - curve_d * n * x * m * y) / (u * v)"
    unfolding d using assms by (simp_all add: add_divide_distrib diff_divide_distrib)
  have n: "n / u * y + m / v * x = (n * v * y + m * u * x) / (u * v)"
    "m / v * y + n / u * x = (m * u * y + n * v * x) / (u * v)"
    using assms by (simp_all add: add_divide_distrib)
  show "edw_add (n / u, m / v) (x, y) =
    ((n * v * y + m * u * x) / (u * v + curve_d * n * x * m * y),
     (m * u * y + n * v * x) / (u * v - curve_d * n * x * m * y))"
    unfolding edw_add_def 1 2 fst_conv snd_conv n using assms by simp
qed

lemma edw_assoc:
  assumes "on_curve P" "on_curve Q" "on_curve R"
  shows "edw_add (edw_add P Q) R = edw_add P (edw_add Q R)"
proof -
  obtain x1 y1 x2 y2 x3 y3 where P: "P = (x1, y1)" and Q: "Q = (x2, y2)" and R: "R = (x3, y3)"
    by (metis surj_pair)
  let ?d = "curve_d"
  have c: "y1 * y1 - x1 * x1 = 1 + ?d * (x1 * x1) * (y1 * y1)"
    "y2 * y2 - x2 * x2 = 1 + ?d * (x2 * x2) * (y2 * y2)"
    "y3 * y3 - x3 * x3 = 1 + ?d * (x3 * x3) * (y3 * y3)"
    using assms by (simp_all add: P Q R on_curve_def power2_eq_square)
  let ?u = "1 + ?d * x1 * x2 * y1 * y2" and ?v = "1 - ?d * x1 * x2 * y1 * y2"
    and ?n = "x1 * y2 + y1 * x2" and ?m = "y1 * y2 + x1 * x2"
    and ?u' = "1 + ?d * x2 * x3 * y2 * y3" and ?v' = "1 - ?d * x2 * x3 * y2 * y3"
    and ?n' = "x2 * y3 + y2 * x3" and ?m' = "y2 * y3 + x2 * x3"
  have PQ: "edw_add P Q = (?n / ?u, ?m / ?v)" and QR: "edw_add Q R = (?n' / ?u', ?m' / ?v')"
    by (simp_all add: edw_add_def edw_delta_def P Q R)
  have nz: "?u \<noteq> 0" "?v \<noteq> 0" "?u' \<noteq> 0" "?v' \<noteq> 0"
    using edw_complete [OF assms(1,2)] edw_complete [OF assms(2,3)]
    by (simp_all add: edw_delta_def P Q R)
  let ?D = "\<lambda>s. ?u * ?v + s * (?d * ?n * x3 * ?m * y3)"
    and ?D' = "\<lambda>s. ?u' * ?v' + s * (?d * x1 * ?n' * y1 * ?m')"
  have nD: "?D 1 \<noteq> 0" "?D (- 1) \<noteq> 0"
    using edw_complete [OF edw_add_on_curve [OF assms(1,2)] assms(3)] nz
    unfolding PQ R edw_add_fractions(2,3) [OF nz(1,2)] by simp_all
  have nD': "?D' 1 \<noteq> 0" "?D' (- 1) \<noteq> 0"
    using edw_complete [OF edw_add_on_curve [OF assms(2,3)] assms(1)] nz
    unfolding QR P edw_add_fractions(2,3) [OF nz(3,4)] by (simp_all add: ac_simps)
  have "edw_add (edw_add P Q) R =
      ((?n * ?v * y3 + ?m * ?u * x3) / ?D 1, (?m * ?u * y3 + ?n * ?v * x3) / ?D (- 1))"
    unfolding PQ R edw_add_fractions(1) [OF nz(1,2)] by simp
  moreover have "edw_add P (edw_add Q R) =
      ((x1 * (?m' * ?u') + y1 * (?n' * ?v')) / ?D' 1, (y1 * (?m' * ?u') + x1 * (?n' * ?v')) / ?D' (- 1))"
    unfolding edw_add_commute [of P "edw_add Q R"]
    unfolding QR P edw_add_fractions(1) [OF nz(3,4)] by (simp add: ac_simps)
  moreover have "(?n * ?v * y3 + ?m * ?u * x3) / ?D 1 = (x1 * (?m' * ?u') + y1 * (?n' * ?v')) / ?D' 1"
    using assoc_x_identity [OF c] by (simp only: frac_eq_eq [OF nD(1) nD'(1), unfolded mult_1_left] mult_1_left)
  moreover have "(?m * ?u * y3 + ?n * ?v * x3) / ?D (- 1) = (y1 * (?m' * ?u') + x1 * (?n' * ?v')) / ?D' (- 1)"
    using assoc_y_identity [OF c]
    by (simp only: frac_eq_eq [OF nD(2) nD'(2), unfolded mult_minus1 add_uminus_conv_diff]
        mult_minus1 add_uminus_conv_diff)
  ultimately show ?thesis by (simp only:)
qed

section \<open>The group\<close>

typedef ecp = "{P. on_curve P}" morphisms xy Ecp
  using edw_zero_on_curve by blast

lemma xy_on_curve [simp]: "on_curve (xy g)"
  using xy [of g] by simp

lemma xy_Ecp [simp]: "on_curve P \<Longrightarrow> xy (Ecp P) = P"
  by (simp add: Ecp_inverse)

instantiation ecp :: ab_group_add
begin

definition zero_ecp :: ecp where "0 = Ecp edw_zero"
definition plus_ecp :: "ecp \<Rightarrow> ecp \<Rightarrow> ecp" where "g + h = Ecp (edw_add (xy g) (xy h))"
definition uminus_ecp :: "ecp \<Rightarrow> ecp" where "- g = Ecp (edw_neg (xy g))"
definition minus_ecp :: "ecp \<Rightarrow> ecp \<Rightarrow> ecp" where "g - h = g + - (h :: ecp)"

instance
proof
  fix a b c :: ecp
  show "a + b + c = a + (b + c)" by (simp add: plus_ecp_def edw_add_on_curve edw_assoc)
  show "a + b = b + a" by (simp add: plus_ecp_def edw_add_commute)
  show "0 + a = a" by (simp add: plus_ecp_def zero_ecp_def edw_zero_on_curve edw_add_commute [of edw_zero] edw_add_zero xy_inverse)
  show "- a + a = 0"
    by (simp add: plus_ecp_def zero_ecp_def uminus_ecp_def edw_neg_on_curve edw_add_commute [of "edw_neg _"] edw_add_neg)
  show "a - b = a + - b" by (rule minus_ecp_def)
qed

end

lemma xy_group: "edw_add (xy g) (xy h) = xy (g + h)" "edw_neg (xy g) = xy (- g)" "edw_zero = xy 0"
  by (simp_all add: plus_ecp_def uminus_ecp_def zero_ecp_def edw_add_on_curve edw_neg_on_curve edw_zero_on_curve)

text \<open>The point an affine structure on the curve stands for.\<close>

definition aff_ecp :: "point_affine \<Rightarrow> ecp" where
  "aff_ecp P = Ecp (aff_point P)"

lemma aff_ecp_xy: "on_curve (aff_point P) \<Longrightarrow> aff_point P = xy g \<longleftrightarrow> aff_ecp P = g"
  by (auto simp: aff_ecp_def xy_inverse)

lemma xy_aff_ecp: "on_curve (aff_point P) \<Longrightarrow> xy (aff_ecp P) = aff_point P"
  by (simp add: aff_ecp_def)

section \<open>Integer multiples\<close>

primrec nmul :: "nat \<Rightarrow> 'a :: ab_group_add \<Rightarrow> 'a" where
  "nmul 0 g = 0"
| "nmul (Suc n) g = g + nmul n g"

definition zmul :: "int \<Rightarrow> 'a :: ab_group_add \<Rightarrow> 'a" where
  "zmul k g = (if 0 \<le> k then nmul (nat k) g else - nmul (nat (- k)) g)"

lemma nmul_add: "nmul (m + n) g = nmul m g + nmul n g"
  by (induction m) (simp_all add: add.assoc)

lemma nmul_plus: "nmul n (g + h) = nmul n g + nmul n h"
  by (induction n) (simp_all add: ac_simps)

lemma nmul_uminus: "nmul n (- g) = - nmul n g"
  by (induction n) simp_all

lemma nmul_zero [simp]: "nmul n 0 = 0"
  by (induction n) simp_all

lemma nmul_mult: "nmul (m * n) g = nmul m (nmul n g)"
  by (induction m) (simp_all add: nmul_add)

lemma nmul_diff: "n \<le> m \<Longrightarrow> nmul (m - n) g = nmul m g - nmul n g"
  using nmul_add [of "m - n" n g] by (simp add: algebra_simps)

lemma zmul_nat [simp]: "zmul (int n) g = nmul n g"
  by (simp add: zmul_def)

lemma zmul_diff_nat: "zmul (int m - int n) g = nmul m g - nmul n g"
proof (cases "n \<le> m")
  case False
  then have "nat (- (int m - int n)) = n - m" by simp
  then show ?thesis using False by (simp add: zmul_def nmul_diff)
qed (simp add: zmul_def nmul_diff flip: of_nat_diff)

lemma zmul_simps [simp]: "zmul 0 g = 0" "zmul 1 g = g" "zmul k 0 = 0" "zmul (- 1) g = - g"
  by (simp_all add: zmul_def)

lemma zmul_add: "zmul (a + b) g = zmul a g + zmul b g"
proof -
  obtain m n where a: "a = int m - int n" by (metis int_diff_cases)
  obtain p q where b: "b = int p - int q" by (metis int_diff_cases)
  have "a + b = int (m + p) - int (n + q)" by (simp add: a b)
  then show ?thesis by (simp only: a b zmul_diff_nat nmul_add) (simp add: algebra_simps)
qed

lemma zmul_uminus: "zmul (- a) g = - zmul a g"
  using zmul_add [of a "- a" g] by (simp add: eq_neg_iff_add_eq_0 add.commute)

lemma zmul_diff: "zmul (a - b) g = zmul a g - zmul b g"
  using zmul_add [of a "- b" g] by (simp add: zmul_uminus)

lemma zmul_plus: "zmul a (g + h) = zmul a g + zmul a h"
  by (simp add: zmul_def nmul_plus algebra_simps)

lemma zmul_mult: "zmul (a * b) g = zmul a (zmul b g)"
proof -
  have n: "zmul (int n * b) g = nmul n (zmul b g)" for n
    by (induction n) (simp_all add: distrib_right zmul_add)
  obtain m n where a: "a = int m - int n" by (metis int_diff_cases)
  show ?thesis unfolding a left_diff_distrib zmul_diff n zmul_nat ..
qed

lemma zmul_two: "zmul 2 g = g + g"
  using zmul_add [of 1 1 g] by simp

section \<open>The point operations in the group\<close>

lemma eccdouble_ecp: "r4_rep P (xy g) \<Longrightarrow> r1_rep (eccdouble P) (xy (g + g))"
  using eccdouble_spec [of P "xy g"] by (simp add: xy_group)

lemma eccadd_ecp: "r2_rep Q (xy h) \<Longrightarrow> r1_rep P (xy g) \<Longrightarrow> r1_rep (eccadd Q P) (xy (g + h))"
  using eccadd_spec [of Q "xy h" P "xy g"] by (simp add: xy_group)

lemma eccadd_core_ecp:
  "r2_rep P (xy g) \<Longrightarrow> r3_rep Q (xy h) \<Longrightarrow> r1_rep (eccadd_core P Q) (xy (g + h))"
  "r2_rep P (xy g) \<Longrightarrow> r3_rep Q (xy h) \<Longrightarrow> r1_rep (eccadd_core Q P) (xy (g + h))"
  using eccadd_core_spec [of P "xy g" Q "xy h"] by (simp_all add: xy_group)

lemma eccmadd_ecp: "r5_rep Q (xy h) \<Longrightarrow> r1_rep P (xy g) \<Longrightarrow> r1_rep (eccmadd Q P) (xy (g + h))"
  using eccmadd_spec [of Q "xy h" P "xy g"] by (simp add: xy_group)

lemma eccneg_ecp:
  "r2_rep P (xy g) \<Longrightarrow> r2_rep (eccneg_extproj_precomp P) (xy (- g))"
  "r5_rep Q (xy g) \<Longrightarrow> r5_rep (eccneg_precomp Q) (xy (- g))"
  using eccneg_extproj_precomp_spec [of P "xy g"] eccneg_precomp_spec [of Q "xy g"] by (simp_all add: xy_group)

lemma point_setup_ecp:
  assumes "aff_valid P" "on_curve (aff_point P)"
  shows "r1_rep (point_setup P) (xy (aff_ecp P))"
  using point_setup_spec [OF assms] assms(2) by (simp add: xy_aff_ecp)

text \<open>The affine points that \<open>eccnorm\<close> returns: on the curve, with reduced coordinates.\<close>

definition aff_normal :: "point_affine \<Rightarrow> bool" where
  "aff_normal P = (aff_valid P \<and> on_curve (aff_point P) \<and> fp2mod (pa_x P) = pa_x P \<and> fp2mod (pa_y P) = pa_y P)"

lemma eccnorm_ecp:
  assumes "r4_rep P (xy g)"
  shows "aff_valid (eccnorm P)" "on_curve (aff_point (eccnorm P))" "aff_ecp (eccnorm P) = g" "aff_normal (eccnorm P)"
  using eccnorm_spec [OF assms] by (simp_all add: aff_ecp_def xy_inverse aff_normal_def)

lemma aff_normal_eq:
  assumes "aff_normal P" "aff_normal Q" "aff_ecp P = aff_ecp Q"
  shows "P = Q"
proof -
  have "aff_point P = aff_point Q" using assms by (metis aff_normal_def xy_aff_ecp)
  then have e: "fq_abs (pa_x P) = fq_abs (pa_x Q)" "fq_abs (pa_y P) = fq_abs (pa_y Q)" by (simp_all add: aff_point_def)
  have v: "f2elm (pa_x P)" "f2elm (pa_x Q)" "f2elm (pa_y P)" "f2elm (pa_y Q)"
    and n: "fp2mod (pa_x P) = pa_x P" "fp2mod (pa_x Q) = pa_x Q" "fp2mod (pa_y P) = pa_y P" "fp2mod (pa_y Q) = pa_y Q"
    using assms(1,2) by (simp_all add: aff_normal_def aff_valid_def)
  have "fp2mod (pa_x P) = fp2mod (pa_x Q)" "fp2mod (pa_y P) = fp2mod (pa_y Q)" by (simp_all only: fp2mod_eq_iff v e)
  then show ?thesis unfolding n by simp
qed

lemma odd_multiples_ecp: "odd_multiples n (xy h) (xy g) = map (\<lambda>i. xy (g + nmul i h)) [0..<n]"
proof (induction n arbitrary: g)
  case (Suc n)
  have "[0..<Suc n] = 0 # map Suc [0..<n]" by (simp add: upt_conv_Cons map_Suc_upt del: upt_Suc)
  then show ?case using Suc by (simp add: xy_group comp_def ac_simps)
qed simp

end
