(* ===== verification/VRF.thy ===== *)
theory VRF
  imports Hash_Utils FourQ_Group
begin

text \<open>
  The verifiable random function (\<open>oZKS/vrf.h\<close>, \<open>oZKS/vrf.cpp\<close>): proofs, secret and public keys. The code
  is written against the class \<open>ECPoint\<close>, which is \<open>FourQPoint\<close> or \<open>P256Point\<close> depending on the build; the
  model takes the operations of that class as a record. The locale \<open>ec_group\<close> states what the function
  needs of them; \<open>FourQ_Point\<close> proves it of \<open>FourQPoint\<close>.
\<close>

section \<open>The interface ECPoint\<close>

text \<open>
  \<open>'p\<close> is the type of points, \<open>'s\<close> of \<open>scalar_type\<close>. Operations that change the point return it; the
  flag of the multiplications tells whether the point was valid (an invalid point stays as it was).
  The random generator is the sequence of its answers, \<open>None\<close> for a failure; drawing until the scalar
  is not zero may not end.
\<close>

record ('p, 's) ec_ops =
  ec_descriptor :: string
  ec_default :: 'p
  ec_hash_point :: "hash_type \<Rightarrow> byte list \<Rightarrow> 'p"
  ec_MakeRandomNonzeroScalar :: "(nat \<Rightarrow> byte list option) \<Rightarrow> 's result option"
  ec_MakeSeededScalar :: "byte list \<Rightarrow> 's"
  ec_MakeGeneratorMultiple :: "'s \<Rightarrow> 'p"
  ec_MultiplyScalar :: "'s \<Rightarrow> 's \<Rightarrow> 's"
  ec_SubtractScalar :: "'s \<Rightarrow> 's \<Rightarrow> 's"
  ec_ReduceModOrder :: "hash_type \<Rightarrow> hash_type"
  ec_scalar_multiply :: "'p \<Rightarrow> 's \<Rightarrow> bool \<Rightarrow> bool \<times> 'p"
  ec_double_scalar_multiply :: "'p \<Rightarrow> 's \<Rightarrow> 's \<Rightarrow> bool \<times> 'p"
  ec_in_prime_order_subgroup :: "'p \<Rightarrow> bool"
  ec_add :: "'p \<Rightarrow> 'p \<Rightarrow> 'p"
  ec_save :: "'p \<Rightarrow> byte list"
  ec_load :: "byte list \<Rightarrow> 'p result"
  ec_scalar_zero :: 's
  ec_scalar_is_zero :: "'s \<Rightarrow> bool"
  ec_scalar_load :: "byte list \<Rightarrow> 's"
  ec_scalar_save :: "'s \<Rightarrow> byte list"

abbreviation ec_order_size :: nat where "ec_order_size \<equiv> 32"

section \<open>Hashing of points\<close>

definition append_ecpt_to_buffer :: "('p, 's) ec_ops \<Rightarrow> 'p list \<Rightarrow> byte list" where
  "append_ecpt_to_buffer ops pts = concat (map (ec_save ops) pts)"

definition make_challenge :: "('p, 's) ec_ops \<Rightarrow> 'p list \<Rightarrow> byte list" where
  "make_challenge ops points =
     (let hash_buf = str_bytes (ec_descriptor ops) @ [0x02] @ append_ecpt_to_buffer ops points @ [0x00];
          challenge_hash = ec_ReduceModOrder ops (compute_hash_plain hash_buf)
      in take ec_order_size challenge_hash)"

definition make_nonce :: "('p, 's) ec_ops \<Rightarrow> 'p \<Rightarrow> 's \<Rightarrow> 's" where
  "make_nonce ops h2c_data key_scalar =
     (let key_data = ec_scalar_save ops key_scalar;
          key_hash = hash_sz 64 key_data (replicate 64 0);
          nonce_buf = take 32 (drop 32 key_hash) @ append_ecpt_to_buffer ops [h2c_data];
          nonce = ec_ReduceModOrder ops (compute_hash_plain nonce_buf)
      in ec_scalar_load ops nonce)"

section \<open>Proofs and keys\<close>

record vrf_proof =
  vp_gamma :: "byte list"
  vp_c :: "byte list"
  vp_s :: "byte list"

definition vrf_proof_is_valid :: "('p, 's) ec_ops \<Rightarrow> vrf_proof \<Rightarrow> bool" where
  "vrf_proof_is_valid ops pf =
     (case ec_load ops (vp_gamma pf) of
        Inl _ \<Rightarrow> False
      | Inr gamma_pt \<Rightarrow> ec_in_prime_order_subgroup ops gamma_pt)"

definition compute_vrf_value :: "('p, 's) ec_ops \<Rightarrow> vrf_proof \<Rightarrow> hash_type" where
  "compute_vrf_value ops pf =
     compute_hash_plain (str_bytes (ec_descriptor ops) @ [0x03] @ vp_gamma pf @ [0x00])"

record 'p vrf_public_key =
  pk_key_point :: 'p

record ('p, 's) vrf_secret_key =
  sk_key_scalar :: 's
  sk_pk :: "'p vrf_public_key"
  sk_h2c_salt :: "byte list"

definition sk_is_initialized :: "('p, 's) ec_ops \<Rightarrow> ('p, 's) vrf_secret_key \<Rightarrow> bool" where
  "sk_is_initialized ops sk = (\<not> ec_scalar_is_zero ops (sk_key_scalar sk))"

definition throw_if_uninitialized :: "('p, 's) ec_ops \<Rightarrow> ('p, 's) vrf_secret_key \<Rightarrow> unit result" where
  "throw_if_uninitialized ops sk =
     (if \<not> sk_is_initialized ops sk then Inl (LogicError ''Secret key is uninitialized'') else Inr ())"

definition pk_save :: "('p, 's) ec_ops \<Rightarrow> 'p vrf_public_key \<Rightarrow> byte list" where
  "pk_save ops pk = ec_save ops (pk_key_point pk)"

definition pk_load :: "('p, 's) ec_ops \<Rightarrow> byte list \<Rightarrow> 'p vrf_public_key result" where
  "pk_load ops bs =
     (case ec_load ops bs of
        Inl _ \<Rightarrow> Inl (RuntimeError ''Failed to load a valid VRF public key'')
      | Inr new_key_point \<Rightarrow>
          if \<not> ec_in_prime_order_subgroup ops new_key_point
          then Inl (RuntimeError ''Loaded VRF public key is not in the prime-order subgroup'')
          else Inr \<lparr>pk_key_point = new_key_point\<rparr>)"

definition sk_default :: "('p, 's) ec_ops \<Rightarrow> ('p, 's) vrf_secret_key" where
  "sk_default ops =
     \<lparr>sk_key_scalar = ec_scalar_zero ops, sk_pk = \<lparr>pk_key_point = ec_default ops\<rparr>,
      sk_h2c_salt = replicate (length (ec_save ops (ec_default ops))) 0\<rparr>"

definition compute_public_key :: "('p, 's) ec_ops \<Rightarrow> ('p, 's) vrf_secret_key \<Rightarrow> ('p, 's) vrf_secret_key" where
  "compute_public_key ops sk =
     (let pk = \<lparr>pk_key_point = ec_MakeGeneratorMultiple ops (sk_key_scalar sk)\<rparr>
      in sk\<lparr>sk_pk := pk, sk_h2c_salt := pk_save ops pk\<rparr>)"

text \<open>The two overloads of \<open>initialize\<close>.\<close>

definition sk_initialize ::
  "('p, 's) ec_ops \<Rightarrow> (nat \<Rightarrow> byte list option) \<Rightarrow> ('p, 's) vrf_secret_key \<Rightarrow>
    ('p, 's) vrf_secret_key result option" where
  "sk_initialize ops rnd sk =
     (case ec_MakeRandomNonzeroScalar ops rnd of
        None \<Rightarrow> None
      | Some (Inl e) \<Rightarrow> Some (Inl e)
      | Some (Inr k) \<Rightarrow> Some (Inr (compute_public_key ops (sk\<lparr>sk_key_scalar := k\<rparr>))))"

definition sk_initialize_seed ::
  "('p, 's) ec_ops \<Rightarrow> byte list \<Rightarrow> ('p, 's) vrf_secret_key \<Rightarrow> ('p, 's) vrf_secret_key" where
  "sk_initialize_seed ops seed sk =
     compute_public_key ops (sk\<lparr>sk_key_scalar := ec_MakeSeededScalar ops seed\<rparr>)"

definition sk_save :: "('p, 's) ec_ops \<Rightarrow> ('p, 's) vrf_secret_key \<Rightarrow> byte list" where
  "sk_save ops sk = ec_scalar_save ops (sk_key_scalar sk)"

definition sk_load :: "('p, 's) ec_ops \<Rightarrow> byte list \<Rightarrow> ('p, 's) vrf_secret_key" where
  "sk_load ops bs =
     (let new_key = (sk_default ops)\<lparr>sk_key_scalar := ec_scalar_load ops bs\<rparr>
      in if sk_is_initialized ops new_key then compute_public_key ops new_key else new_key)"

definition get_vrf_public_key :: "('p, 's) ec_ops \<Rightarrow> ('p, 's) vrf_secret_key \<Rightarrow> 'p vrf_public_key result" where
  "get_vrf_public_key ops sk =
     (case throw_if_uninitialized ops sk of Inl e \<Rightarrow> Inl e | Inr _ \<Rightarrow> Inr (sk_pk sk))"

section \<open>Evaluation and verification\<close>

definition get_vrf_proof :: "('p, 's) ec_ops \<Rightarrow> ('p, 's) vrf_secret_key \<Rightarrow> hash_type \<Rightarrow> vrf_proof result" where
  "get_vrf_proof ops sk data =
     (case throw_if_uninitialized ops sk of
        Inl e \<Rightarrow> Inl e
      | Inr _ \<Rightarrow>
          let h2c_data = ec_hash_point ops data (sk_h2c_salt sk);
              sk_times_h2c_data = snd (ec_scalar_multiply ops h2c_data (sk_key_scalar sk) False);
              nonce = make_nonce ops h2c_data (sk_key_scalar sk);
              nonce_times_generator = ec_MakeGeneratorMultiple ops nonce;
              nonce_times_h2c_data = snd (ec_scalar_multiply ops h2c_data nonce False);
              c = make_challenge ops [pk_key_point (sk_pk sk), h2c_data, sk_times_h2c_data,
                    nonce_times_generator, nonce_times_h2c_data];
              temp = ec_MultiplyScalar ops (ec_scalar_load ops c) (sk_key_scalar sk);
              temp = ec_SubtractScalar ops nonce temp
          in Inr \<lparr>vp_gamma = ec_save ops sk_times_h2c_data, vp_c = c, vp_s = ec_scalar_save ops temp\<rparr>)"

definition get_vrf_proof_key :: "('p, 's) ec_ops \<Rightarrow> ('p, 's) vrf_secret_key \<Rightarrow> byte list \<Rightarrow> vrf_proof result" where
  "get_vrf_proof_key ops sk key = get_vrf_proof ops sk (compute_key_hash key)"

definition get_vrf_value :: "('p, 's) ec_ops \<Rightarrow> ('p, 's) vrf_secret_key \<Rightarrow> hash_type \<Rightarrow> hash_type result" where
  "get_vrf_value ops sk data =
     (case throw_if_uninitialized ops sk of
        Inl e \<Rightarrow> Inl e
      | Inr _ \<Rightarrow>
          let sk_times_h2c_data = ec_hash_point ops data (sk_h2c_salt sk);
              sk_times_h2c_data = snd (ec_scalar_multiply ops sk_times_h2c_data (sk_key_scalar sk) False)
          in Inr (compute_vrf_value ops
               \<lparr>vp_gamma = ec_save ops sk_times_h2c_data, vp_c = replicate ec_order_size 0,
                vp_s = replicate ec_order_size 0\<rparr>))"

definition get_vrf_value_key :: "('p, 's) ec_ops \<Rightarrow> ('p, 's) vrf_secret_key \<Rightarrow> byte list \<Rightarrow> hash_type result" where
  "get_vrf_value_key ops sk key = get_vrf_value ops sk (compute_key_hash key)"

text \<open>\<open>gamma_pt.load\<close> cannot fail after the validity check; its exception branch is not reached.\<close>

definition verify_vrf_proof :: "('p, 's) ec_ops \<Rightarrow> 'p vrf_public_key \<Rightarrow> hash_type \<Rightarrow> vrf_proof \<Rightarrow> bool result" where
  "verify_vrf_proof ops pk data pf =
     (if \<not> vrf_proof_is_valid ops pf then Inr False
      else
        let scalar_c = ec_scalar_load ops (vp_c pf);
            scalar_s = ec_scalar_load ops (vp_s pf);
            u = snd (ec_double_scalar_multiply ops (pk_key_point pk) scalar_c scalar_s);
            h2c_salt = pk_save ops pk;
            h2c_data = ec_hash_point ops data h2c_salt
        in (case ec_load ops (vp_gamma pf) of
              Inl e \<Rightarrow> Inl e
            | Inr gamma_pt \<Rightarrow>
                let v = snd (ec_scalar_multiply ops gamma_pt scalar_c False);
                    temp = snd (ec_scalar_multiply ops h2c_data scalar_s False);
                    v = ec_add ops v temp;
                    c_comp = make_challenge ops [pk_key_point pk, h2c_data, gamma_pt, u, v]
                in Inr (c_comp = vp_c pf)))"

definition verify_vrf_proof_key ::
  "('p, 's) ec_ops \<Rightarrow> 'p vrf_public_key \<Rightarrow> byte list \<Rightarrow> vrf_proof \<Rightarrow> bool result" where
  "verify_vrf_proof_key ops pk key pf = verify_vrf_proof ops pk (compute_key_hash key) pf"

section \<open>What holds for every curve\<close>

text \<open>Verification never throws, and the value of a proof is the value computed directly.\<close>

lemma verify_total: "\<exists>b. verify_vrf_proof ops pk data pf = Inr b"
  by (auto simp: verify_vrf_proof_def vrf_proof_is_valid_def Let_def split: sum.splits)

lemma vrf_value_of_proof:
  "(case get_vrf_proof ops sk data of Inl e \<Rightarrow> Inl e | Inr pf \<Rightarrow> Inr (compute_vrf_value ops pf)) = get_vrf_value ops sk data"
  by (simp add: get_vrf_proof_def get_vrf_value_def compute_vrf_value_def Let_def split: sum.split)

section \<open>The contract of the point operations\<close>

text \<open>
  \<open>pt P\<close> is the group element of a point, \<open>valid\<close> the points of the subgroup of order \<open>n\<close>, \<open>normal\<close>
  the representations that the operations return, \<open>sval k\<close> the number of a scalar and \<open>svalid\<close> the
  well-formed scalars. \<open>gen_ok\<close> says that multiples of the generator \<open>g\<close> can be taken.
\<close>

locale ec_group =
  fixes ops :: "('p, 's) ec_ops"
    and pt :: "'p \<Rightarrow> 'g :: ab_group_add"
    and valid :: "'p \<Rightarrow> bool"
    and normal :: "'p \<Rightarrow> bool"
    and svalid :: "'s \<Rightarrow> bool"
    and sval :: "'s \<Rightarrow> nat"
    and n :: nat
    and g :: 'g
    and gen_ok :: bool
  assumes order: "0 < n" "valid P \<Longrightarrow> nmul n (pt P) = 0" "gen_ok \<Longrightarrow> nmul n g = 0"
    and mult: "valid P \<Longrightarrow> svalid k \<Longrightarrow> valid (snd (ec_scalar_multiply ops P k False)) \<and>
      normal (snd (ec_scalar_multiply ops P k False)) \<and> pt (snd (ec_scalar_multiply ops P k False)) = nmul (sval k) (pt P)"
    and gen_mult: "gen_ok \<Longrightarrow> svalid k \<Longrightarrow> valid (ec_MakeGeneratorMultiple ops k) \<and>
      normal (ec_MakeGeneratorMultiple ops k) \<and> pt (ec_MakeGeneratorMultiple ops k) = nmul (sval k) g"
    and double_mult: "gen_ok \<Longrightarrow> valid P \<Longrightarrow> svalid k \<Longrightarrow> svalid l \<Longrightarrow>
      normal (snd (ec_double_scalar_multiply ops P k l)) \<and>
      pt (snd (ec_double_scalar_multiply ops P k l)) = nmul (sval k) (pt P) + nmul (sval l) g"
    and add: "valid P \<Longrightarrow> valid Q \<Longrightarrow> normal (ec_add ops P Q) \<and> pt (ec_add ops P Q) = pt P + pt Q"
    and subgroup: "valid Q \<Longrightarrow> valid P \<Longrightarrow> normal P \<Longrightarrow> pt Q = pt P \<Longrightarrow> ec_save ops Q = ec_save ops P \<Longrightarrow>
      ec_in_prime_order_subgroup ops Q"
    and save: "normal P \<Longrightarrow> normal Q \<Longrightarrow> pt P = pt Q \<Longrightarrow> ec_save ops P = ec_save ops Q"
    and load: "valid P \<Longrightarrow> normal P \<Longrightarrow> \<exists>Q. ec_load ops (ec_save ops P) = Inr Q \<and> valid Q \<and> pt Q = pt P"
    and scalar_load: "length bs = ec_order_size \<Longrightarrow> svalid (ec_scalar_load ops bs)"
    and scalar_save: "svalid k \<Longrightarrow> length (ec_scalar_save ops k) = ec_order_size \<and>
      sval (ec_scalar_load ops (ec_scalar_save ops k)) = sval k"
    and scalar_mult: "svalid k \<Longrightarrow> svalid l \<Longrightarrow> svalid (ec_MultiplyScalar ops k l) \<and>
      sval (ec_MultiplyScalar ops k l) = (sval k * sval l) mod n"
    and scalar_sub: "svalid k \<Longrightarrow> svalid l \<Longrightarrow> sval k < n \<Longrightarrow> sval l < n \<Longrightarrow> svalid (ec_SubtractScalar ops k l) \<and>
      (sval (ec_SubtractScalar ops k l) + sval l) mod n = sval k"
    and reduce: "length h = hash_size \<Longrightarrow> length (ec_ReduceModOrder ops h) = hash_size \<and>
      sval (ec_scalar_load ops (ec_ReduceModOrder ops h)) < n"

text \<open>An encoding that loading and saving gives back.\<close>

definition reencodes :: "('p, 's) ec_ops \<Rightarrow> byte list \<Rightarrow> bool" where
  "reencodes ops bs = (\<forall>Q. ec_load ops bs = Inr Q \<longrightarrow> ec_save ops Q = bs)"

lemma length_compute_hash_plain: "length (compute_hash_plain bs) = hash_size"
  by (simp add: compute_hash_plain_def hash_sz_eq length_rfc_blake2b)

context ec_group
begin

lemma nmul_cong: "(a :: nat) mod n = b mod n \<Longrightarrow> nmul n x = 0 \<Longrightarrow> nmul a x = nmul b (x :: 'x :: ab_group_add)"
proof -
  assume c: "a mod n = b mod n" and z: "nmul n x = 0"
  have "nmul m x = nmul (m mod n) x" for m
  proof -
    have "nmul m x = nmul (m div n * n + m mod n) x" by simp
    also have "\<dots> = nmul (m mod n) x" unfolding nmul_add nmul_mult z by simp
    finally show ?thesis .
  qed
  then show ?thesis using c by metis
qed

lemma challenge_length: "length (make_challenge ops pts) = ec_order_size"
  using reduce by (simp add: make_challenge_def Let_def length_compute_hash_plain)

lemma nonce_scalar: "svalid (make_nonce ops h k)" "sval (make_nonce ops h k) < n"
  using reduce scalar_load by (simp_all add: make_nonce_def Let_def length_compute_hash_plain)

text \<open>Every proof that a secret key makes is accepted for its public key.\<close>

lemma vrf_complete:
  assumes gen: "gen_ok" and k: "svalid k" "\<not> ec_scalar_is_zero ops k"
    and sk: "sk = compute_public_key ops (sk0\<lparr>sk_key_scalar := k\<rparr>)"
    and h: "valid (ec_hash_point ops data (sk_h2c_salt sk))"
    and pf: "get_vrf_proof ops sk data = Inr pf" "reencodes ops (vp_gamma pf)"
  shows "verify_vrf_proof ops (sk_pk sk) data pf = Inr True"
proof -
  define H where "H = ec_hash_point ops data (sk_h2c_salt sk)"
  define K where "K = ec_MakeGeneratorMultiple ops k"
  define e where "e = make_nonce ops H k"
  define gam where "gam = snd (ec_scalar_multiply ops H k False)"
  define E where "E = ec_MakeGeneratorMultiple ops e"
  define eH where "eH = snd (ec_scalar_multiply ops H e False)"
  define c where "c = make_challenge ops [K, H, gam, E, eH]"
  define cs where "cs = ec_scalar_load ops c"
  define ck where "ck = ec_MultiplyScalar ops cs k"
  define s where "s = ec_SubtractScalar ops e ck"
  have init: "sk_is_initialized ops sk" "pk_key_point (sk_pk sk) = K" "sk_key_scalar sk = k"
    "sk_h2c_salt sk = pk_save ops (sk_pk sk)"
    using k(2) by (simp_all add: sk compute_public_key_def Let_def sk_is_initialized_def K_def)
  have pf_eq: "pf = \<lparr>vp_gamma = ec_save ops gam, vp_c = c, vp_s = ec_scalar_save ops s\<rparr>"
    using pf(1) init
    by (simp add: get_vrf_proof_def throw_if_uninitialized_def Let_def H_def K_def e_def gam_def E_def eH_def c_def cs_def
        ck_def s_def)
  note Hv = h [folded H_def]
  note ev = nonce_scalar [of H k, folded e_def]
  have cv: "svalid cs" unfolding cs_def c_def by (rule scalar_load [OF challenge_length])
  note ckv = scalar_mult [OF cv k(1), folded ck_def]
  have ck_less: "sval ck < n" using ckv order(1) by simp
  note sv = scalar_sub [OF ev(1) _ ev(2) ck_less, folded s_def]
  have s: "svalid s" "(sval s + sval ck) mod n = sval e" using sv ckv by blast+
  define ss where "ss = ec_scalar_load ops (ec_scalar_save ops s)"
  have ss: "svalid ss" "sval ss = sval s" using scalar_save [OF s(1)] scalar_load by (auto simp: ss_def)
  have sum: "(sval cs * sval k + sval ss) mod n = sval e mod n"
    using s(2) ckv ev(2) by (metis (no_types) add.commute mod_add_right_eq mod_less ss(2))
  have G: "valid gam" "normal gam" "pt gam = nmul (sval k) (pt H)" using mult [OF Hv k(1)] by (simp_all add: gam_def)
  obtain Q where Q: "ec_load ops (ec_save ops gam) = Inr Q" "valid Q" "pt Q = pt gam" using load [OF G(1,2)] by blast
  have Qs: "ec_save ops Q = ec_save ops gam" using pf(2) Q(1) by (simp add: pf_eq reencodes_def)
  have Kv: "valid K" "pt K = nmul (sval k) g" using gen_mult [OF gen k(1)] by (simp_all add: K_def)
  have expand: "nmul (sval e) x = nmul (sval cs) (nmul (sval k) x) + nmul (sval ss) x" if "nmul n x = 0"
    for x using nmul_cong [OF sum that] by (simp add: nmul_add nmul_mult)
  define u where "u = snd (ec_double_scalar_multiply ops K cs ss)"
  have u: "normal u" "pt u = nmul (sval e) g"
    using double_mult [OF gen Kv(1) cv ss(1)] by (simp_all add: u_def Kv(2) expand [OF order(3) [OF gen]])
  have us: "ec_save ops u = ec_save ops E"
    by (rule save [OF u(1)]) (use gen_mult [OF gen ev(1)] u(2) in \<open>simp_all add: E_def\<close>)
  define v where "v = ec_add ops (snd (ec_scalar_multiply ops Q cs False)) (snd (ec_scalar_multiply ops H ss False))"
  note m1 = mult [OF Q(2) cv] and m2 = mult [OF Hv ss(1)]
  have v: "normal v" "pt v = nmul (sval e) (pt H)"
    using add [of "snd (ec_scalar_multiply ops Q cs False)" "snd (ec_scalar_multiply ops H ss False)"] m1 m2
    by (simp_all add: v_def Q(3) G(3) expand [OF order(2) [OF Hv]])
  have vs: "ec_save ops v = ec_save ops eH"
    by (rule save [OF v(1)]) (use mult [OF Hv ev(1)] v(2) in \<open>simp_all add: eH_def\<close>)
  have ch: "make_challenge ops [K, H, Q, u, v] = c"
    by (simp add: make_challenge_def append_ecpt_to_buffer_def c_def Qs us vs)
  have val: "vrf_proof_is_valid ops pf" using Q(1) subgroup [OF Q(2) G(1,2) Q(3) Qs] by (simp add: vrf_proof_is_valid_def pf_eq)
  show ?thesis
    using val ch by (simp add: verify_vrf_proof_def Let_def init(2) init(4) [symmetric] H_def [symmetric] pf_eq Q(1)
        cs_def [symmetric] ss_def [symmetric] u_def [symmetric] v_def [symmetric])
qed

end

end
