(* ===== verification/FourQ_Scalar.thy ===== *)
theory FourQ_Scalar
  imports FourQ_Digits
begin

text \<open>
  Scalars of FourQ (\<open>oZKS/fourq/generic/fp.h\<close>, \<open>oZKS/fourq/crypto_util.c\<close>): arithmetic modulo the
  order of the prime subgroup, with the Montgomery representation. A scalar is a list of four
  digits. The lemmas give the residue each function computes and the bounds of its result.
\<close>

abbreviation (input) NWORDS_ORDER :: nat where "NWORDS_ORDER \<equiv> 4"

definition curve_order :: "digit list" where
  "curve_order = [0x2FB2540EC7768CE7, 0xDFBD004DFE0F7999, 0xF05397829CBC14E5, 0x0029CBC14E5E0A72]"

definition Montgomery_Rprime :: "digit list" where
  "Montgomery_Rprime = [0xC81DB8795FF3D621, 0x173EA5AAEA6B387D, 0x3D01B7C72136F61C, 0x0006A5F16AC8F9D3]"

definition Montgomery_rprime :: "digit list" where
  "Montgomery_rprime = [0xE12FE5F079BC3929, 0xD75E78B8D1FCDCF3, 0xBCE409ED76B5DB21, 0xF32702FDAFC1C074]"

section \<open>Operations\<close>

text \<open>\<open>multiply\<close> reads four digits of each argument, whatever their length.\<close>

definition multiply :: "digit list \<Rightarrow> digit list \<Rightarrow> digit list" where
  "multiply a b = fourq_mp_mul (take NWORDS_ORDER a) (take NWORDS_ORDER b)"

definition subtract_mod_order :: "digit list \<Rightarrow> digit list \<Rightarrow> digit list" where
  "subtract_mod_order a b =
     (let (bout, c) = mp_subtract a b; mask = 0 - bout
      in snd (addc_loop 0 c (map (\<lambda>o'. mask AND o') curve_order)))"

definition add_mod_order :: "digit list \<Rightarrow> digit list \<Rightarrow> digit list" where
  "add_mod_order a b = (let c = snd (fourq_mp_add a b) in subtract_mod_order c curve_order)"

definition Montgomery_multiply_mod_order :: "digit list \<Rightarrow> digit list \<Rightarrow> digit list" where
  "Montgomery_multiply_mod_order ma mb =
     (let P = multiply ma mb;
          Q = multiply P Montgomery_rprime;
          temp = multiply Q curve_order;
          (cout, temp) = fourq_mp_add P temp;
          mc = drop NWORDS_ORDER temp;
          (bout, mc) = mp_subtract mc curve_order;
          mask = cout - bout;
          temp = map (\<lambda>o'. o' AND mask) curve_order
      in snd (fourq_mp_add mc temp))"

definition scalar_one :: "digit list" where
  "scalar_one = (replicate NWORDS_ORDER 0)[0 := 1]"

definition modulo_order :: "digit list \<Rightarrow> digit list" where
  "modulo_order a =
     (let ma = Montgomery_multiply_mod_order a Montgomery_Rprime
      in Montgomery_multiply_mod_order ma scalar_one)"

definition conversion_to_odd :: "digit list \<Rightarrow> digit list" where
  "conversion_to_odd k =
     (let mask = NOT (0 - (k ! 0 AND 1))
      in snd (addc_loop 0 (map (\<lambda>o'. o' AND mask) curve_order) k))"

definition to_Montgomery :: "digit list \<Rightarrow> digit list" where
  "to_Montgomery ma = Montgomery_multiply_mod_order ma Montgomery_Rprime"

definition from_Montgomery :: "digit list \<Rightarrow> digit list" where
  "from_Montgomery a = Montgomery_multiply_mod_order a scalar_one"

fun or_digits :: "digit \<Rightarrow> digit list \<Rightarrow> digit" where
  "or_digits x [] = x"
| "or_digits x (a # as) = or_digits (x OR a) as"

definition is_zero_ct :: "digit list \<Rightarrow> bool" where
  "is_zero_ct a = (let x = or_digits (hd a) (tl a) in 1 XOR drop_bit 63 (x OR (0 - x)) \<noteq> 0)"

section \<open>Values\<close>

definition is_scalar :: "digit list \<Rightarrow> bool" where
  "is_scalar a = (length a = NWORDS_ORDER)"

definition order_r :: nat where
  "order_r = 73846995687063900142583536357581573884798075859800097461294096333596429543"

lemma curve_order_val: "digits_val curve_order = order_r" "length curve_order = 4"
  by (simp_all add: curve_order_def order_r_def)

lemma order_bounds: "0 < order_r" "1 < order_r" "order_r < 2 ^ 246" "odd order_r"
  by (simp_all add: order_r_def)

lemma coprime_order: "coprime (2 ^ n) order_r"
  using order_bounds(4) by simp

lemma Montgomery_Rprime_spec: "digits_val Montgomery_Rprime < order_r" "length Montgomery_Rprime = 4"
  "digits_val Montgomery_Rprime mod order_r = (2 ^ 256 * 2 ^ 256) mod order_r"
  by (simp_all add: Montgomery_Rprime_def order_r_def)

lemma Montgomery_rprime_spec: "length Montgomery_rprime = 4"
  "(order_r * digits_val Montgomery_rprime + 1) mod 2 ^ 256 = 0"
  by (simp_all add: Montgomery_rprime_def order_r_def)

lemma digits_val_split:
  "digits_val a = digits_val (take n a) + 2 ^ (64 * n) * digits_val (drop n a)"
  "digits_val (take n a) < 2 ^ (64 * n)"
proof -
  show "digits_val a = digits_val (take n a) + 2 ^ (64 * n) * digits_val (drop n a)"
    using digits_val_append [of "take n a" "drop n a"] by (cases "n \<le> length a") (simp_all add: min_absorb2)
  have "digits_val (take n a) < 2 ^ (64 * length (take n a))" by (rule digits_val_less)
  also have "\<dots> \<le> 2 ^ (64 * n)" by (intro power_increasing) simp_all
  finally show "digits_val (take n a) < 2 ^ (64 * n)" .
qed

lemma digits_val_take: "digits_val (take n a) = digits_val a mod 2 ^ (64 * n)"
  unfolding digits_val_split(1) [of a n] using digits_val_split(2) [where n = n] by simp

lemma digits_val_drop: "digits_val (drop n a) = digits_val a div 2 ^ (64 * n)"
  unfolding digits_val_split(1) [of a n] using digits_val_split(2) [where n = n] by simp

lemma multiply_spec:
  "digits_val (multiply a b) = (digits_val a mod 2 ^ 256) * (digits_val b mod 2 ^ 256)"
  "4 \<le> length a \<Longrightarrow> 4 \<le> length b \<Longrightarrow> length (multiply a b) = 8"
  by (simp_all add: multiply_def fourq_mp_mul_spec digits_val_take)

lemma scalar_less: "is_scalar a \<Longrightarrow> digits_val a < 2 ^ 256"
  using digits_val_less [of a] by (simp add: is_scalar_def)

text \<open>Masks: a borrow bit keeps or clears a number.\<close>

lemma masked_digits:
  assumes "unat (b :: digit) \<le> 1"
  shows "digits_val (map (\<lambda>o'. (0 - b) AND o') ds) = unat b * digits_val ds"
    "digits_val (map (\<lambda>o'. o' AND (0 - b)) ds) = unat b * digits_val ds"
proof -
  have "b = 0 \<or> b = 1" using assms by (metis digit_bit_cases of_bool_def)
  then show "digits_val (map (\<lambda>o'. (0 - b) AND o') ds) = unat b * digits_val ds"
    "digits_val (map (\<lambda>o'. o' AND (0 - b)) ds) = unat b * digits_val ds"
    by (induction ds) auto
qed

text \<open>A sum or difference of four digits and its carry, read back as equations.\<close>

lemma carry_unique:
  fixes s c t M :: nat
  assumes "s + M * c = t" "s < M"
  shows "s = t mod M" "c = t div M"
  using assms by auto

lemma subtract_mod_order_spec:
  assumes "is_scalar a" "is_scalar b" "digits_val b \<le> digits_val a + order_r"
  shows "is_scalar (subtract_mod_order a b)"
    and "digits_val (subtract_mod_order a b) =
      (if digits_val b \<le> digits_val a then digits_val a - digits_val b else digits_val a + order_r - digits_val b)"
proof -
  obtain bout c where c: "mp_subtract a b = (bout, c)" by (metis surj_pair)
  have cs: "digits_val c + digits_val b = digits_val a + 2 ^ 256 * unat bout" "unat bout \<le> 1" "length c = 4"
    using subc_loop_spec [of a b 0 bout c] c assms(1,2) by (simp_all add: mp_subtract_def is_scalar_def)
  let ?m = "map (\<lambda>o'. (0 - bout) AND o') curve_order"
  obtain co d where d: "addc_loop 0 c ?m = (co, d)" by (metis surj_pair)
  have ds: "digits_val d + 2 ^ 256 * unat co = digits_val c + unat bout * order_r" "length d = 4"
    using addc_loop_spec [of c ?m 0 co d] d cs(3) masked_digits(1) [OF cs(2), of curve_order]
    by (simp_all add: curve_order_val)
  have r: "subtract_mod_order a b = d" unfolding subtract_mod_order_def Let_def c prod.case d snd_conv ..
  show "is_scalar (subtract_mod_order a b)" using ds(2) by (simp add: r is_scalar_def)
  have cl: "digits_val c < 2 ^ 256" "digits_val d < 2 ^ 256"
    using digits_val_less [of c] digits_val_less [of d] cs(3) ds(2) by simp_all
  have al: "digits_val a < 2 ^ 256" "digits_val b < 2 ^ 256" "order_r < 2 ^ 256"
    using scalar_less assms(1,2) order_bounds(3) by (auto simp: order_r_def)
  show "digits_val (subtract_mod_order a b) =
      (if digits_val b \<le> digits_val a then digits_val a - digits_val b else digits_val a + order_r - digits_val b)"
  proof (cases "digits_val b \<le> digits_val a")
    case True
    have b: "unat bout = 0"
    proof (rule ccontr)
      assume "unat bout \<noteq> 0"
      then have "unat bout = 1" using cs(2) by simp
      then show False using cs(1) cl(1) True by simp
    qed
    have "digits_val d + 2 ^ 256 * unat co = digits_val c" using ds(1) unfolding b by simp
    then have "digits_val d = digits_val c mod 2 ^ 256" by (rule carry_unique(1) [OF _ cl(2)])
    then show ?thesis using True cs(1) cl(1) unfolding b r by simp
  next
    case False
    have b: "unat bout = 1"
    proof (rule ccontr)
      assume "unat bout \<noteq> 1"
      then have "unat bout = 0" using cs(2) by simp
      then show False using cs(1) False by simp
    qed
    have "digits_val d + 2 ^ 256 * unat co = (digits_val a + order_r - digits_val b) + 2 ^ 256"
      using ds(1) cs(1) assms(3) False unfolding b by linarith
    moreover have "digits_val a + order_r - digits_val b < 2 ^ 256" using False al by linarith
    ultimately have "digits_val d = digits_val a + order_r - digits_val b"
      using carry_unique(1) [of "digits_val d" "2 ^ 256" "unat co"] cl(2) by simp
    then show ?thesis using False by (simp add: r)
  qed
qed

lemma mod_order_double: "(n :: nat) < 2 * m \<Longrightarrow> (if m \<le> n then n - m else n) = n mod m"
  by (cases "m \<le> n") (simp_all add: le_mod_geq)

lemma add_mod_order_spec:
  assumes "is_scalar a" "is_scalar b" "digits_val a < order_r" "digits_val b < order_r"
  shows "is_scalar (add_mod_order a b)"
    and "digits_val (add_mod_order a b) = (digits_val a + digits_val b) mod order_r"
proof -
  obtain co c where c: "fourq_mp_add a b = (co, c)" by (metis surj_pair)
  have cs: "digits_val c + 2 ^ 256 * unat co = digits_val a + digits_val b" "length c = 4"
    using addc_loop_spec [of a b 0 co c] c assms(1,2) by (simp_all add: fourq_mp_add_def is_scalar_def)
  have "digits_val a + digits_val b < 2 ^ 256" using assms(3,4) order_bounds(3) by (simp add: order_r_def)
  then have "digits_val c = digits_val a + digits_val b"
    using carry_unique(1) [OF cs(1)] digits_val_less [of c] cs(2) by simp
  moreover have "is_scalar c" "is_scalar curve_order" by (simp_all add: is_scalar_def cs(2) curve_order_val)
  ultimately show "is_scalar (add_mod_order a b)"
    "digits_val (add_mod_order a b) = (digits_val a + digits_val b) mod order_r"
    using subtract_mod_order_spec [of c curve_order] mod_order_double [of "digits_val a + digits_val b" order_r] assms(3,4)
    by (auto simp: add_mod_order_def c curve_order_val)
qed

text \<open>The subtraction of the modulus that is undone when it borrows.\<close>

lemma final_subtraction:
  fixes E D t r M b co :: nat
  assumes "E < M" "D < M" "r < M" "D + r = t + M * b" "b \<le> 1" "E + M * co = D + b * r" "t < 2 * r"
  shows "E = t mod r"
proof (cases "b = 0")
  case True
  then have "E = D mod M" using carry_unique(1) [OF assms(6,1)] by simp
  moreover have t: "t = r + D" using assms(4) True by simp
  then have "t mod r = D" using assms(7) by simp
  ultimately show ?thesis using assms(2) by simp
next
  case False
  then have b: "b = 1" using assms(5) by simp
  have "t < r" using assms(2,4) b by simp
  moreover have "E + M * co = t + M" using assms(4,6) b by simp
  then have "E = (t + M) mod M" by (rule carry_unique(1) [OF _ assms(1)])
  ultimately show ?thesis using assms(3) by simp
qed

text \<open>
  Montgomery multiplication: the result is below the order, and times 2^256 it is the product of
  the arguments modulo the order. The product may be as large as 2^256 times the order.
\<close>

lemma montgomery_step:
  fixes T q r R rp :: nat
  assumes "(r * rp + 1) mod R = 0" "T < R * r" "0 < R" "q = (T mod R) * rp mod R"
  shows "(T + q * r) mod R = 0" "(T + q * r) div R < 2 * r" "((T + q * r) div R * R) mod r = T mod r"
proof -
  have "(T + q * r) mod R = (T mod R + ((T mod R) * rp mod R) * r) mod R"
    unfolding assms(4) by (simp only: mod_add_left_eq)
  also have "\<dots> = (T mod R + ((T mod R) * rp) * r) mod R" by (metis mod_add_right_eq mod_mult_left_eq)
  also have "\<dots> = (T mod R * (r * rp + 1)) mod R" by (simp only: distrib_left mult_1_right mult_1_left ac_simps)
  also have "\<dots> = 0" using assms(1) by (metis mod_mult_right_eq mult_0_right mod_0)
  finally show z: "(T + q * r) mod R = 0" .
  have "q < R" using assms(3,4) by simp
  then have "q * r \<le> R * r" by simp
  then have "T + q * r < R * r + R * r" using assms(2) by linarith
  then have "T + q * r < 2 * r * R" by (simp add: mult.commute)
  then show "(T + q * r) div R < 2 * r" by (rule less_mult_imp_div_less)
  have "(T + q * r) div R * R = T + q * r" using z by (simp add: mod_eq_0_iff_dvd)
  then show "((T + q * r) div R * R) mod r = T mod r" by simp
qed

lemma Montgomery_multiply_mod_order_spec:
  assumes "is_scalar a" "is_scalar b" "digits_val a * digits_val b < 2 ^ 256 * order_r"
  defines "c \<equiv> Montgomery_multiply_mod_order a b"
  shows "is_scalar c" "digits_val c < order_r"
    "(digits_val c * 2 ^ 256) mod order_r = (digits_val a * digits_val b) mod order_r"
proof -
  define P where "P = multiply a b"
  define Q where "Q = multiply P Montgomery_rprime"
  define U where "U = multiply Q curve_order"
  define T where "T = digits_val a * digits_val b"
  define q where "q = (T mod 2 ^ 256) * digits_val Montgomery_rprime mod 2 ^ 256"
  have small: "digits_val x mod 2 ^ 256 = digits_val x" if "length x = 4" for x
    using digits_val_less [of x] that by simp
  have len: "length P = 8" "length Q = 8" "length U = 8"
    using assms(1,2) Montgomery_rprime_spec curve_order_val
    by (simp_all add: P_def Q_def U_def multiply_spec(2) is_scalar_def)
  have P: "digits_val P = T"
    using small assms(1,2) by (simp only: P_def T_def multiply_spec(1) is_scalar_def)
  have U: "digits_val U = q * order_r"
    using small [OF curve_order_val(2)] small [OF Montgomery_rprime_spec(1)]
    by (simp only: U_def Q_def q_def P multiply_spec(1) curve_order_val(1) mod_mod_trivial)
  note ms = montgomery_step [OF Montgomery_rprime_spec(2) assms(3) _ q_def [unfolded T_def], folded T_def]
  obtain cout V where V: "fourq_mp_add P U = (cout, V)" by (metis surj_pair)
  have vs: "digits_val V + 2 ^ 512 * unat cout = T + q * order_r" "length V = 8"
    using addc_loop_spec [of P U 0 cout V] V len P U by (simp_all add: fourq_mp_add_def)
  have tot: "(T + q * order_r) div 2 ^ 256 < 2 * order_r" "(T + q * order_r) mod 2 ^ 256 = 0"
    "((T + q * order_r) div 2 ^ 256 * 2 ^ 256) mod order_r = T mod order_r"
    using ms by simp_all
  have bnd: "T + q * order_r < 2 ^ 512"
  proof -
    have "T + q * order_r = (T + q * order_r) div 2 ^ 256 * 2 ^ 256" using tot(2) by (metis add_0_right mult.commute div_mult_mod_eq)
    also have "\<dots> < 2 * order_r * 2 ^ 256" using tot(1) by simp
    also have "\<dots> \<le> 2 ^ 512" by (simp add: order_r_def)
    finally show ?thesis .
  qed
  have c0: "unat cout = 0"
  proof (rule ccontr)
    assume "unat cout \<noteq> 0"
    then have "2 ^ 512 * 1 \<le> 2 ^ 512 * unat cout" by (intro mult_le_mono2) simp
    then show False using vs(1) bnd by linarith
  qed
  define t where "t = (T + q * order_r) div 2 ^ 256"
  have W: "digits_val (drop 4 V) = t" "length (drop 4 V) = 4"
    using vs c0 by (simp_all add: digits_val_drop t_def)
  obtain bout D where D: "mp_subtract (drop 4 V) curve_order = (bout, D)" by (metis surj_pair)
  have ds: "digits_val D + order_r = t + 2 ^ 256 * unat bout" "unat bout \<le> 1" "length D = 4"
    using subc_loop_spec [of "drop 4 V" curve_order 0 bout D] D W curve_order_val
    by (simp_all add: mp_subtract_def)
  let ?m = "map (\<lambda>o'. o' AND (0 - bout)) curve_order"
  obtain co E where E: "fourq_mp_add D ?m = (co, E)" by (metis surj_pair)
  have es: "digits_val E + 2 ^ 256 * unat co = digits_val D + unat bout * order_r" "length E = 4"
    using addc_loop_spec [of D ?m 0 co E] E ds(3) masked_digits(2) [OF ds(2), of curve_order] curve_order_val
    by (simp_all add: fourq_mp_add_def)
  have "cout = 0" using c0 by (simp add: unat_eq_0)
  then have c: "c = E"
    unfolding c_def Montgomery_multiply_mod_order_def Let_def P_def [symmetric] Q_def [symmetric] U_def [symmetric]
    by (simp only: V D E prod.case snd_conv)
  show "is_scalar c" by (simp add: c is_scalar_def es(2))
  have lim: "digits_val E < 2 ^ 256" "digits_val D < 2 ^ 256" using digits_val_less [of E] digits_val_less [of D] es(2) ds(3) by simp_all
  have r: "order_r < 2 ^ 256" by (simp add: order_r_def)
  have res: "digits_val E = t mod order_r"
    using lim r ds(1,2) es(1) tot(1) unfolding t_def [symmetric] by (rule final_subtraction)
  show "digits_val c < order_r" using res order_bounds(1) by (simp add: c)
  show "(digits_val c * 2 ^ 256) mod order_r = (digits_val a * digits_val b) mod order_r"
    unfolding c res T_def [symmetric] tot(3) [symmetric] t_def [symmetric] by (simp add: mod_mult_left_eq)
qed

lemma cancel_radix:
  assumes "(a * 2 ^ 256) mod order_r = (b * 2 ^ 256) mod order_r"
  shows "a mod order_r = b mod order_r"
proof -
  have "int order_r dvd int (a * 2 ^ 256) - int (b * 2 ^ 256)"
    using assms by (metis mod_eq_dvd_iff zmod_int)
  then have "int order_r dvd (int a - int b) * 2 ^ 256" by (simp only: left_diff_distrib of_nat_mult of_nat_power of_nat_numeral)
  moreover have "coprime (int order_r) (2 ^ 256)"
    using order_bounds(4) by (simp only: coprime_power_right_iff coprime_right_2_iff_odd even_of_nat) simp
  ultimately have "int order_r dvd int a - int b" using coprime_dvd_mult_left_iff by blast
  then show ?thesis by (metis mod_eq_dvd_iff zmod_int of_nat_eq_iff)
qed

lemma scalar_one_spec: "is_scalar scalar_one" "digits_val scalar_one = 1"
proof -
  have "replicate 4 (0 :: digit) = [0, 0, 0, 0]" by (simp add: eval_nat_numeral)
  then have e: "scalar_one = [1, 0, 0, 0]" by (simp add: scalar_one_def)
  show "is_scalar scalar_one" "digits_val scalar_one = 1" unfolding e by (simp_all add: is_scalar_def)
qed

lemma to_Montgomery_spec:
  assumes "is_scalar a"
  shows "is_scalar (to_Montgomery a)" "digits_val (to_Montgomery a) < order_r"
    "digits_val (to_Montgomery a) = (digits_val a * 2 ^ 256) mod order_r"
proof -
  have s: "is_scalar Montgomery_Rprime" using Montgomery_Rprime_spec by (simp add: is_scalar_def)
  have b: "digits_val a * digits_val Montgomery_Rprime < 2 ^ 256 * order_r"
    by (rule mult_strict_mono' [OF scalar_less [OF assms] Montgomery_Rprime_spec(1) le0 le0])
  note m = Montgomery_multiply_mod_order_spec [OF assms s b, folded to_Montgomery_def]
  show "is_scalar (to_Montgomery a)" and lt: "digits_val (to_Montgomery a) < order_r" by (fact m)+
  have "(digits_val a * digits_val Montgomery_Rprime) mod order_r = (digits_val a * 2 ^ 256 * 2 ^ 256) mod order_r"
    unfolding mult.assoc by (rule mod_mult_cong [OF refl Montgomery_Rprime_spec(3)])
  then have "digits_val (to_Montgomery a) mod order_r = (digits_val a * 2 ^ 256) mod order_r"
    by - (rule cancel_radix, simp only: m(3))
  then show "digits_val (to_Montgomery a) = (digits_val a * 2 ^ 256) mod order_r" using lt by simp
qed

lemma from_Montgomery_spec:
  assumes "is_scalar a"
  shows "is_scalar (from_Montgomery a)" "digits_val (from_Montgomery a) < order_r"
    "(digits_val (from_Montgomery a) * 2 ^ 256) mod order_r = digits_val a mod order_r"
proof -
  have b: "digits_val a * digits_val scalar_one < 2 ^ 256 * order_r"
    unfolding scalar_one_spec by (rule mult_strict_mono' [OF scalar_less [OF assms] order_bounds(2) le0 le0])
  show "is_scalar (from_Montgomery a)" "digits_val (from_Montgomery a) < order_r"
    "(digits_val (from_Montgomery a) * 2 ^ 256) mod order_r = digits_val a mod order_r"
    using Montgomery_multiply_mod_order_spec [OF assms scalar_one_spec(1) b, folded from_Montgomery_def]
    by (simp_all only: scalar_one_spec mult_1_right)
qed

lemma from_to_Montgomery:
  assumes "is_scalar a"
  shows "digits_val (from_Montgomery (to_Montgomery a)) = digits_val a mod order_r"
proof -
  note t = to_Montgomery_spec [OF assms]
  note f = from_Montgomery_spec [OF t(1)]
  have "digits_val (from_Montgomery (to_Montgomery a)) mod order_r = digits_val a mod order_r"
    by (rule cancel_radix) (simp only: f(3), simp only: t(3) mod_mod_trivial)
  then show ?thesis using f(2) by simp
qed

lemma modulo_order_spec:
  assumes "is_scalar a"
  shows "is_scalar (modulo_order a)" "digits_val (modulo_order a) = digits_val a mod order_r"
  using from_Montgomery_spec(1) [OF to_Montgomery_spec(1) [OF assms]] from_to_Montgomery [OF assms]
  by (simp_all add: modulo_order_def Let_def to_Montgomery_def from_Montgomery_def)

text \<open>Multiplication in the Montgomery representation.\<close>

lemma Montgomery_product:
  assumes "is_scalar a" "is_scalar b"
  shows "digits_val (from_Montgomery (Montgomery_multiply_mod_order (to_Montgomery a) (to_Montgomery b))) =
    (digits_val a * digits_val b) mod order_r"
proof -
  note ta = to_Montgomery_spec [OF assms(1)] and tb = to_Montgomery_spec [OF assms(2)]
  have "digits_val (to_Montgomery a) * digits_val (to_Montgomery b) < 2 ^ 256 * order_r"
    by (rule mult_strict_mono' [OF scalar_less [OF ta(1)] tb(2) le0 le0])
  note m = Montgomery_multiply_mod_order_spec [OF ta(1) tb(1) this]
  note f = from_Montgomery_spec [OF m(1)]
  let ?m = "Montgomery_multiply_mod_order (to_Montgomery a) (to_Montgomery b)"
  have "(digits_val ?m * 2 ^ 256) mod order_r = ((digits_val a * digits_val b * 2 ^ 256) * 2 ^ 256) mod order_r"
    unfolding m(3) ta(3) tb(3) mod_mult_eq by (simp only: ac_simps)
  then have "digits_val ?m mod order_r = (digits_val a * digits_val b * 2 ^ 256) mod order_r"
    by (rule cancel_radix)
  then have "digits_val (from_Montgomery ?m) mod order_r = (digits_val a * digits_val b) mod order_r"
    by - (rule cancel_radix, simp only: f(3))
  then show ?thesis using f(2) by simp
qed

lemma subtract_mod_order_residue:
  assumes "is_scalar a" "is_scalar b" "digits_val a < order_r" "digits_val b < order_r"
  shows "digits_val (subtract_mod_order a b) mod order_r = (digits_val a + (order_r - digits_val b)) mod order_r"
    "digits_val (subtract_mod_order a b) < order_r"
proof -
  have d: "digits_val (subtract_mod_order a b) =
      (if digits_val b \<le> digits_val a then digits_val a - digits_val b else digits_val a + order_r - digits_val b)"
    using subtract_mod_order_spec(2) [OF assms(1,2)] assms(4) by linarith
  show "digits_val (subtract_mod_order a b) < order_r" using d assms(3,4) by (auto split: if_splits)
  show "digits_val (subtract_mod_order a b) mod order_r = (digits_val a + (order_r - digits_val b)) mod order_r"
  proof (cases "digits_val b \<le> digits_val a")
    case True
    then have "digits_val a + (order_r - digits_val b) = (digits_val a - digits_val b) + order_r"
      using assms(4) by linarith
    then show ?thesis using d True by (simp only: if_True mod_add_self2)
  next
    case False
    then have "digits_val a + (order_r - digits_val b) = digits_val a + order_r - digits_val b"
      using assms(4) by linarith
    then show ?thesis using d False by simp
  qed
qed

lemma odd_unat: "even (unat (w :: digit)) \<longleftrightarrow> even w"
  using bit_unsigned_iff [where 'a = nat, of w 0] by (simp add: bit_0)

text \<open>An even scalar gets the order added: the result is odd and the residue is kept.\<close>

lemma conversion_to_odd_spec:
  assumes "is_scalar k" "digits_val k < order_r"
  shows "is_scalar (conversion_to_odd k)"
    "digits_val (conversion_to_odd k) = (if odd (digits_val k) then digits_val k else digits_val k + order_r)"
proof -
  have low: "even (digits_val k) \<longleftrightarrow> even (k ! 0)"
  proof -
    obtain d ds where "k = d # ds" using assms(1) by (cases k) (simp_all add: is_scalar_def)
    then show ?thesis by (simp add: odd_unat)
  qed
  define b where "b = 1 - (k ! 0 AND 1)"
  have b: "b = of_bool (even (digits_val k))" unfolding b_def low by (simp add: and_one_eq mod2_eq_if)
  have m: "NOT (0 - (k ! 0 AND 1)) = 0 - b" unfolding b_def by (simp add: not_eq_complement)
  have b1: "unat b \<le> 1" by (simp add: b)
  let ?m = "map (\<lambda>o'. o' AND (0 - b)) curve_order"
  obtain co c where c: "addc_loop 0 ?m k = (co, c)" by (metis surj_pair)
  have cs: "digits_val c + 2 ^ 256 * unat co = unat b * order_r + digits_val k" "length c = 4"
    using addc_loop_spec [of ?m k 0 co c] c assms(1) masked_digits(2) [OF b1, of curve_order] curve_order_val
    by (simp_all add: is_scalar_def)
  have d: "conversion_to_odd k = c"
    unfolding conversion_to_odd_def Let_def m c snd_conv ..
  show "is_scalar (conversion_to_odd k)" by (simp add: d is_scalar_def cs(2))
  have "unat b * order_r + digits_val k < 2 ^ 256" using assms(2) by (simp add: b order_r_def)
  then have "digits_val c = unat b * order_r + digits_val k"
    using carry_unique(1) [OF cs(1)] digits_val_less [of c] cs(2) by simp
  then show "digits_val (conversion_to_odd k) = (if odd (digits_val k) then digits_val k else digits_val k + order_r)"
    by (simp add: d b)
qed

lemma or_digits_zero: "or_digits x as = 0 \<longleftrightarrow> x = 0 \<and> digits_val as = 0"
  by (induction x as rule: or_digits.induct) (auto simp: or_eq_0_iff unat_eq_0)

lemma is_zero_ct_spec: "a \<noteq> [] \<Longrightarrow> is_zero_ct a \<longleftrightarrow> digits_val a = 0"
  using digit_zero [of "or_digits (hd a) (tl a)"]
  by (cases a) (auto simp: is_zero_ct_def Let_def is_digit_zero_ct_def is_digit_nonzero_ct_def or_digits_zero unat_eq_0)

end
