(* ===== verification/FourQ_Codec.thy ===== *)
theory FourQ_Codec
  imports FourQ_Group FourQ_Scalar
begin

text \<open>
  Compression of points to 32 bytes and back (\<open>oZKS/fourq/crypto_util.c\<close>: \<open>encode\<close>, \<open>decode\<close>), with the
  status codes of \<open>oZKS/fourq/FourQ.h\<close>. An encoded point is its y-coordinate with the sign of x in the
  top bit; decoding takes a square root in GF(p^2). The lemmas show that decoding inverts encoding on
  the whole curve.
\<close>

section \<open>Status codes\<close>

datatype eccrypto_status =
    ECCRYPTO_ERROR
  | ECCRYPTO_SUCCESS
  | ECCRYPTO_ERROR_DURING_TEST
  | ECCRYPTO_ERROR_UNKNOWN
  | ECCRYPTO_ERROR_NOT_IMPLEMENTED
  | ECCRYPTO_ERROR_NO_MEMORY
  | ECCRYPTO_ERROR_INVALID_PARAMETER
  | ECCRYPTO_ERROR_SHARED_KEY
  | ECCRYPTO_ERROR_SIGNATURE_VERIFICATION
  | ECCRYPTO_ERROR_HASH_TO_CURVE

text \<open>The numeric code; the C function takes any code and knows those below the end of the list.\<close>

definition status_code :: "eccrypto_status \<Rightarrow> nat" where
  "status_code s =
     (case s of ECCRYPTO_ERROR \<Rightarrow> 0 | ECCRYPTO_SUCCESS \<Rightarrow> 1 | ECCRYPTO_ERROR_DURING_TEST \<Rightarrow> 2
      | ECCRYPTO_ERROR_UNKNOWN \<Rightarrow> 3 | ECCRYPTO_ERROR_NOT_IMPLEMENTED \<Rightarrow> 4 | ECCRYPTO_ERROR_NO_MEMORY \<Rightarrow> 5
      | ECCRYPTO_ERROR_INVALID_PARAMETER \<Rightarrow> 6 | ECCRYPTO_ERROR_SHARED_KEY \<Rightarrow> 7
      | ECCRYPTO_ERROR_SIGNATURE_VERIFICATION \<Rightarrow> 8 | ECCRYPTO_ERROR_HASH_TO_CURVE \<Rightarrow> 9)"

definition error_mapping :: "string list" where
  "error_mapping =
     [''ECCRYPTO_ERROR'', ''ECCRYPTO_SUCCESS'', ''ECCRYPTO_ERROR_DURING_TEST'', ''ECCRYPTO_ERROR_UNKNOWN'',
      ''ECCRYPTO_ERROR_NOT_IMPLEMENTED'', ''ECCRYPTO_ERROR_NO_MEMORY'', ''ECCRYPTO_ERROR_INVALID_PARAMETER'',
      ''ECCRYPTO_ERROR_SHARED_KEY'', ''ECCRYPTO_ERROR_SIGNATURE_VERIFICATION'', ''ECCRYPTO_ERROR_HASH_TO_CURVE'']"

definition FourQ_get_error_message :: "nat \<Rightarrow> string" where
  "FourQ_get_error_message Status =
     (if Status \<ge> 10 then ''Unrecognized ECCRYPTO_STATUS'' else error_mapping ! Status)"

section \<open>Encoding and decoding\<close>

definition mask4000 :: digit where
  "mask4000 = push_bit (64 - 2) 1"

definition mask7fff :: digit where
  "mask7fff = drop_bit 1 (- 1)"

definition encode :: "point_affine \<Rightarrow> byte list" where
  "encode P =
     (let temp1 = push_bit 1 (snd (pa_x P) ! 1 AND mask4000);
          temp2 = push_bit 1 (fst (pa_x P) ! 1 AND mask4000);
          Pencoded = fst (pa_y P) @ snd (pa_y P)
      in words_bytes
           (if is_zero_ct (fst (pa_x P)) then Pencoded[3 := Pencoded ! 3 OR temp1]
            else Pencoded[3 := Pencoded ! 3 OR temp2]))"

text \<open>
  The candidate for the x-coordinate: a square root of \<open>u / v\<close>, or its conjugate up to sign. This is
  the part of \<open>decode\<close> up to the reduction of \<open>x\<close>.
\<close>

definition decode_x :: "f2elm_t \<Rightarrow> f2elm_t" where
  "decode_x y =
     (let u = fp2sqr1271 y;
          v = fp2mul1271 u PARAMETER_d;
          u = fp2sub1271 u fp2one;
          v = fp2add1271 v fp2one;
          t0 = fpsqr1271 (fst v);
          t1 = fpsqr1271 (snd v);
          t0 = fpadd1271 t0 t1;
          t1 = fpmul1271 (fst u) (fst v);
          t2 = fpmul1271 (snd u) (snd v);
          t1 = fpadd1271 t1 t2;
          t2 = fpmul1271 (snd u) (fst v);
          t3 = fpmul1271 (fst u) (snd v);
          t2 = fpsub1271 t2 t3;
          t3 = fpsqr1271 t1;
          t4 = fpsqr1271 t2;
          t3 = fpadd1271 t3 t4;
          t3 = fpsqr_times 125 t3;
          t = fpadd1271 t1 t3;
          t = mod1271 t;
          t = (if is_zero_ct t then fpsub1271 t1 t3 else t);
          t = fpadd1271 t t;
          t3 = fpsqr1271 t0;
          t3 = fpmul1271 t0 t3;
          t3 = fpmul1271 t t3;
          r = fpexp1251 t3;
          t3 = fpmul1271 t0 r;
          x0 = fpmul1271 t t3;
          t1 = fpsqr1271 x0;
          t1 = fpmul1271 t0 t1;
          x0 = fpdiv1271 x0;
          x1 = fpmul1271 t3 t2;
          t = fpsub1271 t t1;
          t = mod1271 t;
          (x0, x1) = (if \<not> is_zero_ct t then (fpcopy1271 x1, fpcopy1271 (fpcopy1271 x0)) else (x0, x1))
      in (mod1271 x0, x1))"

text \<open>The y-coordinate: the four words of the encoding with the sign bit cleared.\<close>

definition decode_y :: "byte list \<Rightarrow> f2elm_t" where
  "decode_y Pencoded =
     (let ds = map (\<lambda>k. le_word (take 8 (drop (8 * k) Pencoded))) [0..<4]
      in (take 2 ds, (drop 2 ds)[1 := drop 2 ds ! 1 AND mask7fff]))"

definition decode :: "byte list \<Rightarrow> eccrypto_status \<times> point_affine" where
  "decode Pencoded =
     (let sign = ucast (drop_bit 7 (Pencoded ! 31)) :: u32;
          y = decode_y Pencoded;
          x = decode_x y;
          sign_dec = (if is_zero_ct (fst x) then drop_bit (64 - 2) (snd x ! 1) else drop_bit (64 - 2) (fst x ! 1));
          x = (if sign \<noteq> ucast sign_dec then fp2neg1271 x else x);
          P = \<lparr>pa_x = x, pa_y = y\<rparr>;
          R = point_setup P
      in if \<not> ecc_point_validate R then
           let R = R\<lparr>pe_x := (fst (pe_x R), fpneg1271 (snd (pe_x R)))\<rparr>;
               P = P\<lparr>pa_x := (fst (pa_x P), fpcopy1271 (snd (pe_x R)))\<rparr>
           in if \<not> ecc_point_validate R then (ECCRYPTO_ERROR, P) else (ECCRYPTO_SUCCESS, P)
         else (ECCRYPTO_SUCCESS, P))"

section \<open>Square roots in GF(p)\<close>

lemma p1271_exponents: "p1271 = Suc (2 * (2 ^ 126 - 1))" "(2 :: nat) ^ 126 = Suc (2 ^ 126 - 1)"
  "2 * (2 ^ 125 - 1) = (2 :: nat) ^ 126 - 2" "(2 ^ 126 - 1 :: nat) = Suc (2 ^ 126 - 2)" "(2 :: nat) * 2 ^ 125 = 2 ^ 126"
  by (simp_all add: p1271_def)

lemma gfp_euler: "(x :: gfp) \<noteq> 0 \<Longrightarrow> x ^ (2 ^ 126 - 1) = 1 \<or> x ^ (2 ^ 126 - 1) = - 1"
proof -
  assume x: "x \<noteq> 0"
  have "x * (x ^ (2 ^ 126 - 1))\<^sup>2 = x ^ p1271"
    unfolding p1271_exponents(1) by (simp only: power_Suc power_mult [symmetric] mult.commute)
  then have "x * (x ^ (2 ^ 126 - 1))\<^sup>2 = x * 1" by (simp only: gfp_fermat mult_1_right)
  then have "(x ^ (2 ^ 126 - 1))\<^sup>2 = 1" using x by (simp only: mult_cancel_left simp_thms)
  then show ?thesis by (simp only: power2_eq_1_iff)
qed

text \<open>The square root of a square by \<open>(p + 1) / 4\<close> squarings, and the power \<open>(p - 3) / 4\<close> of \<open>\<plusminus> e\<^sup>2\<close>.\<close>

lemma gfp_sqrt: "((z :: gfp)\<^sup>2) ^ 2 ^ 125 = z \<or> (z\<^sup>2) ^ 2 ^ 125 = - z"
proof (cases "z = 0")
  case False
  have "(z\<^sup>2) ^ 2 ^ 125 = z ^ 2 ^ 126" by (simp only: power_mult [symmetric] p1271_exponents(5))
  also have "\<dots> = z * z ^ (2 ^ 126 - 1)" by (subst p1271_exponents(2)) (rule power_Suc)
  finally show ?thesis using gfp_euler [OF False] by auto
qed (simp add: zero_power)

lemma gfp_inv_sqrt:
  assumes "(e :: gfp) \<noteq> 0"
  obtains c where "c\<^sup>2 = 1" "(e\<^sup>2) ^ (2 ^ 125 - 1) = c * inverse e" "(- (e\<^sup>2)) ^ (2 ^ 125 - 1) = - c * inverse e"
proof
  let ?c = "e ^ (2 ^ 126 - 1)"
  show "?c\<^sup>2 = 1" using gfp_euler [OF assms] by (auto simp only: power2_minus power_one)
  have "e ^ (2 ^ 126 - 1) = e * e ^ (2 ^ 126 - 2)" by (subst p1271_exponents(4)) (rule power_Suc)
  then have c: "e ^ (2 ^ 126 - 2) = ?c * inverse e" using assms by (simp add: field_simps)
  show s: "(e\<^sup>2) ^ (2 ^ 125 - 1) = ?c * inverse e"
    unfolding c [symmetric] by (simp only: power_mult [symmetric] p1271_exponents(3))
  have o: "odd (2 ^ 125 - 1 :: nat)" by simp
  show "(- (e\<^sup>2)) ^ (2 ^ 125 - 1) = - ?c * inverse e"
    using power_minus_odd [OF o, of "e\<^sup>2"] s by (simp only: mult_minus_left)
qed

lemma gfp_unit_square: "(c :: gfp)\<^sup>2 = 1 \<Longrightarrow> c = 1 \<or> c = - 1"
  by (simp only: power2_eq_1_iff)

text \<open>The root found by \<open>decode_x\<close>, as a computation in GF(p) on the norm \<open>t0\<close> of the denominator.\<close>

definition root_pair :: "gfp \<Rightarrow> gfp \<Rightarrow> gfp \<Rightarrow> gfp \<times> gfp" where
  "root_pair t0 t1 t2 =
     (let t3 = (t1\<^sup>2 + t2\<^sup>2) ^ 2 ^ 125;
          t = (if t1 + t3 = 0 then t1 - t3 else t1 + t3);
          t = t + t;
          r = (t * (t0 * t0\<^sup>2)) ^ (2 ^ 125 - 1);
          x0 = t * (t0 * r);
          x1 = (t0 * r) * t2
      in if t - t0 * x0\<^sup>2 \<noteq> 0 then (x1, x0 / 2) else (x0 / 2, x1))"

lemma root_pair_spec:
  assumes "t0 \<noteq> 0" "t1 = t0 * (a\<^sup>2 - b\<^sup>2)" "t2 = t0 * (2 * a * b)"
  shows "fst (root_pair t0 t1 t2) = a \<or> fst (root_pair t0 t1 t2) = - a"
    "snd (root_pair t0 t1 t2) = b \<or> snd (root_pair t0 t1 t2) = - b"
proof -
  let ?n = "t0 * (a\<^sup>2 + b\<^sup>2)"
  define t3 where "t3 = (t1\<^sup>2 + t2\<^sup>2) ^ 2 ^ 125"
  have "t1\<^sup>2 + t2\<^sup>2 = ?n\<^sup>2" unfolding assms(2,3) by algebra
  then have t3: "t3 = ?n \<or> t3 = - ?n" using gfp_sqrt [of ?n] by (simp only: t3_def)
  define t where "t = (if t1 + t3 = 0 then t1 - t3 else t1 + t3)"
  have e: "t1 + ?n = 2 * t0 * a\<^sup>2" "t1 - ?n = - (2 * t0 * b\<^sup>2)" unfolding assms(2) by algebra+
  have two: "2 * u = 0 \<longleftrightarrow> u = 0" for u :: gfp using gfp_two by simp
  have t: "t = 2 * t0 * a\<^sup>2 \<and> (a = 0 \<longrightarrow> b = 0) \<or> t = - (2 * t0 * b\<^sup>2) \<and> b \<noteq> 0"
    using t3 e assms(1) gfp_two unfolding t_def by (auto simp: mult.assoc two)
  have half: "(2 * u) / 2 = u" for u :: gfp using gfp_two by simp
  define r where "r = ((t + t) * (t0 * t0\<^sup>2)) ^ (2 ^ 125 - 1)"
  define x0 where "x0 = (t + t) * (t0 * r)"
  define x1 where "x1 = (t0 * r) * t2"
  have rp: "root_pair t0 t1 t2 = (if (t + t) - t0 * x0\<^sup>2 \<noteq> 0 then (x1, x0 / 2) else (x0 / 2, x1))"
    by (simp only: root_pair_def Let_def t3_def [symmetric] t_def [symmetric] r_def [symmetric] x0_def [symmetric] x1_def [symmetric])
  from t have "(fst (root_pair t0 t1 t2) = a \<or> fst (root_pair t0 t1 t2) = - a) \<and>
    (snd (root_pair t0 t1 t2) = b \<or> snd (root_pair t0 t1 t2) = - b)"
  proof (elim disjE conjE)
    assume ta: "t = 2 * t0 * a\<^sup>2" and z: "a = 0 \<longrightarrow> b = 0"
    show ?thesis
    proof (cases "a = 0")
      case True
      then have "x0 = 0" "x1 = 0" "t = 0" using z ta by (simp_all add: x0_def x1_def assms(3))
      then show ?thesis using True z by (simp add: rp)
    next
      case False
      let ?e = "2 * t0\<^sup>2 * a"
      have e0: "?e \<noteq> 0" using False assms(1) gfp_two by simp
      obtain c where c: "c\<^sup>2 = 1" "(?e\<^sup>2) ^ (2 ^ 125 - 1) = c * inverse ?e" using gfp_inv_sqrt [OF e0] .
      have "(t + t) * (t0 * t0\<^sup>2) = ?e\<^sup>2" unfolding ta by algebra
      then have r: "r = c * inverse ?e" using c(2) by (simp only: r_def)
      have re: "r * ?e = c" unfolding r using e0 by (simp only: mult.assoc left_inverse mult_1_right simp_thms)
      have x0: "x0 = 2 * (a * c)" unfolding x0_def ta re [symmetric] by algebra
      have x1: "x1 = b * c" unfolding x1_def assms(3) re [symmetric] by algebra
      have "(t + t) - t0 * x0\<^sup>2 = 4 * t0 * a\<^sup>2 * (1 - c\<^sup>2)" unfolding x0 ta by algebra
      then have "(t + t) - t0 * x0\<^sup>2 = 0" using c(1) by simp
      then have "root_pair t0 t1 t2 = (a * c, b * c)" unfolding rp x0 half x1 by (simp only: simp_thms if_False)
      then show ?thesis using gfp_unit_square [OF c(1)] by auto
    qed
  next
    assume tb: "t = - (2 * t0 * b\<^sup>2)" and b: "b \<noteq> 0"
    let ?e = "2 * t0\<^sup>2 * b"
    have e0: "?e \<noteq> 0" using b assms(1) gfp_two by simp
    obtain c where c: "c\<^sup>2 = 1" "(- (?e\<^sup>2)) ^ (2 ^ 125 - 1) = - c * inverse ?e" using gfp_inv_sqrt [OF e0] .
    have "(t + t) * (t0 * t0\<^sup>2) = - (?e\<^sup>2)" unfolding tb by algebra
    then have r: "r = - c * inverse ?e" using c(2) by (simp only: r_def)
    have re: "r * ?e = - c" unfolding r using e0 by (simp only: mult.assoc left_inverse mult_1_right simp_thms)
    have x0: "x0 = 2 * (b * c)" unfolding x0_def tb using re by algebra
    have x1: "x1 = - (a * c)" unfolding x1_def assms(3) using re by algebra
    have "(t + t) - t0 * x0\<^sup>2 = - (4 * t0 * b\<^sup>2 * (1 + c\<^sup>2))" unfolding x0 tb by algebra
    also have "\<dots> = - (2 * (2 * (2 * (t0 * b\<^sup>2))))" unfolding c(1) by algebra
    finally have "(t + t) - t0 * x0\<^sup>2 \<noteq> 0" using b assms(1) by (simp only: neg_equal_0_iff_equal two mult_eq_0_iff power_eq_0_iff) (simp add: gfp_two)
    then have "root_pair t0 t1 t2 = (- (a * c), b * c)" unfolding rp x0 half x1 by (simp only: if_True not_False_eq_True)
    then show ?thesis using gfp_unit_square [OF c(1)] by auto
  qed
  then show "fst (root_pair t0 t1 t2) = a \<or> fst (root_pair t0 t1 t2) = - a"
    "snd (root_pair t0 t1 t2) = b \<or> snd (root_pair t0 t1 t2) = - b" by blast+
qed

section \<open>The candidate of \<open>decode\<close>\<close>

lemma is_zero_ct_mod: "felm u \<Longrightarrow> is_zero_ct (mod1271 u) \<longleftrightarrow> fp_abs u = 0"
proof -
  assume u: "felm u"
  have "mod1271 u \<noteq> []" using felm_length [OF mod1271_spec(1) [OF u]] by auto
  then have "is_zero_ct (mod1271 u) \<longleftrightarrow> digits_val (mod1271 u) = 0" by (rule is_zero_ct_spec)
  then show "is_zero_ct (mod1271 u) \<longleftrightarrow> fp_abs u = 0"
    by (simp only: mod1271_spec(3) [OF u] fp_abs_def gfp_of_nat_zero dvd_eq_mod_eq_0)
qed

lemma fpsqr_times_spec: "felm t \<Longrightarrow> felm (fpsqr_times n t) \<and> fp_abs (fpsqr_times n t) = fp_abs t ^ 2 ^ n"
proof (induction n arbitrary: t)
  case (Suc n)
  then show ?case by (simp add: fp_felm fp_value power_mult [symmetric])
qed simp

lemma fpdiv1271_half: "felm a \<Longrightarrow> fp_abs (fpdiv1271 a) = fp_abs a / 2"
  using fpdiv1271_spec(2) [of a] gfp_two by (simp add: nonzero_eq_divide_eq mult.commute)

lemma decode_x_spec:
  assumes "f2elm y"
  defines "u \<equiv> (fq_abs y)\<^sup>2 - 1" and "v \<equiv> (fq_abs y)\<^sup>2 * curve_d + 1"
  defines "rp \<equiv> root_pair (fq_norm v) (fq_re u * fq_re v + fq_im u * fq_im v) (fq_im u * fq_re v - fq_re u * fq_im v)"
  shows "f2elm (decode_x y)" "fq_abs (decode_x y) = Fq (fst rp) (snd rp)" "mod1271 (fst (decode_x y)) = fst (decode_x y)"
proof -
  define U where "U = fp2sub1271 (fp2sqr1271 y) fp2one"
  define V where "V = fp2add1271 (fp2mul1271 (fp2sqr1271 y) PARAMETER_d) fp2one"
  have U: "felm (fst U)" "felm (snd U)" "fp_abs (fst U) = fq_re u" "fp_abs (snd U) = fq_im u"
  proof -
    have "f2elm U" "fq_abs U = u" using assms(1) by (simp_all add: U_def u_def fp2)
    then show "felm (fst U)" "felm (snd U)" "fp_abs (fst U) = fq_re u" "fp_abs (snd U) = fq_im u"
      by (auto simp: f2elm_def fq_abs_def)
  qed
  have V: "felm (fst V)" "felm (snd V)" "fp_abs (fst V) = fq_re v" "fp_abs (snd V) = fq_im v"
  proof -
    have "f2elm V" "fq_abs V = v" using assms(1) by (simp_all add: V_def v_def fp2)
    then show "felm (fst V)" "felm (snd V)" "fp_abs (fst V) = fq_re v" "fp_abs (snd V) = fq_im v"
      by (auto simp: f2elm_def fq_abs_def)
  qed
  define t0 where "t0 = fpadd1271 (fpsqr1271 (fst V)) (fpsqr1271 (snd V))"
  define t1 where "t1 = fpadd1271 (fpmul1271 (fst U) (fst V)) (fpmul1271 (snd U) (snd V))"
  define t2 where "t2 = fpsub1271 (fpmul1271 (snd U) (fst V)) (fpmul1271 (fst U) (snd V))"
  have T: "felm t0" "felm t1" "felm t2" "fp_abs t0 = fq_norm v"
    "fp_abs t1 = fq_re u * fq_re v + fq_im u * fq_im v" "fp_abs t2 = fq_im u * fq_re v - fq_re u * fq_im v"
    using U V by (simp_all add: t0_def t1_def t2_def fp_felm fp_value fq_norm_def)
  define t3 where "t3 = fpsqr_times 125 (fpadd1271 (fpsqr1271 t1) (fpsqr1271 t2))"
  have t3: "felm t3" "fp_abs t3 = ((fp_abs t1)\<^sup>2 + (fp_abs t2)\<^sup>2) ^ 2 ^ 125"
  proof -
    have a: "felm (fpadd1271 (fpsqr1271 t1) (fpsqr1271 t2))" using T by (simp add: fp_felm)
    show "felm t3" using fpsqr_times_spec [OF a] by (simp only: t3_def)
    have "fp_abs t3 = fp_abs (fpadd1271 (fpsqr1271 t1) (fpsqr1271 t2)) ^ 2 ^ 125"
      using fpsqr_times_spec [OF a] by (simp only: t3_def)
    also have "fp_abs (fpadd1271 (fpsqr1271 t1) (fpsqr1271 t2)) = (fp_abs t1)\<^sup>2 + (fp_abs t2)\<^sup>2"
      using T by (simp add: fp_felm fp_value)
    finally show "fp_abs t3 = ((fp_abs t1)\<^sup>2 + (fp_abs t2)\<^sup>2) ^ 2 ^ 125" .
  qed
  define s where "s = mod1271 (fpadd1271 t1 t3)"
  define t where "t = (if is_zero_ct s then fpsub1271 t1 t3 else s)"
  have t: "felm t" "fp_abs t = (if fp_abs t1 + fp_abs t3 = 0 then fp_abs t1 - fp_abs t3 else fp_abs t1 + fp_abs t3)"
    using T t3(1) by (simp_all add: t_def s_def is_zero_ct_mod fp_felm fp_value)
  define w where "w = fpadd1271 t t"
  define e where "e = fpmul1271 w (fpmul1271 t0 (fpsqr1271 t0))"
  define r where "r = fpexp1251 e"
  define q where "q = fpmul1271 t0 r"
  define x0 where "x0 = fpmul1271 w q"
  define x1 where "x1 = fpmul1271 q t2"
  have we: "felm w" "felm e" "fp_abs w = fp_abs t + fp_abs t" "fp_abs e = fp_abs w * (fp_abs t0 * (fp_abs t0)\<^sup>2)"
    using T t by (simp_all add: w_def e_def fp_felm fp_value)
  have r: "felm r" "fp_abs r = fp_abs e ^ (2 ^ 125 - 1)"
    unfolding r_def by (rule fpexp1251_spec [OF we(2)])+
  have x: "felm q" "felm x0" "felm x1" "fp_abs x0 = fp_abs w * (fp_abs t0 * fp_abs r)"
    "fp_abs x1 = (fp_abs t0 * fp_abs r) * fp_abs t2"
    using T we r(1) by (simp_all add: q_def x0_def x1_def fp_felm fp_value)
  define z where "z = mod1271 (fpsub1271 w (fpmul1271 t0 (fpsqr1271 x0)))"
  have z: "is_zero_ct z \<longleftrightarrow> fp_abs w - fp_abs t0 * (fp_abs x0)\<^sup>2 = 0"
    using T we x by (simp add: z_def is_zero_ct_mod fp_felm fp_value)
  have d: "decode_x y = (if \<not> is_zero_ct z then (mod1271 (fpcopy1271 x1), fpcopy1271 (fpcopy1271 (fpdiv1271 x0)))
      else (mod1271 (fpdiv1271 x0), x1))"
    by (simp only: decode_x_def Let_def U_def [symmetric] V_def [symmetric] t0_def [symmetric] t1_def [symmetric]
        t2_def [symmetric] t3_def [symmetric] s_def [symmetric] t_def [symmetric] w_def [symmetric] e_def [symmetric]
        r_def [symmetric] q_def [symmetric] x0_def [symmetric] x1_def [symmetric] z_def [symmetric])
      (cases "is_zero_ct z", simp_all only: not_True_eq_False not_False_eq_True if_True if_False prod.case)
  have rp: "rp = (if fp_abs w - fp_abs t0 * (fp_abs x0)\<^sup>2 \<noteq> 0 then (fp_abs x1, fp_abs x0 / 2) else (fp_abs x0 / 2, fp_abs x1))"
    by (simp only: rp_def root_pair_def Let_def T(4-6) [symmetric] t3(2) [symmetric] t(2) [symmetric] we(3) [symmetric]
        we(4) [symmetric] r(2) [symmetric] x(4,5) [symmetric])
  have idem: "mod1271 (mod1271 a) = mod1271 a" if "felm a" for a
    using that by (simp add: mod1271_eq_iff fp_felm fp_value)
  show "f2elm (decode_x y)" "mod1271 (fst (decode_x y)) = fst (decode_x y)"
    using x by (simp_all add: d f2elm_def fp_felm fpcopy1271_spec idem)
  show "fq_abs (decode_x y) = Fq (fst rp) (snd rp)"
    using x z by (simp add: d rp fq_abs_def fp_felm fp_value fpcopy1271_spec fpdiv1271_half)
qed

section \<open>Signs\<close>

text \<open>Opposite nonzero elements differ in bit 126 of their representatives.\<close>

lemma felm_top:
  assumes "felm a"
  shows "\<not> bit (a ! 1) 63" "bit (a ! 1) 62 \<longleftrightarrow> 2 ^ 126 \<le> digits_val a"
proof -
  have "length a = 2" using assms by (simp add: felm_def)
  then obtain l h where a: "a = [l, h]" by (cases a rule: list.exhaust) (auto simp: length_Suc_conv numeral_2_eq_2)
  have l: "unat l < 2 ^ 64" using unsigned_less [where 'a = nat, of l] by simp
  have v: "digits_val a = unat l + 2 ^ 64 * unat h" by (simp add: a)
  have h: "unat h < 2 ^ 63" using assms v by (simp add: felm_def)
  have b: "bit h n \<longleftrightarrow> odd (unat h div 2 ^ n)" if "n < 64" for n
    using that bit_unsigned_iff [of h n, where 'a = nat] by (simp add: bit_iff_odd [of "unat h"])
  show "\<not> bit (a ! 1) 63" using b [of 63] h by (simp add: a)
  have "bit h 62 \<longleftrightarrow> 2 ^ 62 \<le> unat h"
  proof (cases "2 ^ 62 \<le> unat h")
    case True
    then have "unat h div 2 ^ 62 = 1" using h by (simp add: div_nat_eqI)
    then show ?thesis using b [of 62] True by simp
  next
    case False
    then show ?thesis using b [of 62] by simp
  qed
  moreover have "2 ^ 62 \<le> unat h \<longleftrightarrow> (2 :: nat) ^ 126 \<le> unat l + 2 ^ 64 * unat h"
  proof
    assume "(2 :: nat) ^ 126 \<le> unat l + 2 ^ 64 * unat h"
    moreover have "(2 :: nat) ^ 126 = 2 ^ 64 * 2 ^ 62" by simp
    ultimately have "(2 :: nat) ^ 64 * 2 ^ 62 < 2 ^ 64 * (unat h + 1)" using l by (simp only: distrib_left mult_1_right)
    then show "2 ^ 62 \<le> unat h" by (simp only: mult_less_cancel1 less_Suc_eq_le Suc_eq_plus1 [symmetric])
  qed simp
  ultimately show "bit (a ! 1) 62 \<longleftrightarrow> 2 ^ 126 \<le> digits_val a" by (simp add: a)
qed

lemma felm_nonzero: "felm a \<Longrightarrow> fp_abs a \<noteq> 0 \<Longrightarrow> 0 < digits_val a \<and> digits_val a < p1271"
proof -
  assume a: "felm a" and "fp_abs a \<noteq> 0"
  then have "\<not> p1271 dvd digits_val a" by (simp only: fp_abs_def gfp_of_nat_zero simp_thms)
  then have "digits_val a \<noteq> 0" "digits_val a \<noteq> p1271" by (metis dvd_0_right, metis dvd_refl)
  moreover have "digits_val a < Suc p1271" using a by (simp add: felm_def p1271_def)
  ultimately show ?thesis by simp
qed

lemma felm_sign:
  assumes "felm a" "felm b" "fp_abs a \<noteq> 0" "fp_abs b = fp_abs a \<or> fp_abs b = - fp_abs a"
  shows "(bit (a ! 1) 62 = bit (b ! 1) 62) \<longleftrightarrow> fp_abs b = fp_abs a"
proof -
  have b0: "fp_abs b \<noteq> 0" using assms(3,4) by auto
  note na = felm_nonzero [OF assms(1,3)] and nb = felm_nonzero [OF assms(2) b0]
  show ?thesis
  proof (cases "fp_abs b = fp_abs a")
    case True
    then have "digits_val a = digits_val b" using na nb by (simp add: fp_abs_def gfp_of_nat_eq)
    then show ?thesis using True felm_top(2) [OF assms(1)] felm_top(2) [OF assms(2)] by simp
  next
    case False
    then have "fp_abs a + fp_abs b = 0" using assms(4) by auto
    then have d: "p1271 dvd digits_val a + digits_val b" unfolding fp_abs_def of_nat_add [symmetric] gfp_of_nat_zero .
    then obtain k where k: "digits_val a + digits_val b = p1271 * k" by (rule dvdE)
    then have "0 < p1271 * k" "p1271 * k < p1271 * 2" using na nb by linarith+
    then have "k = 1" by simp
    then have "digits_val a + digits_val b = 2 ^ 127 - 1" using k by (simp add: p1271_def)
    then have "(2 ^ 126 \<le> digits_val a) \<noteq> (2 ^ 126 \<le> digits_val b)" by simp linarith
    then show ?thesis using False felm_top(2) [OF assms(1)] felm_top(2) [OF assms(2)] by simp
  qed
qed

section \<open>Round trip\<close>

text \<open>The words of an encoding: the y-coordinate, and the bit of x above it.\<close>

definition sign_word :: "f2elm_t \<Rightarrow> digit" where
  "sign_word x = (if is_zero_ct (fst x) then snd x ! 1 else fst x ! 1)"

lemma f2elm_words:
  assumes "f2elm y"
  obtains l0 h0 l1 h1 where "y = ([l0, h0], [l1, h1])" "\<not> bit h1 63"
proof -
  have "length (fst y) = 2" "length (snd y) = 2" using assms by (simp_all add: f2elm_def felm_def)
  then obtain l0 h0 l1 h1 where y: "fst y = [l0, h0]" "snd y = [l1, h1]"
    by (auto simp: length_Suc_conv numeral_2_eq_2)
  show thesis using that [of l0 h0 l1 h1] y felm_top(1) [of "snd y"] assms by (cases y) (simp add: f2elm_def)
qed

lemma encode_words:
  assumes "f2elm (pa_y P)" "f2elm (pa_x P)"
  defines "w \<equiv> snd (pa_y P) ! 1 OR push_bit 1 (sign_word (pa_x P) AND mask4000)"
  shows "encode P = words_bytes (fst (pa_y P) @ (snd (pa_y P))[1 := w])"
    "w AND mask7fff = snd (pa_y P) ! 1" "bit w 63 = bit (sign_word (pa_x P)) 62"
proof -
  obtain l0 h0 l1 h1 where y: "pa_y P = ([l0, h0], [l1, h1])" "\<not> bit h1 63" using f2elm_words [OF assms(1)] .
  show "encode P = words_bytes (fst (pa_y P) @ (snd (pa_y P))[1 := w])"
    by (simp add: encode_def Let_def y(1) w_def sign_word_def eval_nat_numeral)
  have m: "bit mask7fff n \<longleftrightarrow> n < 63" for n by (auto simp: mask7fff_def bit_simps)
  have m4: "bit mask4000 n \<longleftrightarrow> n = 62" for n by (simp only: mask4000_def bit_push_bit_iff) (auto simp: bit_1_iff)
  have bw: "bit w n \<longleftrightarrow> bit h1 n \<or> n = 63 \<and> bit (sign_word (pa_x P)) 62" if "n < 64" for n
    using that unfolding w_def y(1) bit_or_iff bit_push_bit_iff bit_and_iff m4 by auto
  show "w AND mask7fff = snd (pa_y P) ! 1"
  proof (rule bit_word_eqI)
    fix n assume n: "n < LENGTH(64)"
    then show "bit (w AND mask7fff) n = bit (snd (pa_y P) ! 1) n"
      using y(2) bw [of n] unfolding bit_and_iff m by (cases "n = 63") (auto simp: y(1))
  qed
  show "bit w 63 = bit (sign_word (pa_x P)) 62" using y(2) bw [of 63] by simp
qed

lemma words_bytes_words:
  "map (\<lambda>k. le_word (take 8 (drop (8 * k) (words_bytes ws)))) [0..<length ws] = (ws :: u64 list)"
  by (rule nth_equalityI) (simp_all add: chunk_words_bytes0 le_word_le_bytes)

lemma decode_encode_start:
  assumes "f2elm (pa_y P)" "f2elm (pa_x P)"
  shows "decode_y (encode P) = pa_y P"
    "(ucast (drop_bit 7 (encode P ! 31)) :: u32) = of_bool (bit (sign_word (pa_x P)) 62)"
proof -
  define w where "w = snd (pa_y P) ! 1 OR push_bit 1 (sign_word (pa_x P) AND mask4000)"
  note e = encode_words [OF assms(1,2), folded w_def]
  obtain l0 h0 l1 h1 where y: "pa_y P = ([l0, h0], [l1, h1])" "\<not> bit h1 63" using f2elm_words [OF assms(1)] .
  have enc: "encode P = words_bytes [l0, h0, l1, w]" using e(1) by (simp add: y(1))
  define ds where "ds = map (\<lambda>k. le_word (take 8 (drop (8 * k) (encode P))) :: digit) [0..<4]"
  have ds: "ds = [l0, h0, l1, w]"
  proof -
    have "length [l0, h0, l1, w] = 4" by simp
    from words_bytes_words [of "[l0, h0, l1, w]", unfolded this] show ?thesis by (simp only: ds_def enc)
  qed
  show "decode_y (encode P) = pa_y P"
    using e(2) by (simp add: decode_y_def Let_def ds [unfolded ds_def] y(1) numeral_2_eq_2)
  have i: "31 div 8 = (3 :: nat)" "31 mod 8 = (7 :: nat)" "31 < 8 * length [l0, h0, l1, w]" "[l0, h0, l1, w] ! 3 = w"
    by simp_all
  have "encode P ! 31 = le_bytes 8 w ! 7" unfolding enc nth_words_bytes [OF i(3)] i(1,2,4) ..
  moreover have "bit (le_bytes 8 w ! 7) (7 + n) \<longleftrightarrow> n = 0 \<and> bit w 63" for n
    by (cases n) (simp_all add: bit_le_bytes)
  ultimately have "(ucast (drop_bit 7 (encode P ! 31)) :: u32) = of_bool (bit w 63)"
    by (intro bit_word_eqI) (simp only: bit_ucast_iff bit_drop_bit_eq o_def bit_of_bool_iff, auto)
  then show "(ucast (drop_bit 7 (encode P ! 31)) :: u32) = of_bool (bit (sign_word (pa_x P)) 62)"
    unfolding e(3) .
qed

lemma sign_dec_bit:
  assumes "f2elm x"
  shows "(ucast (drop_bit (64 - 2) (sign_word x)) :: u32) = of_bool (bit (sign_word x) 62)"
proof -
  have "\<not> bit (sign_word x) 63" using assms felm_top(1) by (simp add: sign_word_def f2elm_def)
  then have b: "bit (sign_word x) (62 + n) \<longleftrightarrow> n = 0 \<and> bit (sign_word x) 62" for n
    using bit_imp_le_length [of "sign_word x" "62 + n"] by (cases n; cases "n - 1") auto
  show ?thesis by (rule bit_word_eqI) (auto simp: bit_simps b)
qed

text \<open>The curve equation as an equation for the square of x.\<close>

lemma on_curve_square: "on_curve (x, y) \<longleftrightarrow> x\<^sup>2 * (y\<^sup>2 * curve_d + 1) = y\<^sup>2 - 1"
  unfolding on_curve_def prod.case by (rule iffI; algebra)

lemma on_curve_denominator:
  assumes "on_curve (x, y)"
  shows "y\<^sup>2 * curve_d + 1 \<noteq> 0"
proof
  assume z: "y\<^sup>2 * curve_d + 1 = 0"
  then have "y\<^sup>2 = 1" using assms unfolding on_curve_square by simp
  then have "curve_d = - 1" using z by (simp add: eq_neg_iff_add_eq_0)
  moreover have "(Fq 0 1)\<^sup>2 = - 1" by (simp add: power2_eq_square fq_eq_iff)
  ultimately show False using curve_d_nonsquare by metis
qed

lemma decode_x_root:
  assumes "f2elm y" "on_curve (x, fq_abs y)"
  shows "fp_abs (fst (decode_x y)) = fq_re x \<or> fp_abs (fst (decode_x y)) = - fq_re x"
    "fp_abs (snd (decode_x y)) = fq_im x \<or> fp_abs (snd (decode_x y)) = - fq_im x"
proof -
  define u where "u = (fq_abs y)\<^sup>2 - 1"
  define v where "v = (fq_abs y)\<^sup>2 * curve_d + 1"
  have u: "u = x\<^sup>2 * v" using assms(2) by (simp add: on_curve_square u_def v_def)
  have n: "fq_norm v \<noteq> 0" using on_curve_denominator [OF assms(2)] by (simp add: v_def fq_norm_zero)
  have "fq_re u = ((fq_re x)\<^sup>2 - (fq_im x)\<^sup>2) * fq_re v - 2 * fq_re x * fq_im x * fq_im v"
    "fq_im u = ((fq_re x)\<^sup>2 - (fq_im x)\<^sup>2) * fq_im v + 2 * fq_re x * fq_im x * fq_re v"
    by (simp_all add: u power2_eq_square algebra_simps)
  then have "fq_re u * fq_re v + fq_im u * fq_im v = fq_norm v * ((fq_re x)\<^sup>2 - (fq_im x)\<^sup>2)"
    "fq_im u * fq_re v - fq_re u * fq_im v = fq_norm v * (2 * fq_re x * fq_im x)"
    unfolding fq_norm_def by algebra+
  note r = root_pair_spec [OF n this]
  have "fp_abs (fst (decode_x y)) = fst (root_pair (fq_norm v) (fq_re u * fq_re v + fq_im u * fq_im v) (fq_im u * fq_re v - fq_re u * fq_im v))"
    "fp_abs (snd (decode_x y)) = snd (root_pair (fq_norm v) (fq_re u * fq_re v + fq_im u * fq_im v) (fq_im u * fq_re v - fq_re u * fq_im v))"
    using decode_x_spec(2) [OF assms(1)] by (simp_all add: fq_abs_def u_def v_def)
  then show "fp_abs (fst (decode_x y)) = fq_re x \<or> fp_abs (fst (decode_x y)) = - fq_re x"
    "fp_abs (snd (decode_x y)) = fq_im x \<or> fp_abs (snd (decode_x y)) = - fq_im x"
    using r by (simp_all only:)
qed

text \<open>The correction of the sign: the real part gets the sign of the encoded point, or the imaginary part when it is 0.\<close>

definition fix_sign :: "bool \<Rightarrow> f2elm_t \<Rightarrow> f2elm_t" where
  "fix_sign s x = (if s \<noteq> bit (sign_word x) 62 then fp2neg1271 x else x)"

lemma fix_sign_spec:
  assumes "f2elm x" "mod1271 (fst x) = fst x" "f2elm q" "mod1271 (fst q) = fst q"
    and "fp_abs (fst q) = fp_abs (fst x) \<or> fp_abs (fst q) = - fp_abs (fst x)"
    and "fp_abs (snd q) = fp_abs (snd x) \<or> fp_abs (snd q) = - fp_abs (snd x)"
  defines "r \<equiv> fix_sign (bit (sign_word x) 62) q"
  shows "f2elm r" "fp_abs (fst r) = fp_abs (fst x)"
    "fp_abs (snd r) = fp_abs (snd x) \<or> fp_abs (fst x) \<noteq> 0 \<and> fp_abs (snd r) = - fp_abs (snd x)"
proof -
  have v: "felm (fst x)" "felm (snd x)" "felm (fst q)" "felm (snd q)" using assms(1,3) by (simp_all add: f2elm_def)
  have zx: "is_zero_ct (fst x) \<longleftrightarrow> fp_abs (fst x) = 0" and zq: "is_zero_ct (fst q) \<longleftrightarrow> fp_abs (fst q) = 0"
    using is_zero_ct_mod [OF v(1)] is_zero_ct_mod [OF v(3)] assms(2,4) by simp_all
  show "f2elm r" using assms(3) by (simp add: r_def fix_sign_def fp2)
  have "fp_abs (fst r) = fp_abs (fst x) \<and>
    (fp_abs (snd r) = fp_abs (snd x) \<or> fp_abs (fst x) \<noteq> 0 \<and> fp_abs (snd r) = - fp_abs (snd x))"
  proof (cases "fp_abs (fst x) = 0")
    case False
    then have "(bit (sign_word x) 62 = bit (sign_word q) 62) \<longleftrightarrow> fp_abs (fst q) = fp_abs (fst x)"
      using felm_sign [OF v(1,3) False assms(5)] zx zq assms(5) by (auto simp: sign_word_def)
    then show ?thesis
      using False assms(5,6) v by (auto simp: r_def fix_sign_def fp2neg1271_def fp_value)
  next
    case True
    then have q: "fp_abs (fst q) = 0" using assms(5) by auto
    show ?thesis
    proof (cases "fp_abs (snd x) = 0")
      case z: False
      have "(bit (sign_word x) 62 = bit (sign_word q) 62) \<longleftrightarrow> fp_abs (snd q) = fp_abs (snd x)"
        using felm_sign [OF v(2,4) z assms(6)] zx zq True q by (simp add: sign_word_def)
      then show ?thesis
        using True q assms(6) v by (auto simp: r_def fix_sign_def fp2neg1271_def fp_value)
    next
      case z: True
      then show ?thesis
        using True q assms(6) v by (auto simp: r_def fix_sign_def fp2neg1271_def fp_value)
    qed
  qed
  then show "fp_abs (fst r) = fp_abs (fst x)"
    "fp_abs (snd r) = fp_abs (snd x) \<or> fp_abs (fst x) \<noteq> 0 \<and> fp_abs (snd r) = - fp_abs (snd x)" by blast+
qed

text \<open>\<open>decode\<close> in terms of its steps.\<close>

definition decode_finish :: "f2elm_t \<Rightarrow> f2elm_t \<Rightarrow> eccrypto_status \<times> point_affine" where
  "decode_finish x y =
     (if ecc_point_validate (point_setup \<lparr>pa_x = x, pa_y = y\<rparr>) then (ECCRYPTO_SUCCESS, \<lparr>pa_x = x, pa_y = y\<rparr>)
      else let x' = (fst x, fpneg1271 (snd x)) in
        (if ecc_point_validate (point_setup \<lparr>pa_x = x', pa_y = y\<rparr>) then ECCRYPTO_SUCCESS else ECCRYPTO_ERROR,
         \<lparr>pa_x = x', pa_y = y\<rparr>))"

lemma validate_setup:
  assumes "f2elm x" "f2elm y"
  shows "ecc_point_validate (point_setup \<lparr>pa_x = x, pa_y = y\<rparr>) \<longleftrightarrow> on_curve (fq_abs x, fq_abs y)"
proof -
  have "pe_x (point_setup \<lparr>pa_x = x, pa_y = y\<rparr>) = x" "pe_y (point_setup \<lparr>pa_x = x, pa_y = y\<rparr>) = y"
    using assms by (simp_all add: point_setup_def Let_def fp2)
  then show ?thesis using ecc_point_validate_spec [of "point_setup \<lparr>pa_x = x, pa_y = y\<rparr>"] assms by simp
qed

lemma conj_valid: "f2elm x \<Longrightarrow> f2elm (fst x, fpneg1271 (snd x))"
  by (simp add: f2elm_def fp_felm)

lemma decode_finish:
  assumes "f2elm x" "f2elm y"
  shows "(let P = \<lparr>pa_x = x, pa_y = y\<rparr>; R = point_setup P
    in if \<not> ecc_point_validate R then
         let R = R\<lparr>pe_x := (fst (pe_x R), fpneg1271 (snd (pe_x R)))\<rparr>;
             P = P\<lparr>pa_x := (fst (pa_x P), fpcopy1271 (snd (pe_x R)))\<rparr>
         in if \<not> ecc_point_validate R then (ECCRYPTO_ERROR, P) else (ECCRYPTO_SUCCESS, P)
       else (ECCRYPTO_SUCCESS, P)) = decode_finish x y"
proof -
  let ?x' = "(fst x, fpneg1271 (snd x))" and ?R = "point_setup \<lparr>pa_x = x, pa_y = y\<rparr>"
  have R: "pe_x ?R = x" "pe_y ?R = y" using assms by (simp_all add: point_setup_def Let_def fp2)
  have c: "fpcopy1271 (fpneg1271 (snd x)) = fpneg1271 (snd x)"
    using assms(1) by (simp add: f2elm_def fpcopy1271_spec fp_felm)
  have v: "ecc_point_validate (?R\<lparr>pe_x := ?x'\<rparr>) \<longleftrightarrow> ecc_point_validate (point_setup \<lparr>pa_x = ?x', pa_y = y\<rparr>)"
    using validate_setup [OF conj_valid [OF assms(1)] assms(2)] ecc_point_validate_spec [of "?R\<lparr>pe_x := ?x'\<rparr>"]
      conj_valid [OF assms(1)] assms(2) R by simp
  show ?thesis by (simp add: decode_finish_def Let_def R v c)
qed

lemma decode_steps:
  assumes "f2elm (decode_y b)"
  shows "\<exists>s. decode b = decode_finish (fix_sign s (decode_x (decode_y b))) (decode_y b) \<and>
    (\<forall>t. (ucast (drop_bit 7 (b ! 31)) :: u32) = of_bool t \<longrightarrow> s = t)"
proof -
  define x where "x = decode_x (decode_y b)"
  define sg where "sg = (ucast (drop_bit 7 (b ! 31)) :: u32)"
  have x: "f2elm x" using decode_x_spec(1) [OF assms] by (simp add: x_def)
  have dec: "ucast (if is_zero_ct (fst x) then drop_bit (64 - 2) (snd x ! 1) else drop_bit (64 - 2) (fst x ! 1)) =
      (of_bool (bit (sign_word x) 62) :: u32)"
    using sign_dec_bit [OF x] by (simp add: sign_word_def split: if_splits)
  have sg: "sg = 0 \<or> sg = 1"
  proof -
    have "unat (drop_bit 7 (b ! 31)) = unat (b ! 31) div 2 ^ 7"
      by (simp only: unat_drop_bit_eq) (simp only: drop_bit_eq_div)
    moreover have "unat (b ! 31) < 256" using unsigned_less [where 'a = nat, of "b ! 31"] by simp
    ultimately have "unat (drop_bit 7 (b ! 31)) < 2" by simp
    then have "unat sg < 2" by (simp add: sg_def unsigned_ucast_eq take_bit_eq_mod)
    then show ?thesis by (auto simp: less_2_cases_iff word_unat_eq_iff)
  qed
  then have fixs: "(if sg \<noteq> of_bool (bit (sign_word x) 62) then fp2neg1271 x else x) = fix_sign (sg = 1) x"
    by (auto simp: fix_sign_def)
  have "f2elm (fix_sign (sg = 1) x)" using x by (simp add: fix_sign_def fp2)
  note fin = decode_finish [OF this assms]
  have "decode b = decode_finish (fix_sign (sg = 1) x) (decode_y b)"
    unfolding decode_def Let_def x_def [symmetric] sg_def [symmetric] dec fixs
    using fin unfolding Let_def .
  moreover have "sg = of_bool t \<longrightarrow> (sg = 1) = t" for t by (cases t) auto
  ultimately show ?thesis unfolding x_def sg_def by blast
qed

text \<open>The two parts of the y-coordinate that is read; the second part is always below \<open>2\<^sup>1\<^sup>2\<^sup>7\<close>.\<close>

lemma digits_val_two: "\<not> bit h 63 \<Longrightarrow> felm [l, h]" for l h :: digit
proof -
  assume "\<not> bit h 63"
  then have "h = take_bit 63 h" by (intro bit_word_eqI) (auto simp: bit_simps less_Suc_eq [of _ 63, simplified])
  then have "unat h = take_bit 63 (unat h)" by (metis unsigned_take_bit_eq)
  then have "unat h < 2 ^ 63" by (metis take_bit_nat_less_exp)
  moreover have "unat l < 2 ^ 64" using unsigned_less [where 'a = nat, of l] by simp
  ultimately have "unat l + 2 ^ 64 * unat h < 2 ^ 64 + 2 ^ 64 * (2 ^ 63 - 1)"
    by (intro add_less_le_mono mult_le_mono2) simp_all
  then show "felm [l, h]" by (simp add: felm_def)
qed

lemma decode_y_valid:
  assumes "length b = 32" "\<not> bit (b ! 15) 7"
  shows "f2elm (decode_y b)"
proof -
  let ?w = "\<lambda>k. le_word (take 8 (drop (8 * k) b)) :: digit"
  have e: "[0..<4] = [0, 1, 2, 3 :: nat]" by (simp add: upt_rec)
  have y: "decode_y b = ([?w 0, ?w 1], [?w 2, ?w 3 AND mask7fff])"
    unfolding decode_y_def Let_def e by (simp add: numeral_2_eq_2)
  have "\<not> bit (?w 1) 63" using assms by (simp add: bit_le_word nth_append)
  moreover have "\<not> bit (?w 3 AND mask7fff) 63" by (simp add: mask7fff_def bit_simps)
  ultimately show ?thesis unfolding y f2elm_def fst_conv snd_conv by (intro conjI digits_val_two)
qed

text \<open>
  A point that is accepted lies on the curve, for every encoding whose y-coordinate has two parts
  below \<open>2\<^sup>1\<^sup>2\<^sup>7\<close>. \<open>decode\<close> clears the top bit of the second part, where the sign was; it does not check
  the top bit of the first part.
\<close>

lemma decode_sound:
  assumes "decode b = (ECCRYPTO_SUCCESS, P)" "f2elm (decode_y b)"
  shows "aff_valid P" "on_curve (aff_point P)"
proof -
  obtain s where s: "decode b = decode_finish (fix_sign s (decode_x (decode_y b))) (decode_y b)"
    using decode_steps [OF assms(2)] by blast
  define x where "x = fix_sign s (decode_x (decode_y b))"
  have x: "f2elm x" using decode_x_spec(1) [OF assms(2)] by (simp add: x_def fix_sign_def fp2)
  note v = validate_setup [OF _ assms(2)]
  have d: "decode_finish x (decode_y b) = (ECCRYPTO_SUCCESS, P)" using s assms(1) by (simp add: x_def)
  show "aff_valid P" "on_curve (aff_point P)"
    using d v [OF x] v [OF conj_valid [OF x]] x conj_valid [OF x] assms(2)
    by (auto simp: decode_finish_def Let_def aff_valid_def aff_point_def split: if_splits)
qed

text \<open>Every point of the curve with reduced coordinates comes back from its encoding.\<close>

lemma decode_encode:
  assumes "aff_valid P" "on_curve (aff_point P)" "fp2mod (pa_x P) = pa_x P"
  shows "\<exists>Q. decode (encode P) = (ECCRYPTO_SUCCESS, Q) \<and> aff_valid Q \<and> pa_y Q = pa_y P \<and> aff_point Q = aff_point P"
proof -
  have f: "f2elm (pa_x P)" "f2elm (pa_y P)" using assms(1) by (simp_all add: aff_valid_def)
  note st = decode_encode_start [OF f(2,1)]
  have m: "mod1271 (fst (pa_x P)) = fst (pa_x P)" using assms(3) by (metis fp2mod_def fst_conv)
  define q where "q = decode_x (pa_y P)"
  define x where "x = fix_sign (bit (sign_word (pa_x P)) 62) q"
  have c: "on_curve (fq_abs (pa_x P), fq_abs (pa_y P))" using assms(2) by (simp add: aff_point_def)
  have dec: "decode (encode P) = decode_finish x (pa_y P)"
    using decode_steps [of "encode P"] f(2) st by (auto simp: x_def q_def)
  note q = decode_x_spec(1,3) [OF f(2), folded q_def] decode_x_root [OF f(2) c, folded q_def]
  have x: "f2elm x" "fp_abs (fst x) = fp_abs (fst (pa_x P))"
    "fp_abs (snd x) = fp_abs (snd (pa_x P)) \<or>
      fp_abs (fst (pa_x P)) \<noteq> 0 \<and> fp_abs (snd x) = - fp_abs (snd (pa_x P))"
    using fix_sign_spec [OF f(1) m q(1,2)] q(3,4) by (simp_all add: x_def fq_abs_def)
  show ?thesis
  proof (cases "fp_abs (snd x) = fp_abs (snd (pa_x P))")
    case True
    then have "fq_abs x = fq_abs (pa_x P)" using x(2) by (simp add: fq_abs_def)
    then show ?thesis
      using validate_setup [OF x(1) f(2)] c x(1) f(2)
      by (simp add: dec decode_finish_def aff_valid_def aff_point_def)
  next
    case False
    define x' where "x' = (fst x, fpneg1271 (snd x))"
    have n: "fp_abs (fst (pa_x P)) \<noteq> 0" "fp_abs (snd x) = - fp_abs (snd (pa_x P))" using x(3) False by blast+
    have x': "f2elm x'" "fq_abs x' = fq_abs (pa_x P)"
      using x n conj_valid [OF x(1)] by (simp_all add: x'_def fq_abs_def f2elm_def fp_value)
    have "\<not> on_curve (fq_abs x, fq_abs (pa_y P))"
    proof
      assume "on_curve (fq_abs x, fq_abs (pa_y P))"
      then have "(fq_abs x)\<^sup>2 = (fq_abs (pa_x P))\<^sup>2"
        using c on_curve_denominator [OF c] mult_right_cancel unfolding on_curve_square by metis
      then have "fq_im ((fq_abs x)\<^sup>2) = fq_im ((fq_abs (pa_x P))\<^sup>2)" by simp
      then have "2 * (2 * (fp_abs (fst (pa_x P)) * fp_abs (snd (pa_x P)))) = 0"
        using x(2) n(2) by (simp add: fq_abs_def power2_eq_square)
      then have "fp_abs (snd (pa_x P)) = 0" using n(1) gfp_two by (simp only: mult_eq_0_iff simp_thms)
      then show False using False n(2) by simp
    qed
    then show ?thesis
      using validate_setup [OF x(1) f(2)] validate_setup [OF x'(1) f(2)] c x' f(2)
      by (simp add: dec decode_finish_def Let_def aff_valid_def aff_point_def flip: x'_def)
  qed
qed

end
