(* ===== verification/FourQ_Recode.thy ===== *)
theory FourQ_Recode
  imports FourQ_Scalar
begin

text \<open>
  Recodings of scalars for the scalar multiplications of FourQ: the signed fixed windows of
  \<open>oZKS/fourq/eccp2_no_endo.c\<close>, the modified LSB-set comb and the width-w NAF of
  \<open>oZKS/fourq/eccp2_core.c\<close>. The functions overwrite the scalar they read; the models pass it along.
  The lemmas give the value the digits of a recoding stand for, and their bounds.
\<close>

section \<open>Fixed windows\<close>

abbreviation (input) W_VARBASE :: nat where "W_VARBASE \<equiv> 5"

definition t_VARBASE :: nat where
  "t_VARBASE = (246 + 1 + W_VARBASE - 2) div (W_VARBASE - 1)"

fun borrow_loop :: "digit \<Rightarrow> digit list \<Rightarrow> digit list" where
  "borrow_loop borrow [] = []"
| "borrow_loop borrow (res # ds) = (res - borrow) # borrow_loop (is_digit_lessthan_ct res borrow) ds"

text \<open>One round: the digit with its sign mask, and the scalar that is left.\<close>

definition fixed_window_step :: "digit list \<Rightarrow> (u32 \<times> u32) \<times> digit list" where
  "fixed_window_step scalar =
     (let val1 = push_bit W_VARBASE 1 - 1; val2 = push_bit (W_VARBASE - 1) 1;
          temp = (scalar ! 0 AND val1) - val2;
          sign_mask = NOT (ucast (signed_drop_bit 63 temp));
          digit = drop_bit 1 ((sign_mask AND ucast (temp XOR - temp)) XOR ucast (- temp));
          res = scalar ! 0 - temp;
          borrow = (signed_drop_bit 63 temp - 1) AND is_digit_lessthan_ct (scalar ! 0) temp;
          scalar = res # borrow_loop borrow (tl scalar)
      in ((digit, sign_mask), mp_shiftr (W_VARBASE - 1) scalar))"

fun fixed_window_loop :: "nat \<Rightarrow> digit list \<Rightarrow> (u32 \<times> u32) list \<times> digit list" where
  "fixed_window_loop 0 scalar = ([], scalar)"
| "fixed_window_loop (Suc n) scalar =
     (let (d, scalar) = fixed_window_step scalar; (ds, scalar) = fixed_window_loop n scalar
      in (d # ds, scalar))"

text \<open>The arrays \<open>digits\<close> and \<open>sign_masks\<close>, as a list of pairs.\<close>

definition fixed_window_recode :: "digit list \<Rightarrow> (u32 \<times> u32) list" where
  "fixed_window_recode scalar =
     (let (ds, scalar) = fixed_window_loop t_VARBASE scalar;
          sign_mask = NOT (ucast (drop_bit 63 (scalar ! 0)));
          digit = drop_bit 1 ((sign_mask AND ucast (scalar ! 0 XOR (0 - scalar ! 0))) XOR ucast (0 - scalar ! 0))
      in ds @ [(digit, sign_mask)])"

text \<open>The odd number a digit and its mask stand for.\<close>

definition window_value :: "u32 \<times> u32 \<Rightarrow> int" where
  "window_value dm = (if snd dm = 0 then - 1 else 1) * (2 * int (unat (fst dm)) + 1)"

lemma sign_bit_word: "signed_drop_bit 63 (x :: digit) = (if bit x 63 then - 1 else 0)"
  by (rule bit_word_eqI) (auto simp: bit_signed_drop_bit_iff not_less_eq_eq)

lemma xor_cancel: "((x :: u32) XOR y) XOR y = x"
  by (simp add: xor.assoc)

lemma unat_ucast32: "unat (ucast (t :: digit) :: u32) = unat t mod 2 ^ 32"
  by (simp add: unsigned_ucast_eq take_bit_eq_mod)

lemma unat_half: "unat (drop_bit 1 (x :: u32)) = unat x div 2"
  by (simp only: unat_drop_bit_eq) (simp only: drop_bit_eq_div power_one_right)

text \<open>The branchless absolute value, halved, of a small number \<open>n\<close> and of \<open>- n\<close>.\<close>

definition window_digit :: "digit \<Rightarrow> u32 \<times> u32" where
  "window_digit t =
     (let m = NOT (ucast (signed_drop_bit 63 t))
      in (drop_bit 1 ((m AND ucast (t XOR - t)) XOR ucast (- t)), m))"

lemma window_digit_pos:
  assumes "n < 2 ^ 31"
  shows "snd (window_digit (of_nat n)) = - 1" "unat (fst (window_digit (of_nat n))) = n div 2"
proof -
  let ?t = "of_nat n :: digit"
  have u: "unat ?t = n" using assms by (simp add: unat_of_nat)
  have "\<not> bit ?t 63" using assms by (simp add: bit_63 u)
  then have s: "signed_drop_bit 63 ?t = 0" by (simp add: sign_bit_word)
  then show m: "snd (window_digit ?t) = - 1" by (simp add: window_digit_def Let_def)
  have "fst (window_digit ?t) = drop_bit 1 (ucast ?t)"
  proof -
    have "(NOT (ucast (0 :: digit)) AND ucast (?t XOR - ?t)) XOR ucast (- ?t) = (ucast ?t :: u32)"
      by (simp add: unsigned_xor_eq xor_cancel)
    then show ?thesis by (simp only: window_digit_def Let_def s fst_conv)
  qed
  then show "unat (fst (window_digit ?t)) = n div 2" using assms by (simp only: unat_half unat_ucast32 u) simp
qed

lemma window_digit_neg:
  assumes "0 < n" "n < 2 ^ 31"
  shows "snd (window_digit (- of_nat n)) = 0" "unat (fst (window_digit (- of_nat n))) = n div 2"
proof -
  let ?t = "- of_nat n :: digit"
  have u: "unat (of_nat n :: digit) = n" using assms by (simp add: unat_of_nat)
  have "unat ?t = 2 ^ 64 - n" using unat_sub_digit [of 0 "of_nat n"] assms by (simp add: u)
  then have "bit ?t 63" using assms by (simp add: bit_63)
  then have s: "signed_drop_bit 63 ?t = - 1" by (simp add: sign_bit_word)
  have m1: "ucast (- 1 :: digit) = (- 1 :: u32)"
    by (rule bit_word_eqI) (simp add: bit_simps)
  show "snd (window_digit ?t) = 0" by (simp only: window_digit_def Let_def s m1) simp
  have "fst (window_digit ?t) = drop_bit 1 (ucast (of_nat n :: digit))"
    by (simp only: window_digit_def Let_def s m1) simp
  then show "unat (fst (window_digit ?t)) = n div 2" using assms by (simp only: unat_half unat_ucast32 u) simp
qed

text \<open>One round takes an odd scalar \<open>k\<close> to \<open>2 (k div 32) + 1\<close>.\<close>

lemma borrow_loop_zero: "borrow_loop 0 ds = ds"
  by (induction ds) (simp_all add: digit_lessthan)

lemma window_value_digit:
  assumes "t = (if n < m then - of_nat (m - n) else of_nat (n - m))" "n < 2 ^ 31" "m < 2 ^ 31" "odd (int n - int m)"
  shows "window_value (window_digit t) = int n - int m"
proof (cases "n < m")
  case True
  have "odd (m - n)" using assms(4) True by (metis even_minus minus_diff_eq of_nat_diff even_of_nat less_imp_le)
  then have e: "2 * int ((m - n) div 2) + 1 = int (m - n)" by (metis odd_two_times_div_two_succ of_nat_mult of_nat_numeral of_nat_1 of_nat_add)
  have "snd (window_digit t) = 0" "unat (fst (window_digit t)) = (m - n) div 2"
    using window_digit_neg [of "m - n"] True assms(1,3) by simp_all
  then have "window_value (window_digit t) = - (2 * int ((m - n) div 2) + 1)"
    by (simp only: window_value_def if_True refl mult_minus1)
  then show ?thesis unfolding e using True by simp
next
  case False
  have "odd (n - m)" using assms(4) False by (metis of_nat_diff even_of_nat not_less)
  then have e: "2 * int ((n - m) div 2) + 1 = int (n - m)" by (metis odd_two_times_div_two_succ of_nat_mult of_nat_numeral of_nat_1 of_nat_add)
  have "snd (window_digit t) = - 1" "unat (fst (window_digit t)) = (n - m) div 2"
    using window_digit_pos [of "n - m"] False assms(1,2) by simp_all
  then have "window_value (window_digit t) = 2 * int ((n - m) div 2) + 1"
    by (simp add: window_value_def)
  then show ?thesis unfolding e using False by simp
qed

lemma small_digit: "k < 2 ^ 31 \<Longrightarrow> unat (of_nat k :: digit) = k"
  by (simp add: unat_of_nat)

lemma fixed_window_step_spec:
  assumes "is_scalar s" "odd (digits_val s)" "fixed_window_step s = (d, s')"
  shows "int (digits_val s) = window_value d + 16 * int (digits_val s')" "is_scalar s'"
    "digits_val s' = 2 * (digits_val s div 32) + 1" "unat (fst d) < 8" "snd d = 0 \<or> snd d = - 1"
proof -
  obtain s0 ss where s: "s = s0 # ss" "length ss = 3" using assms(1) by (cases s) (simp_all add: is_scalar_def)
  define n where "n = unat s0 mod 32"
  define t where "t = (s0 AND 31) - 16"
  have n: "unat (s0 AND 31) = n" "n < 32"
  proof -
    have m: "s0 AND 31 = take_bit 5 s0" by (simp add: take_bit_eq_mask mask_eq_exp_minus_1)
    have "unat (take_bit 5 s0) = take_bit 5 (unat s0)" by (rule unsigned_take_bit_eq)
    also have "\<dots> = n" by (simp add: take_bit_eq_mod n_def)
    finally show "unat (s0 AND 31) = n" unfolding m .
  qed (simp add: n_def)
  have t: "t = (if n < 16 then - of_nat (16 - n) else of_nat (n - 16))"
  proof -
    have "unat (of_nat n :: digit) = n" using n(2) by (simp add: unat_of_nat)
    then have "s0 AND 31 = of_nat n" using n(1) by (simp add: word_unat_eq_iff)
    then have "t = of_nat n - 16" by (simp only: t_def)
    then show ?thesis by (simp add: of_nat_diff)
  qed
  have low: "even n \<longleftrightarrow> even (digits_val s)" by (simp add: n_def s dvd_mod_iff)
  have small: "n < 2 ^ 31" using n(2) by simp
  have t_pos: "t = of_nat (n - 16)" if "16 \<le> n" using t that by simp
  have t_neg: "t = - of_nat (16 - n)" if "n < 16" using t that by simp
  have q: "unat s0 = 32 * (unat s0 div 32) + n" by (simp add: n_def)
  have qb: "unat s0 div 32 < 2 ^ 59" using digit_less [of s0] by (simp add: less_mult_imp_div_less)
  have res: "unat (s0 - t) = 32 * (unat s0 div 32) + 16"
  proof (cases "n < 16")
    case True
    define m where "m = 16 - n"
    have m: "n + m = 16" using True by (simp add: m_def)
    have "unat (of_nat m :: digit) = m" using m by (simp add: unat_of_nat)
    moreover have e: "s0 - t = s0 + of_nat m" using t_neg [OF True, folded m_def] by simp
    ultimately show ?thesis unfolding e using q qb m unat_add_digit [of s0 "of_nat m"] by (simp split: if_splits)
  next
    case False
    then have "unat t = n - 16" using small by (simp only: t_pos not_less) (simp add: small_digit del: of_nat_diff)
    then show ?thesis using q False unat_sub_digit [of s0 t] by (simp split: if_splits)
  qed
  have borrow: "(signed_drop_bit 63 t - 1) AND is_digit_lessthan_ct s0 t = 0"
  proof (cases "n < 16")
    case True
    define m where "m = 16 - n"
    have m: "n + m = 16" "0 < m" using True by (simp_all add: m_def)
    have "unat (of_nat m :: digit) = m" using m by (simp add: unat_of_nat)
    then have "unat t = 2 ^ 64 - m" using t_neg [OF True, folded m_def] unat_sub_digit [of 0 "of_nat m"] m by simp
    then have "bit t 63" using m by (simp add: bit_63)
    moreover have "(- 2 :: digit) AND of_bool b = 0" for b by (cases b) simp_all
    ultimately show ?thesis by (simp add: sign_bit_word digit_lessthan)
  next
    case False
    then have "unat t = n - 16" using small by (simp only: t_pos not_less) (simp add: small_digit del: of_nat_diff)
    moreover have "n \<le> unat s0" by (simp add: n_def)
    ultimately have "\<not> unat s0 < unat t" by simp
    then show ?thesis by (simp add: digit_lessthan)
  qed
  have step: "fixed_window_step s = (window_digit t, mp_shiftr 4 ((s0 - t) # ss))"
  proof -
    have c: "push_bit 5 1 - 1 = (31 :: digit)" "push_bit 4 1 = (16 :: digit)" "(5 :: nat) - 1 = 4"
      by (simp_all add: push_bit_eq_mult)
    show ?thesis
      unfolding fixed_window_step_def Let_def c window_digit_def
      by (simp only: s nth_Cons_0 list.sel t_def [symmetric] borrow borrow_loop_zero)
  qed
  then have d: "d = window_digit t" and s': "s' = mp_shiftr 4 ((s0 - t) # ss)" using assms(3) by simp_all
  define V where "V = digits_val ss"
  have vs: "digits_val s = 32 * (unat s0 div 32) + n + 2 ^ 64 * V" using q by (simp add: s V_def)
  have v': "digits_val s' = (32 * (unat s0 div 32) + 16 + 2 ^ 64 * V) div 16"
    by (simp add: s' mp_shiftr_spec res V_def)
  have 1: "digits_val s' = 2 * (unat s0 div 32) + 1 + 2 ^ 60 * V" unfolding v' by simp
  have 2: "digits_val s div 32 = unat s0 div 32 + 2 ^ 59 * V" unfolding vs using n(2) by simp
  show "digits_val s' = 2 * (digits_val s div 32) + 1" unfolding 1 2 by simp
  have odd: "odd (int n - int 16)" using low assms(2) by simp
  have w: "window_value d = int n - int 16"
    unfolding d by (rule window_value_digit [OF t small _ odd]) simp
  show "int (digits_val s) = window_value d + 16 * int (digits_val s')" unfolding w 1 vs by simp
  show "is_scalar s'" using s by (simp add: s' is_scalar_def)
  have "unat (fst d) < 8 \<and> (snd d = 0 \<or> snd d = - 1)"
  proof (cases "n < 16")
    case True
    moreover have "n \<noteq> 0" using low assms(2) by (metis even_zero)
    ultimately show ?thesis using window_digit_neg [of "16 - n"] unfolding d t_neg [OF True] by simp
  next
    case False
    then show ?thesis using window_digit_pos [of "n - 16"] n(2) t_pos unfolding d by simp
  qed
  then show "unat (fst d) < 8" "snd d = 0 \<or> snd d = - 1" by blast+
qed

lemma fixed_window_loop_spec:
  "is_scalar s \<Longrightarrow> odd (digits_val s) \<Longrightarrow> fixed_window_loop n s = (ds, s') \<Longrightarrow>
    int (digits_val s) = horner_sum window_value 16 ds + 16 ^ n * int (digits_val s') \<and> length ds = n \<and>
    is_scalar s' \<and> digits_val s' = 2 * (digits_val s div (2 * 16 ^ n)) + 1 \<and>
    (\<forall>d\<in>set ds. unat (fst d) < 8 \<and> (snd d = 0 \<or> snd d = - 1))"
proof (induction n arbitrary: s ds s')
  case 0
  then show ?case by simp
next
  case (Suc n)
  obtain d t where st: "fixed_window_step s = (d, t)" by (metis surj_pair)
  obtain es u where lp: "fixed_window_loop n t = (es, u)" by (metis surj_pair)
  have r: "ds = d # es" "s' = u" using Suc.prems(3) by (simp_all add: st lp)
  note step = fixed_window_step_spec [OF Suc.prems(1,2) st]
  have odd: "odd (digits_val t)" unfolding step(3) by simp
  note ih = Suc.IH [OF step(2) odd lp]
  have "digits_val t div (2 * 16 ^ n) = digits_val s div (2 * 16 ^ Suc n)"
  proof -
    have "digits_val t div (2 * 16 ^ n) = digits_val t div 2 div 16 ^ n" by (simp add: div_mult2_eq)
    also have "digits_val t div 2 = digits_val s div 32" unfolding step(3) by simp
    also have "\<dots> div 16 ^ n = digits_val s div (2 * 16 ^ Suc n)" by (simp add: div_mult2_eq [symmetric])
    finally show ?thesis .
  qed
  then show ?case using ih step(1,4,5) by (auto simp: r algebra_simps)
qed

text \<open>
  The recoding: 63 digits whose signed values, weighted by the powers of 16, give the scalar; the
  top digit is 1.
\<close>

lemma t_VARBASE: "t_VARBASE = 62"
  by (simp add: t_VARBASE_def)

lemma fixed_window_recode_spec:
  assumes "is_scalar s" "odd (digits_val s)" "digits_val s < 2 ^ 249"
  shows "int (digits_val s) = horner_sum window_value 16 (fixed_window_recode s)"
    "length (fixed_window_recode s) = 63" "fixed_window_recode s ! 62 = (0, - 1)"
    "\<forall>d\<in>set (fixed_window_recode s). unat (fst d) < 8 \<and> (snd d = 0 \<or> snd d = - 1)"
proof -
  obtain ds u where lp: "fixed_window_loop t_VARBASE s = (ds, u)" by (metis surj_pair)
  note l = fixed_window_loop_spec [OF assms(1,2) lp, unfolded t_VARBASE]
  have "(2 :: nat) * 16 ^ 62 = 2 ^ 249" by simp
  then have u: "digits_val u = 1" using l assms(3) by simp
  then have u0: "u ! 0 = 1"
  proof -
    obtain d ds where "u = d # ds" using l by (cases u) (simp_all add: is_scalar_def)
    moreover have "unat d = 1" using u calculation digit_less [of d] by (cases "digits_val ds") simp_all
    ultimately show ?thesis by (simp add: word_unat_eq_iff)
  qed
  have m: "NOT (ucast (drop_bit 63 (1 :: digit))) = (- 1 :: u32)" by simp
  have "ucast (1 XOR (0 - 1 :: digit)) = ucast (1 :: digit) XOR (ucast (0 - 1 :: digit) :: u32)"
    by (rule unsigned_xor_eq)
  then have "(- 1 AND ucast (1 XOR (0 - 1 :: digit))) XOR ucast (0 - 1 :: digit) = (1 :: u32)"
    by (simp only: and.left_neutral xor_cancel unsigned_1)
  then have r: "fixed_window_recode s = ds @ [(0, - 1)]"
    unfolding fixed_window_recode_def lp prod.case Let_def u0 m by simp
  show "int (digits_val s) = horner_sum window_value 16 (fixed_window_recode s)"
    using l u by (simp add: r horner_sum_append window_value_def)
  show "length (fixed_window_recode s) = 63" "fixed_window_recode s ! 62 = (0, - 1)"
    using l by (simp_all add: r nth_append)
  show "\<forall>d\<in>set (fixed_window_recode s). unat (fst d) < 8 \<and> (snd d = 0 \<or> snd d = - 1)"
    using l by (auto simp: r)
qed

section \<open>The modified LSB-set comb\<close>

definition D_FIXEDBASE :: nat where
  "D_FIXEDBASE = (246 + 1 + 5 * 5 - 1) div (5 * 5) * 5"

definition L_FIXEDBASE :: nat where
  "L_FIXEDBASE = D_FIXEDBASE * 5"

text \<open>The sign row: one digit per bit, -1 for 0 and 0 for 1.\<close>

fun mlsb_sign_loop :: "nat \<Rightarrow> digit list \<Rightarrow> u32 list \<times> digit list" where
  "mlsb_sign_loop 0 scalar = ([], scalar)"
| "mlsb_sign_loop (Suc n) scalar =
     (let d = ucast ((scalar ! 0 AND 1) - 1);
          (ds, scalar) = mlsb_sign_loop n (mp_shiftr 1 scalar)
      in (d # ds, scalar))"

text \<open>The scalar plus a carry bit.\<close>

fun carry_loop :: "digit \<Rightarrow> digit list \<Rightarrow> digit list" where
  "carry_loop carry [] = []"
| "carry_loop carry (d # ds) =
     (let d = d + carry; carry = carry AND is_digit_zero_ct d in d # carry_loop carry ds)"

fun mlsb_digit_loop :: "u32 list \<Rightarrow> nat \<Rightarrow> nat \<Rightarrow> digit list \<Rightarrow> u32 list \<times> digit list" where
  "mlsb_digit_loop signs i 0 scalar = ([], scalar)"
| "mlsb_digit_loop signs i (Suc n) scalar =
     (let d = ucast (scalar ! 0 AND 1);
          scalar = mp_shiftr 1 scalar;
          temp = ucast ((0 - signs ! (i - (i div D_FIXEDBASE) * D_FIXEDBASE)) AND d);
          (ds, scalar) = mlsb_digit_loop signs (Suc i) n (carry_loop temp scalar)
      in (d # ds, scalar))"

text \<open>The array \<open>digits\<close>.\<close>

definition mLSB_set_recode :: "digit list \<Rightarrow> u32 list" where
  "mLSB_set_recode scalar =
     (let d = D_FIXEDBASE; l = L_FIXEDBASE;
          (signs, scalar) = mlsb_sign_loop (d - 1) (mp_shiftr 1 scalar);
          signs = signs @ [0];
          (ds, scalar) = mlsb_digit_loop signs d (l - d) scalar
      in signs @ ds)"

text \<open>The signs a row stands for, and the value of the digits of the other rows.\<close>

definition sign_value :: "u32 \<Rightarrow> int" where
  "sign_value s = (if s = 0 then 1 else - 1)"

lemma fixedbase_params: "D_FIXEDBASE = 50" "L_FIXEDBASE = 250"
  by (simp_all add: D_FIXEDBASE_def L_FIXEDBASE_def)

lemma scalar_low_bit:
  assumes "is_scalar s"
  shows "s ! 0 AND 1 = of_bool (odd (digits_val s))"
proof -
  obtain s0 ss where s: "s = s0 # ss" using assms by (cases s) (simp_all add: is_scalar_def)
  have "s0 AND 1 = of_bool (odd s0)" by (simp add: and_one_eq mod2_eq_if)
  then show ?thesis by (simp add: s odd_unat)
qed

lemma is_scalar_shiftr: "is_scalar s \<Longrightarrow> is_scalar (mp_shiftr n s)"
  by (simp add: is_scalar_def)

lemma mlsb_sign_loop_spec:
  "is_scalar s \<Longrightarrow> mlsb_sign_loop n s = (ds, s') \<Longrightarrow>
    is_scalar s' \<and> length ds = n \<and> digits_val s' = digits_val s div 2 ^ n \<and> set ds \<subseteq> {0, - 1} \<and>
    horner_sum sign_value 2 ds = 2 * int (digits_val s mod 2 ^ n) + 1 - 2 ^ n"
proof (induction n arbitrary: s ds s')
  case (Suc n)
  obtain es u where lp: "mlsb_sign_loop n (mp_shiftr 1 s) = (es, u)" by (metis surj_pair)
  define b where "b = odd (digits_val s)"
  have d: "(ucast ((s ! 0 AND 1) - 1) :: u32) = (if b then 0 else - 1)"
  proof -
    have "ucast (- 1 :: digit) = (- 1 :: u32)" by (rule bit_word_eqI) (simp add: bit_simps)
    then show ?thesis unfolding scalar_low_bit [OF Suc.prems(1)] b_def by simp
  qed
  have r: "ds = (if b then 0 else - 1) # es" "s' = u" using Suc.prems(2) unfolding mlsb_sign_loop.simps Let_def d lp prod.case by simp_all
  note ih = Suc.IH [OF is_scalar_shiftr [OF Suc.prems(1)] lp]
  have v: "digits_val (mp_shiftr 1 s) = digits_val s div 2" by (simp add: mp_shiftr_spec)
  have m: "digits_val s mod 2 ^ Suc n = 2 * (digits_val s div 2 mod 2 ^ n) + of_bool b"
    by (simp add: mod_mult2_eq b_def mod2_eq_if)
  have "horner_sum sign_value 2 ds = sign_value (if b then 0 else - 1) + 2 * (2 * int (digits_val s div 2 mod 2 ^ n) + 1 - 2 ^ n)"
    using ih unfolding v by (simp only: r horner_sum_simps)
  also have "\<dots> = 2 * int (digits_val s mod 2 ^ Suc n) + 1 - 2 ^ Suc n"
    unfolding m by (cases b) (simp_all add: sign_value_def)
  finally show ?case using ih unfolding v by (auto simp: r div_mult2_eq)
qed simp

lemma carry_loop_spec:
  "unat c \<le> 1 \<Longrightarrow> digits_val (carry_loop c ds) = (digits_val ds + unat c) mod 2 ^ (64 * length ds) \<and>
    length (carry_loop c ds) = length ds"
proof (induction c ds rule: carry_loop.induct)
  case (2 c d ds)
  define e where "e = c AND is_digit_zero_ct (d + c)"
  obtain p where p: "c = of_bool p" using 2(2) digit_bit_cases by blast
  have e: "e = of_bool (p \<and> d + c = 0)" by (simp add: e_def p digit_zero)
  have sum: "unat (d + c) + 2 ^ 64 * unat e = unat d + unat c"
  proof (cases "unat d + unat c < 2 ^ 64")
    case True
    then have "unat (d + c) = unat d + unat c" by (simp add: unat_add_digit)
    moreover have "\<not> (p \<and> d + c = 0)" using calculation by (auto simp: p)
    ultimately show ?thesis by (simp add: e)
  next
    case False
    have c: "unat c = 1" "unat d = 2 ^ 64 - 1" using False digit_less [of d] 2(2) by linarith+
    then have "p" by (cases p) (simp_all add: p)
    have "unat (d + c) = 0" using unat_add_digit [of d c] c by simp
    moreover from this have "d + c = 0" by (simp add: unat_eq_0)
    ultimately show ?thesis using c \<open>p\<close> by (simp add: e)
  qed
  have ih: "digits_val (carry_loop e ds) = (digits_val ds + unat e) mod 2 ^ (64 * length ds)"
    "length (carry_loop e ds) = length ds"
    using 2(1) [OF refl e_def] by (simp_all add: e)
  have r: "carry_loop c (d # ds) = (d + c) # carry_loop e ds" by (simp add: Let_def e_def)
  have "digits_val (carry_loop c (d # ds)) = unat (d + c) + 2 ^ 64 * ((digits_val ds + unat e) mod 2 ^ (64 * length ds))"
    unfolding r digits_val.simps ih(1) ..
  also have "\<dots> = (unat (d + c) + 2 ^ 64 * (digits_val ds + unat e)) mod 2 ^ (64 * Suc (length ds))"
  proof -
    have "(unat (d + c) + 2 ^ 64 * X) mod (2 ^ 64 * Y) = unat (d + c) + 2 ^ 64 * (X mod Y)" for X Y :: nat
      using digit_less [of "d + c"] mod_mult2_eq [of "unat (d + c) + 2 ^ 64 * X" "2 ^ 64" Y] by simp
    then show ?thesis by (simp only: mult_Suc_right power_add)
  qed
  also have "unat (d + c) + 2 ^ 64 * (digits_val ds + unat e) = digits_val (d # ds) + unat c"
    using sum by (simp only: distrib_left digits_val.simps)
  finally show ?case using ih(2) by (simp only: r list.size add_Suc_right add_0_right simp_thms)
qed simp

fun comb_value :: "u32 list \<Rightarrow> nat \<Rightarrow> u32 list \<Rightarrow> int" where
  "comb_value signs i [] = 0"
| "comb_value signs i (d # ds) =
     sign_value (signs ! (i mod D_FIXEDBASE)) * int (unat d) + 2 * comb_value signs (Suc i) ds"

lemma mlsb_digit_step:
  assumes "is_scalar s" "g \<in> {0, - 1}"
  defines "d \<equiv> ucast (s ! 0 AND 1) :: u32"
  defines "t \<equiv> carry_loop (ucast ((0 - g) AND d)) (mp_shiftr 1 s)"
  shows "int (digits_val s) = sign_value g * int (unat d) + 2 * int (digits_val t)" "is_scalar t" "d \<in> {0, 1}"
    "digits_val t = digits_val s div 2 + (if g \<noteq> 0 \<and> odd (digits_val s) then 1 else 0)"
proof -
  define b where "b = odd (digits_val s)"
  have d: "d = of_bool b" unfolding d_def scalar_low_bit [OF assms(1)] b_def by simp
  then show "d \<in> {0, 1}" by simp
  define u :: digit where "u = ucast ((0 - g) AND d)"
  have u: "u = of_bool (g \<noteq> 0 \<and> b)" using assms(2) by (auto simp: d u_def)
  have t: "t = carry_loop u (mp_shiftr 1 s)" by (simp only: t_def u_def)
  have "digits_val s div 2 + 1 < 2 ^ 256" using scalar_less [OF assms(1)] by simp
  then show v: "digits_val t = digits_val s div 2 + (if g \<noteq> 0 \<and> odd (digits_val s) then 1 else 0)"
    using carry_loop_spec [of u "mp_shiftr 1 s"] assms(1) mp_shiftr_spec [of 1 s]
    by (simp add: t u b_def is_scalar_def split: if_splits)
  show "is_scalar t"
    using carry_loop_spec [of u "mp_shiftr 1 s"] assms(1) by (simp add: t u is_scalar_def)
  have "int (digits_val s) = 2 * int (digits_val s div 2) + of_bool b"
    unfolding b_def by (simp add: zdiv_int mod2_eq_if [symmetric])
  then show "int (digits_val s) = sign_value g * int (unat d) + 2 * int (digits_val t)"
    unfolding v using assms(2) by (cases b) (auto simp: d sign_value_def b_def)
qed

lemma mlsb_digit_loop_spec:
  assumes "set signs \<subseteq> {0, - 1}" "length signs = D_FIXEDBASE"
  shows "is_scalar s \<Longrightarrow> mlsb_digit_loop signs i n s = (ds, s') \<Longrightarrow>
    int (digits_val s) = comb_value signs i ds + 2 ^ n * int (digits_val s') \<and> is_scalar s' \<and>
    length ds = n \<and> set ds \<subseteq> {0, 1} \<and> (digits_val s \<le> 2 ^ n \<longrightarrow> digits_val s' \<le> 1)"
proof (induction n arbitrary: i s ds s')
  case (Suc n)
  define g where "g = signs ! (i mod D_FIXEDBASE)"
  define d :: u32 where "d = ucast (s ! 0 AND 1)"
  define t where "t = carry_loop (ucast ((0 - g) AND d)) (mp_shiftr 1 s)"
  have i: "i - i div D_FIXEDBASE * D_FIXEDBASE = i mod D_FIXEDBASE" by (simp add: minus_div_mult_eq_mod)
  have "g \<in> {0, - 1}" using assms fixedbase_params(1) unfolding g_def by (metis mod_less_divisor nth_mem subsetD zero_less_numeral)
  note st = mlsb_digit_step [OF Suc.prems(1) this, folded d_def, folded t_def]
  obtain es u where lp: "mlsb_digit_loop signs (Suc i) n t = (es, u)" by (metis surj_pair)
  have r: "ds = d # es" "s' = u"
    using Suc.prems(2) unfolding mlsb_digit_loop.simps Let_def i g_def [symmetric] d_def [symmetric] t_def [symmetric] lp
    by simp_all
  note ih = Suc.IH [OF st(2) lp]
  have v: "int (digits_val s) = comb_value signs i ds + 2 ^ Suc n * int (digits_val s')"
    using ih st(1) by (simp add: r g_def algebra_simps)
  have "digits_val t \<le> 2 ^ n" if "digits_val s \<le> 2 ^ Suc n"
  proof (cases "odd (digits_val s)")
    case True
    then obtain k where k: "digits_val s = 2 * k + 1" by (rule oddE)
    have "2 * k + 1 \<le> 2 * 2 ^ n" using that k by simp
    then have "k + 1 \<le> 2 ^ n" by linarith
    then show ?thesis using k by (simp add: st(4))
  qed (use that in \<open>simp add: st(4)\<close>)
  then show ?case using v ih st(3) by (simp add: r)
qed simp

lemma mlsb_digit_loop_last:
  assumes "mlsb_digit_loop signs i (Suc n) s = (ds, s')"
  obtains es t where "mlsb_digit_loop signs i n s = (es, t)"
    "ds = es @ [ucast (t ! 0 AND 1)]"
    "s' = carry_loop (ucast ((0 - signs ! ((i + n) mod D_FIXEDBASE)) AND ucast (t ! 0 AND 1 :: digit) :: u32)) (mp_shiftr 1 t)"
  using assms
proof (induction n arbitrary: i s ds thesis)
  case 0
  then show ?case by (simp add: Let_def minus_div_mult_eq_mod)
next
  case (Suc n)
  define d :: u32 where "d = ucast (s ! 0 AND 1)"
  define u where "u = carry_loop (ucast ((0 - signs ! (i - i div D_FIXEDBASE * D_FIXEDBASE)) AND d)) (mp_shiftr 1 s)"
  obtain fs w where f: "mlsb_digit_loop signs (Suc i) (Suc n) u = (fs, w)" by (metis surj_pair)
  have "(d # fs, w) = (ds, s')"
    using Suc.prems(2) unfolding mlsb_digit_loop.simps(2) [of signs i "Suc n"] Let_def d_def [symmetric] u_def [symmetric] f
    by simp
  then have r: "ds = d # fs" "mlsb_digit_loop signs (Suc i) (Suc n) u = (fs, s')" using f by simp_all
  obtain es t where e: "mlsb_digit_loop signs (Suc i) n u = (es, t)" "fs = es @ [ucast (t ! 0 AND 1)]"
    "s' = carry_loop (ucast ((0 - signs ! ((Suc i + n) mod D_FIXEDBASE)) AND ucast (t ! 0 AND 1 :: digit) :: u32)) (mp_shiftr 1 t)"
    using Suc.IH [OF _ r(2)] by blast
  show ?case
  proof (rule Suc.prems(1))
    show "mlsb_digit_loop signs i (Suc n) s = (d # es, t)"
      unfolding mlsb_digit_loop.simps(2) Let_def d_def [symmetric] u_def [symmetric] e(1) by simp
    show "ds = (d # es) @ [ucast (t ! 0 AND 1)]" using r(1) e(2) by simp
    show "s' = carry_loop (ucast ((0 - signs ! ((i + Suc n) mod D_FIXEDBASE)) AND ucast (t ! 0 AND 1 :: digit) :: u32)) (mp_shiftr 1 t)"
      using e(3) by simp
  qed
qed

text \<open>
  The comb: an odd scalar below 2^249 is the sum of the sign row and the signed rows above it.
\<close>

lemma mLSB_set_recode_spec:
  assumes "is_scalar s" "odd (digits_val s)" "digits_val s < 2 ^ 249"
  defines "ds \<equiv> mLSB_set_recode s"
  shows "length ds = 250" "set (take 50 ds) \<subseteq> {0, - 1}" "set (drop 50 ds) \<subseteq> {0, 1}"
    "int (digits_val s) = horner_sum sign_value 2 (take 50 ds) + 2 ^ 50 * comb_value (take 50 ds) 50 (drop 50 ds)"
proof -
  let ?k = "digits_val s"
  obtain sg u where sg: "mlsb_sign_loop 49 (mp_shiftr 1 s) = (sg, u)" by (metis surj_pair)
  define signs where "signs = sg @ [0]"
  obtain es w where es: "mlsb_digit_loop signs 50 200 u = (es, w)" by (metis surj_pair)
  have ds: "ds = signs @ es"
    using sg es by (simp add: ds_def mLSB_set_recode_def fixedbase_params signs_def [symmetric])
  have sh: "digits_val (mp_shiftr 1 s) = ?k div 2" by (simp add: mp_shiftr_spec)
  note sl = mlsb_sign_loop_spec [OF is_scalar_shiftr [OF assms(1)] sg, unfolded sh]
  have u: "is_scalar u" "digits_val u = ?k div 2 ^ 50" using sl by (simp_all add: div_mult2_eq [symmetric])
  have signs: "set signs \<subseteq> {0, - 1}" "length signs = 50" using sl by (auto simp: signs_def)
  note dl = mlsb_digit_loop_spec [OF signs(1) signs(2) [folded fixedbase_params(1)] u(1) es]
  have len: "length es = 200" using dl by simp
  show "length ds = 250" "set (take 50 ds) \<subseteq> {0, - 1}" "set (drop 50 ds) \<subseteq> {0, 1}"
    using signs dl by (simp_all add: ds)
  have row: "horner_sum sign_value 2 signs = int (?k mod 2 ^ 50)"
  proof -
    have "horner_sum sign_value 2 signs = 2 * int (?k div 2 mod 2 ^ 49) + 1 - 2 ^ 49 + 2 ^ 49"
      using sl by (simp add: signs_def horner_sum_append sign_value_def)
    moreover have "?k mod 2 ^ 50 = 2 * (?k div 2 mod 2 ^ 49) + 1"
      using mod_mult2_eq [of ?k 2 "2 ^ 49"] assms(2) by (simp add: odd_iff_mod_2_eq_one)
    ultimately show ?thesis by simp
  qed
  have w: "digits_val w = 0"
  proof -
    have e: "Suc 199 = 200" by simp
    have "mlsb_digit_loop signs 50 (Suc 199) u = (es, w)" unfolding e by (rule es)
    then obtain fs t where t: "mlsb_digit_loop signs 50 199 u = (fs, t)" "es = fs @ [ucast (t ! 0 AND 1)]"
      "w = carry_loop (ucast ((0 - signs ! ((50 + 199) mod D_FIXEDBASE)) AND ucast (t ! 0 AND 1 :: digit) :: u32)) (mp_shiftr 1 t)"
      by (rule mlsb_digit_loop_last)
    note tl = mlsb_digit_loop_spec [OF signs(1) signs(2) [folded fixedbase_params(1)] u(1) t(1)]
    have "?k < 2 ^ 199 * 2 ^ 50" using assms(3) by simp
    then have "digits_val u \<le> 2 ^ 199" unfolding u(2) by (intro less_imp_le less_mult_imp_div_less)
    then have t1: "is_scalar t" "digits_val t \<le> 1" using tl by blast+
    have "signs ! ((50 + 199) mod D_FIXEDBASE) = 0" using sl by (simp add: fixedbase_params signs_def nth_append)
    then show ?thesis using mlsb_digit_step(4) [OF t1(1), of 0] t1(2) by (simp add: t(3))
  qed
  have "int ?k = int (?k mod 2 ^ 50 + 2 ^ 50 * (?k div 2 ^ 50))" by (simp only: mod_mult_div_eq)
  then have "int ?k = int (?k mod 2 ^ 50) + 2 ^ 50 * int (?k div 2 ^ 50)"
    by (simp only: of_nat_add of_nat_mult of_nat_power of_nat_numeral)
  then show "int ?k = horner_sum sign_value 2 (take 50 ds) + 2 ^ 50 * comb_value (take 50 ds) 50 (drop 50 ds)"
    using dl w signs(2) by (simp add: ds row u(2))
qed

section \<open>Width-w NAF\<close>

text \<open>
  The loop writes the digits at increasing indices, one by one; the model returns the digits
  written. The function returns when \<open>k\<close> gets to 0, which it does for \<open>2 \<le> w\<close>.
\<close>

partial_function (option) wNAF_loop :: "nat \<Rightarrow> u64 \<Rightarrow> int list option" where
  "wNAF_loop w k =
     (if k = 0 then Some []
      else if k AND 1 = 0 then
        Option.bind (wNAF_loop w (drop_bit 1 k)) (\<lambda>ds. Some (0 # ds))
      else
        let val1 = 2 ^ (w - 1) - 1; val2 = 2 ^ w;
            digit = uint (k AND (push_bit w 1 - 1));
            k = drop_bit w k;
            digit = (if digit > val1 then digit - val2 else digit);
            k = (if digit < 0 then k + 1 else k)
        in Option.bind (wNAF_loop w k)
             (\<lambda>ds. Some (digit # (if k \<noteq> 0 then replicate (w - 1) 0 else []) @ ds)))"

definition wNAF_recode :: "u64 \<Rightarrow> nat \<Rightarrow> int list option" where
  "wNAF_recode scalar w = wNAF_loop w scalar"

text \<open>With \<open>w = 1\<close> the scalar 1 is left unchanged by every round.\<close>

lemma wNAF_odd_step:
  assumes "2 \<le> w" "w < 32" "odd (unat (k :: u64))"
  defines "m \<equiv> uint (k AND (push_bit w 1 - 1))"
  defines "d \<equiv> (if m > 2 ^ (w - 1) - 1 then m - 2 ^ w else m)"
  defines "k' \<equiv> (if d < 0 then drop_bit w k + 1 else drop_bit w k)"
  shows "int (unat k) = d + 2 ^ w * int (unat k')" "unat k' < unat k" "odd d" "\<bar>d\<bar> < 2 ^ (w - 1)"
proof -
  have mask: "push_bit w 1 - 1 = (mask w :: u64)" by (simp add: mask_eq_exp_minus_1 push_bit_eq_mult)
  have "uint (take_bit w k) = take_bit w (uint k)" by (rule unsigned_take_bit_eq)
  then have m: "m = int (unat k mod 2 ^ w)"
    unfolding m_def mask by (simp add: take_bit_eq_mask [symmetric] take_bit_eq_mod zmod_int)
  have q: "unat (drop_bit w k) = unat k div 2 ^ w" by (simp only: unat_drop_bit_eq) (simp only: drop_bit_eq_div)
  have dm: "unat k = unat k mod 2 ^ w + 2 ^ w * (unat k div 2 ^ w)" by simp
  have odd_m: "odd (unat k mod 2 ^ w)" using assms(1,3) by (simp add: dvd_mod_iff)
  have w2: "(2 :: int) ^ w = 2 * 2 ^ (w - 1)" using assms(1) by (cases w) simp_all
  have ml: "m < 2 ^ w" unfolding m by (simp add: zmod_int)
  have ge: "4 \<le> (2 :: nat) ^ w" using assms(1) power_increasing [of 2 w "2 :: nat"] by simp
  have "unat k < 2 ^ 64" using digit_less [of k] .
  then have ql: "unat k div 2 ^ w < 2 ^ 64 div 4"
  proof -
    have "unat k div 2 ^ w \<le> unat k div 4" using ge by (intro div_le_mono2) simp_all
    also have "\<dots> < 2 ^ 64 div 4" using digit_less [of k] by (simp add: less_mult_imp_div_less)
    finally show ?thesis .
  qed
  have dneg: "d < 0 \<longleftrightarrow> m > 2 ^ (w - 1) - 1" using ml by (auto simp: d_def m)
  have k': "unat k' = unat k div 2 ^ w + (if d < 0 then 1 else 0)"
    unfolding k'_def using ql q unat_add_digit [of "drop_bit w k" 1] by simp
  show "int (unat k) = d + 2 ^ w * int (unat k')"
  proof -
    have "int (unat k) = m + 2 ^ w * int (unat k div 2 ^ w)"
      unfolding m by (metis dm of_nat_add of_nat_mult of_nat_numeral of_nat_power)
    then show ?thesis unfolding k' using dneg by (simp add: d_def algebra_simps)
  qed
  show "odd d" using odd_m assms(1) by (simp add: d_def m)
  show "\<bar>d\<bar> < 2 ^ (w - 1)"
  proof -
    have "m \<noteq> 2 ^ (w - 1)"
    proof
      assume "m = 2 ^ (w - 1)"
      then have "even m" using assms(1) by simp
      then show False using odd_m by (simp add: m)
    qed
    moreover have "0 \<le> m" by (simp add: m)
    ultimately show ?thesis using ml w2 unfolding d_def by (simp split: if_splits)
  qed
  show "unat k' < unat k"
  proof (cases "unat k div 2 ^ w = 0")
    case True
    then have e: "m = int (unat k)" using dm m by simp
    show ?thesis
    proof (cases "d < 0")
      case True
      moreover have "(2 :: int) ^ 1 \<le> 2 ^ (w - 1)" using assms(1) by (intro power_increasing) simp_all
      then have "(2 :: int) \<le> 2 ^ (w - 1)" by (simp only: power_one_right)
      ultimately have "1 < m" using dneg by linarith
      then have "1 < unat k" using e by linarith
      then show ?thesis using k' True \<open>unat k div 2 ^ w = 0\<close> by simp
    qed (use k' True assms(3) in \<open>auto intro: Nat.gr0I\<close>)
  next
    case False
    then have "4 * (unat k div 2 ^ w) \<le> 2 ^ w * (unat k div 2 ^ w)" using ge by simp
    also have "\<dots> \<le> unat k" by simp
    finally show ?thesis using k' False by simp
  qed
qed

definition wnaf_sparse :: "nat \<Rightarrow> int list \<Rightarrow> bool" where
  "wnaf_sparse w ds = (\<forall>i j. i < j \<longrightarrow> j < i + w \<longrightarrow> j < length ds \<longrightarrow> ds ! i \<noteq> 0 \<longrightarrow> ds ! j = 0)"

definition wnaf_digits :: "nat \<Rightarrow> u64 \<Rightarrow> int list \<Rightarrow> bool" where
  "wnaf_digits w k ds = (horner_sum id 2 ds = int (unat k) \<and> wnaf_sparse w ds \<and>
     (\<forall>d\<in>set ds. d = 0 \<or> odd d \<and> \<bar>d\<bar> < 2 ^ (w - 1)) \<and> (\<forall>n. unat k \<le> 2 ^ n \<longrightarrow> length ds \<le> Suc n))"

lemma wnaf_sparse_zeros:
  assumes "wnaf_sparse w ds"
  shows "wnaf_sparse w (0 # ds)" "wnaf_sparse w (d # replicate (w - 1) 0 @ ds)"
proof -
  show z: "wnaf_sparse w (0 # ds)"
    using assms unfolding wnaf_sparse_def by (simp add: nth_Cons split: nat.splits)
  have r: "wnaf_sparse w (replicate n 0 @ ds)" for n
  proof (induction n)
    case (Suc n)
    then show ?case unfolding wnaf_sparse_def by (simp add: nth_Cons split: nat.splits)
  qed (simp add: assms)
  show "wnaf_sparse w (d # replicate (w - 1) 0 @ ds)"
    unfolding wnaf_sparse_def
  proof (intro allI impI)
    fix i j
    assume ij: "i < j" "j < i + w" "j < length (d # replicate (w - 1) 0 @ ds)"
      "(d # replicate (w - 1) 0 @ ds) ! i \<noteq> 0"
    obtain m where m: "j = Suc m" using ij(1) by (cases j) simp_all
    show "(d # replicate (w - 1) 0 @ ds) ! j = 0"
    proof (cases i)
      case 0
      then have "m < w - 1" using ij(2) m by linarith
      then show ?thesis by (simp add: m nth_append)
    next
      case (Suc l)
      then show ?thesis using ij r [of "w - 1"] by (simp add: m wnaf_sparse_def)
    qed
  qed
qed

lemma horner_zeros: "horner_sum id 2 (replicate n 0 @ ds) = 2 ^ n * horner_sum id (2 :: int) ds"
  by (induction n) simp_all

lemma wNAF_loop_spec:
  assumes "2 \<le> w" "w < 32"
  shows "\<exists>ds. wNAF_loop w k = Some ds \<and> wnaf_digits w k ds"
proof (induction "unat k" arbitrary: k rule: less_induct)
  case less
  have kand: "k AND 1 = of_bool (odd (unat k))" by (simp add: and_one_eq mod2_eq_if odd_unat)
  consider "k = 0" | "k \<noteq> 0" "even (unat k)" | "odd (unat k)" by blast
  then show ?case
  proof cases
    case 1
    show ?thesis unfolding 1 by (simp add: wNAF_loop.simps [of w 0] wnaf_digits_def wnaf_sparse_def)
  next
    case 2
    have h: "unat (drop_bit 1 k) = unat k div 2"
      by (simp only: unat_drop_bit_eq) (simp only: drop_bit_eq_div power_one_right)
    have "unat k \<noteq> 0" using 2(1) by (simp add: unat_eq_0)
    then have "unat (drop_bit 1 k) < unat k" unfolding h by simp
    then obtain ds where ds: "wNAF_loop w (drop_bit 1 k) = Some ds" "wnaf_digits w (drop_bit 1 k) ds"
      using less by blast
    have "wNAF_loop w k = Some (0 # ds)"
      unfolding wNAF_loop.simps [of w k] using 2 ds(1) kand by simp
    moreover have "wnaf_digits w k (0 # ds)"
      unfolding wnaf_digits_def
    proof (intro conjI allI impI)
      have "int (unat k) = int (2 * unat (drop_bit 1 k))" unfolding h using 2(2) by simp
      then show "horner_sum id 2 (0 # ds) = int (unat k)"
        using ds(2) by (simp only: wnaf_digits_def horner_sum_simps id_apply add_0 of_nat_mult of_nat_numeral)
      show "wnaf_sparse w (0 # ds)" using ds(2) by (simp add: wnaf_digits_def wnaf_sparse_zeros)
      show "\<forall>d\<in>set (0 # ds). d = 0 \<or> odd d \<and> \<bar>d\<bar> < 2 ^ (w - 1)" using ds(2) by (simp add: wnaf_digits_def)
      fix n assume n: "unat k \<le> 2 ^ n"
      then obtain m where m: "n = Suc m" using \<open>unat k \<noteq> 0\<close> 2(2) by (cases n) (auto elim: evenE)
      then have "unat (drop_bit 1 k) \<le> 2 ^ m" using n unfolding h by simp
      then show "length (0 # ds) \<le> Suc n" using ds(2) m by (simp add: wnaf_digits_def)
    qed
    ultimately show ?thesis by blast
  next
    case 3
    define m where "m = uint (k AND (push_bit w 1 - 1))"
    define d where "d = (if m > 2 ^ (w - 1) - 1 then m - 2 ^ w else m)"
    define k' where "k' = (if d < 0 then drop_bit w k + 1 else drop_bit w k)"
    note st = wNAF_odd_step [OF assms 3, folded m_def, folded d_def, folded k'_def]
    obtain ds where ds: "wNAF_loop w k' = Some ds" "wnaf_digits w k' ds" using less st(2) by blast
    define es where "es = d # (if k' \<noteq> 0 then replicate (w - 1) 0 else []) @ ds"
    have k0: "k \<noteq> 0" "k AND 1 \<noteq> 0" using 3 kand by auto
    have r: "wNAF_loop w k = Some es"
      unfolding wNAF_loop.simps [of w k] Let_def m_def [symmetric] d_def [symmetric] k'_def [symmetric]
      using k0 ds(1) by (simp add: es_def)
    have z: "ds = []" if "k' = 0" using ds(1) that by (simp add: wNAF_loop.simps [of w 0])
    have w2: "(2 :: int) ^ w = 2 * 2 ^ (w - 1)" using assms(1) by (cases w) simp_all
    have "wnaf_digits w k es"
      unfolding wnaf_digits_def
    proof (intro conjI allI impI)
      show "horner_sum id 2 es = int (unat k)"
        using ds(2) st(1) z w2 by (cases "k' = 0") (simp_all add: es_def wnaf_digits_def horner_zeros)
      show "wnaf_sparse w es"
      proof (cases "k' = 0")
        case False
        then show ?thesis unfolding es_def using wnaf_sparse_zeros(2) ds(2) unfolding wnaf_digits_def by auto
      qed (simp add: es_def z wnaf_sparse_def)
      show "\<forall>x\<in>set es. x = 0 \<or> odd x \<and> \<bar>x\<bar> < 2 ^ (w - 1)"
        using ds(2) st(3,4) by (auto simp: es_def wnaf_digits_def)
      fix n assume n: "unat k \<le> 2 ^ n"
      show "length es \<le> Suc n"
      proof (cases "k' = 0")
        case False
        then have "unat k' \<noteq> 0" by (simp add: unat_eq_0)
        then have k1: "1 \<le> int (unat k')" by linarith
        have nk: "int (unat k) \<le> 2 ^ n" using n by (metis of_nat_le_iff of_nat_numeral of_nat_power)
        have p: "2 ^ w * 1 \<le> 2 ^ w * int (unat k')" using k1 by (intro mult_left_mono) simp_all
        have "w \<le> n"
        proof (rule ccontr)
          assume "\<not> w \<le> n"
          then have "(2 :: int) ^ n \<le> 2 ^ (w - 1)" by (intro power_increasing) simp_all
          then show False using p nk st(1,4) w2 by linarith
        qed
        then have e: "(2 :: int) ^ n = 2 ^ w * 2 ^ (n - w)" by (simp flip: power_add)
        have "2 ^ w * int (unat k') < 2 ^ w * (2 ^ (n - w) + 1)"
          using nk st(1,4) w2 unfolding e distrib_left by linarith
        then have "int (unat k') < 2 ^ (n - w) + 1" by (simp only: mult_less_cancel_left_pos zero_less_power zero_less_numeral)
        then have "int (unat k') \<le> int (2 ^ (n - w))" by simp
        then have "unat k' \<le> 2 ^ (n - w)" by (simp only: of_nat_le_iff)
        then have "length ds \<le> Suc (n - w)" using ds(2) by (simp add: wnaf_digits_def)
        then show ?thesis using False \<open>w \<le> n\<close> assms(1) by (simp add: es_def)
      qed (simp add: es_def z)
    qed
    then show ?thesis using r by blast
  qed
qed

text \<open>With \<open>w = 1\<close> the scalar 1 comes back in every round and the function does not return.\<close>

lemma wNAF_loop_width_1: "wNAF_loop 1 1 = None"
proof (cases "wNAF_loop 1 1")
  case (Some ds)
  have "uint ((1 :: u64) AND (push_bit 1 1 - 1)) = 1" by (simp add: push_bit_eq_mult)
  then have "wNAF_loop 1 1 = Option.bind (wNAF_loop 1 1) (\<lambda>ds. Some (- 1 # ds))"
    by (subst (1) wNAF_loop.simps) (simp add: Let_def drop_bit_eq_div)
  then show ?thesis using Some by simp
qed

end
