(* ===== verification/FourQ_Mul.thy ===== *)
theory FourQ_Mul
  imports FourQ_Group FourQ_Recode
begin

text \<open>
  Scalar multiplication on FourQ in the build without endomorphisms
  (\<open>oZKS/fourq/eccp2_no_endo.c\<close>), the fixed-base comb and the double multiplication
  (\<open>oZKS/fourq/eccp2_core.c\<close>), with the constant-time table lookups of \<open>oZKS/fourq/table_lookup.h\<close>
  (portable code). The lemmas say which multiple of the point each function computes.
\<close>

section \<open>Constant-time table lookup\<close>

text \<open>The masked assignments of the lookups, digit by digit.\<close>

definition select_digits :: "digit \<Rightarrow> felm_t \<Rightarrow> felm_t \<Rightarrow> felm_t" where
  "select_digits msk a b = map2 (\<lambda>x y. (msk AND (x XOR y)) XOR x) a b"

definition select_f2 :: "digit \<Rightarrow> f2elm_t \<Rightarrow> f2elm_t \<Rightarrow> f2elm_t" where
  "select_f2 msk a b = (select_digits msk (fst a) (fst b), select_digits msk (snd a) (snd b))"

definition select_precomp ::
  "digit \<Rightarrow> point_extproj_precomp \<Rightarrow> point_extproj_precomp \<Rightarrow> point_extproj_precomp" where
  "select_precomp msk p t =
     \<lparr>pp_xy = select_f2 msk (pp_xy p) (pp_xy t), pp_yx = select_f2 msk (pp_yx p) (pp_yx t),
      pp_z2 = select_f2 msk (pp_z2 p) (pp_z2 t), pp_t2 = select_f2 msk (pp_t2 p) (pp_t2 t)\<rparr>"

definition select_fixed :: "digit \<Rightarrow> point_precomp \<Rightarrow> point_precomp \<Rightarrow> point_precomp" where
  "select_fixed msk p t =
     \<lparr>pc_xy = select_f2 msk (pc_xy p) (pc_xy t), pc_yx = select_f2 msk (pc_yx p) (pc_yx t),
      pc_t2 = select_f2 msk (pc_t2 p) (pc_t2 t)\<rparr>"

definition ecccopy_precomp :: "point_extproj_precomp \<Rightarrow> point_extproj_precomp" where
  "ecccopy_precomp Q =
     \<lparr>pp_xy = fp2copy1271 (pp_xy Q), pp_yx = fp2copy1271 (pp_yx Q), pp_z2 = fp2copy1271 (pp_z2 Q),
      pp_t2 = fp2copy1271 (pp_t2 Q)\<rparr>"

definition ecccopy_precomp_fixed_base :: "point_precomp \<Rightarrow> point_precomp" where
  "ecccopy_precomp_fixed_base Q =
     \<lparr>pc_xy = fp2copy1271 (pc_xy Q), pc_yx = fp2copy1271 (pc_yx Q), pc_t2 = fp2copy1271 (pc_t2 Q)\<rparr>"

text \<open>The loop over the entries from the second on; \<open>select\<close> is the masked assignment.\<close>

fun lookup_loop :: "(digit \<Rightarrow> 'p \<Rightarrow> 'p \<Rightarrow> 'p) \<Rightarrow> u32 \<Rightarrow> 'p list \<Rightarrow> 'p \<Rightarrow> 'p" where
  "lookup_loop select digit [] point = point"
| "lookup_loop select digit (temp_point # table) point =
     (let digit = digit - 1;
          msk = ucast (drop_bit 31 digit) - 1
      in lookup_loop select digit table (select msk point temp_point))"

text \<open>The sign of \<open>table_lookup_1x8\<close>: mask 0 chooses the opposite point.\<close>

definition table_lookup_1x8 :: "point_extproj_precomp list \<Rightarrow> u32 \<Rightarrow> u32 \<Rightarrow> point_extproj_precomp" where
  "table_lookup_1x8 table digit sign_mask =
     (let point = lookup_loop select_precomp digit (map ecccopy_precomp (take 7 (tl table)))
            (ecccopy_precomp (hd table));
          temp_point = eccneg_extproj_precomp point;
          msk = scast sign_mask
      in \<lparr>pp_xy = select_f2 msk (pp_xy temp_point) (pp_xy point),
          pp_yx = select_f2 msk (pp_yx temp_point) (pp_yx point),
          pp_z2 = pp_z2 point,
          pp_t2 = select_f2 msk (pp_t2 temp_point) (pp_t2 point)\<rparr>)"

definition VPOINTS_FIXEDBASE :: nat where
  "VPOINTS_FIXEDBASE = 2 ^ (5 - 1)"

text \<open>The sign of \<open>table_lookup_fixed_base\<close>: all ones chooses the opposite point.\<close>

definition table_lookup_fixed_base :: "point_precomp list \<Rightarrow> u32 \<Rightarrow> u32 \<Rightarrow> point_precomp" where
  "table_lookup_fixed_base table digit sign =
     (let point = lookup_loop select_fixed digit
            (map ecccopy_precomp_fixed_base (take (VPOINTS_FIXEDBASE - 1) (tl table)))
            (ecccopy_precomp_fixed_base (hd table));
          temp_point = eccneg_precomp point
      in select_fixed (scast sign) point temp_point)"

lemma select_digits_mask:
  "length a = length b \<Longrightarrow> select_digits 0 a b = a"
  "length a = length b \<Longrightarrow> select_digits (- 1) a b = b"
proof -
  have x: "(x XOR y) XOR x = y" for x y :: digit
    by (rule bit_word_eqI) (auto simp: bit_simps)
  assume "length a = length b"
  then show "select_digits 0 a b = a" "select_digits (- 1) a b = b"
    by (simp_all add: select_digits_def list_eq_iff_nth_eq x)
qed

lemma select_f2_mask:
  "f2elm a \<Longrightarrow> f2elm b \<Longrightarrow> select_f2 0 a b = a"
  "f2elm a \<Longrightarrow> f2elm b \<Longrightarrow> select_f2 (- 1) a b = b"
  by (simp_all add: select_f2_def f2elm_def felm_length select_digits_mask)

definition pc_valid :: "point_precomp \<Rightarrow> bool" where
  "pc_valid P = (f2elm (pc_xy P) \<and> f2elm (pc_yx P) \<and> f2elm (pc_t2 P))"

lemma select_precomp_mask:
  "pp_valid p \<Longrightarrow> pp_valid t \<Longrightarrow> select_precomp 0 p t = p"
  "pp_valid p \<Longrightarrow> pp_valid t \<Longrightarrow> select_precomp (- 1) p t = t"
  by (simp_all add: select_precomp_def pp_valid_def select_f2_mask)

lemma select_fixed_mask:
  "pc_valid p \<Longrightarrow> pc_valid t \<Longrightarrow> select_fixed 0 p t = p"
  "pc_valid p \<Longrightarrow> pc_valid t \<Longrightarrow> select_fixed (- 1) p t = t"
  by (simp_all add: select_fixed_def pc_valid_def select_f2_mask)

lemma ecccopy_valid: "pp_valid p \<Longrightarrow> ecccopy_precomp p = p" "pc_valid q \<Longrightarrow> ecccopy_precomp_fixed_base q = q"
  by (simp_all add: ecccopy_precomp_def ecccopy_precomp_fixed_base_def pp_valid_def pc_valid_def fp2)

text \<open>
  The loop chooses the entry at the position \<open>digit\<close>: the masks are all ones up to there, then 0,
  because \<open>digit\<close> has wrapped around.
\<close>

lemma lookup_mask: "ucast (drop_bit 31 (d :: u32)) - 1 = (if unat d < 2 ^ 31 then - 1 else 0 :: digit)"
proof -
  have "unat (drop_bit 31 d) = unat d div 2 ^ 31"
    by (simp only: unat_drop_bit_eq) (simp only: drop_bit_eq_div)
  moreover have "unat d < 2 ^ 32" using unsigned_less [of d] by simp
  ultimately have "unat (drop_bit 31 d) = (if unat d < 2 ^ 31 then 0 else 1)" by (simp add: div_nat_eqI)
  then have "drop_bit 31 d = (if unat d < 2 ^ 31 then 0 else 1)" by (auto simp: word_unat_eq_iff split: if_splits)
  then show ?thesis by simp
qed

lemma lookup_loop_wrapped:
  assumes "\<And>p t. V p \<Longrightarrow> V t \<Longrightarrow> select 0 p t = p"
  shows "V p \<Longrightarrow> list_all V ts \<Longrightarrow> d = 0 \<or> 2 ^ 31 + length ts < unat d \<Longrightarrow> length ts < 2 ^ 31 \<Longrightarrow>
    lookup_loop select d ts p = p"
proof (induction ts arbitrary: d)
  case (Cons t ts)
  have u: "2 ^ 31 + length ts < unat (d - 1)"
  proof (cases "d = 0")
    case True
    then show ?thesis using Cons.prems(4) by (simp add: unsigned_minus_1_eq_mask mask_eq_exp_minus_1)
  next
    case False
    then have "unat (d - 1) = unat d - 1" by (simp add: unat_minus_one)
    then show ?thesis using False Cons.prems(3) by simp
  qed
  then have "ucast (drop_bit 31 (d - 1)) - 1 = (0 :: digit)" by (simp add: lookup_mask)
  then show ?case using Cons u assms by simp
qed simp

lemma lookup_loop_spec:
  assumes "\<And>p t. V p \<Longrightarrow> V t \<Longrightarrow> select 0 p t = p" "\<And>p t. V p \<Longrightarrow> V t \<Longrightarrow> select (- 1) p t = t"
  shows "V p \<Longrightarrow> list_all V ts \<Longrightarrow> unat d \<le> length ts \<Longrightarrow> length ts < 2 ^ 31 \<Longrightarrow>
    lookup_loop select d ts p = (p # ts) ! unat d"
proof (induction ts arbitrary: d p)
  case (Cons t ts)
  show ?case
  proof (cases "d = 0")
    case True
    then show ?thesis using lookup_loop_wrapped [of V select p "t # ts" d] Cons.prems assms(1) by simp
  next
    case False
    then have u: "unat (d - 1) = unat d - 1" "unat d \<noteq> 0" by (simp_all add: unat_minus_one unat_eq_0)
    then have "ucast (drop_bit 31 (d - 1)) - 1 = (- 1 :: digit)" using Cons.prems(3,4) by (simp add: lookup_mask)
    then have "lookup_loop select d (t # ts) p = lookup_loop select (d - 1) ts t"
      using Cons.prems(1,2) assms(2) by simp
    also have "\<dots> = (t # ts) ! unat (d - 1)" using Cons u by simp
    finally show ?thesis using u by (cases "unat d") simp_all
  qed
qed (simp add: unat_eq_0)

lemma sign_mask_word: "scast (- 1 :: u32) = (- 1 :: digit)" "scast (0 :: u32) = (0 :: digit)"
  by simp_all

lemma r2_rep_valid: "r2_rep P a \<Longrightarrow> pp_valid P"
  by (simp add: r2_rep_def)

lemma r5_rep_valid: "r5_rep P a \<Longrightarrow> pc_valid P"
  by (simp add: r5_rep_def pc_valid_def)

text \<open>A table of the points \<open>g i\<close>.\<close>

definition r2_table :: "point_extproj_precomp list \<Rightarrow> (nat \<Rightarrow> ecp) \<Rightarrow> nat \<Rightarrow> bool" where
  "r2_table table g n = (length table = n \<and> (\<forall>i<n. r2_rep (table ! i) (xy (g i))))"

definition r5_table :: "point_precomp list \<Rightarrow> (nat \<Rightarrow> ecp) \<Rightarrow> nat \<Rightarrow> bool" where
  "r5_table table g n = (n \<le> length table \<and> (\<forall>i<n. r5_rep (table ! i) (xy (g i))))"

lemma table_lookup_1x8_spec:
  assumes "r2_table table g 8" "unat digit < 8" "m = 0 \<or> m = - 1"
  shows "r2_rep (table_lookup_1x8 table digit m) (xy (if m = 0 then - g (unat digit) else g (unat digit)))"
proof -
  have len: "length table = 8" and t: "r2_rep (table ! i) (xy (g i))" if "i < 8" for i
    using assms(1) that by (auto simp: r2_table_def)
  have len: "length table = 8" using assms(1) by (simp add: r2_table_def)
  then obtain p ts where ts: "table = p # ts" "length ts = 7" by (cases table) simp_all
  have v: "pp_valid (table ! i)" if "i < 8" for i using r2_rep_valid [OF t [OF that]] .
  have vp: "pp_valid p" using v [of 0] by (simp add: ts)
  have vt: "pp_valid x" if "x \<in> set ts" for x
    using that v [of "Suc i" for i] ts by (auto simp: in_set_conv_nth) 
  then have cp: "map ecccopy_precomp ts = ts" "list_all pp_valid ts"
    by (simp_all add: ecccopy_valid list_all_iff map_idI)
  have l: "lookup_loop select_precomp digit ts p = table ! unat digit"
    using lookup_loop_spec [of pp_valid select_precomp p ts digit] select_precomp_mask vp cp assms(2) ts by simp
  define Q where "Q = table ! unat digit"
  have Q: "r2_rep Q (xy (g (unat digit)))" "pp_valid Q" using t [OF assms(2)] v [OF assms(2)] by (simp_all add: Q_def)
  define N where "N = eccneg_extproj_precomp Q"
  have N: "r2_rep N (xy (- g (unat digit)))" unfolding N_def by (rule eccneg_ecp(1) [OF Q(1)])
  have z: "pp_z2 N = pp_z2 Q" using Q(2) by (simp add: N_def eccneg_extproj_precomp_def pp_valid_def fp2)
  have r: "table_lookup_1x8 table digit m =
      \<lparr>pp_xy = select_f2 (scast m) (pp_xy N) (pp_xy Q), pp_yx = select_f2 (scast m) (pp_yx N) (pp_yx Q),
       pp_z2 = pp_z2 Q, pp_t2 = select_f2 (scast m) (pp_t2 N) (pp_t2 Q)\<rparr>"
    using ts cp vp l by (simp add: table_lookup_1x8_def Let_def ecccopy_valid Q_def N_def)
  show ?thesis
  proof (cases "m = 0")
    case True
    then have "table_lookup_1x8 table digit m = N"
      unfolding r using Q(2) r2_rep_valid [OF N] z by (simp add: select_f2_mask pp_valid_def)
    then show ?thesis using N True by simp
  next
    case False
    then have m: "m = - 1" using assms(3) by simp
    then have "table_lookup_1x8 table digit m = Q"
      unfolding r using Q(2) r2_rep_valid [OF N] by (simp add: select_f2_mask pp_valid_def)
    then show ?thesis using Q(1) m by simp
  qed
qed

lemma table_lookup_fixed_base_spec:
  assumes "r5_table table g 16" "unat digit < 16" "m = 0 \<or> m = - 1"
  shows "r5_rep (table_lookup_fixed_base table digit m) (xy (if m = 0 then g (unat digit) else - g (unat digit)))"
proof -
  have len: "16 \<le> length table" and t: "\<And>i. i < 16 \<Longrightarrow> r5_rep (table ! i) (xy (g i))"
    using assms(1) by (auto simp: r5_table_def)
  then obtain p us where us: "table = p # us" by (cases table) simp_all
  define ts where "ts = take 15 us"
  have ts: "length ts = 15" using len by (simp add: us ts_def)
  have nth: "(p # ts) ! i = table ! i" if "i < 16" for i using that by (cases i) (simp_all add: us ts_def)
  have v: "pc_valid ((p # ts) ! i)" if "i < 16" for i using r5_rep_valid [OF t [OF that]] nth [OF that] by simp
  have vp: "pc_valid p" using v [of 0] by simp
  have vt: "pc_valid x" if "x \<in> set ts" for x
    using that v [of "Suc i" for i] ts by (auto simp: in_set_conv_nth)
  then have cp: "map ecccopy_precomp_fixed_base ts = ts" "list_all pc_valid ts"
    by (simp_all add: ecccopy_valid list_all_iff map_idI)
  have l: "lookup_loop select_fixed digit ts p = (p # ts) ! unat digit"
    using lookup_loop_spec [of pc_valid select_fixed p ts digit] select_fixed_mask vp cp assms(2) ts by simp
  define Q where "Q = table ! unat digit"
  have Q: "r5_rep Q (xy (g (unat digit)))" using t [OF assms(2)] by (simp add: Q_def)
  note N = eccneg_ecp(2) [OF Q]
  have "VPOINTS_FIXEDBASE - 1 = 15" by (simp add: VPOINTS_FIXEDBASE_def)
  then have r: "table_lookup_fixed_base table digit m = select_fixed (scast m) Q (eccneg_precomp Q)"
    using cp vp l nth [OF assms(2)]
    by (simp add: table_lookup_fixed_base_def us Let_def ecccopy_valid Q_def flip: ts_def)
  show ?thesis
    using assms(3) Q N select_fixed_mask [OF r5_rep_valid [OF Q] r5_rep_valid [OF N]] by (auto simp: r)
qed

section \<open>Variable-base multiplication\<close>

definition NPOINTS_VARBASE :: nat where
  "NPOINTS_VARBASE = 2 ^ (5 - 2)"

definition ecccopy :: "point_extproj \<Rightarrow> point_extproj" where
  "ecccopy Q =
     \<lparr>pe_x = fp2copy1271 (pe_x Q), pe_y = fp2copy1271 (pe_y Q), pe_z = fp2copy1271 (pe_z Q),
      pe_ta = fp2copy1271 (pe_ta Q), pe_tb = fp2copy1271 (pe_tb Q)\<rparr>"

fun precomp_loop :: "nat \<Rightarrow> point_extproj_precomp \<Rightarrow> point_extproj_precomp \<Rightarrow> point_extproj_precomp list" where
  "precomp_loop 0 P2 prev = []"
| "precomp_loop (Suc n) P2 prev =
     (let Q = eccadd_core P2 prev; entry = R1_to_R2 Q in entry # precomp_loop n P2 entry)"

definition ecc_precomp :: "point_extproj \<Rightarrow> point_extproj_precomp list" where
  "ecc_precomp P =
     (let Q = ecccopy P;
          entry = R1_to_R2 P;
          Q = eccdouble Q;
          P2 = R1_to_R3 Q
      in entry # precomp_loop (NPOINTS_VARBASE - 1) P2 entry)"

definition cofactor_clearing :: "point_extproj \<Rightarrow> point_extproj" where
  "cofactor_clearing P =
     (let Q = R1_to_R2 P;
          P = eccdouble P;
          P = eccadd Q P;
          P = eccdouble P;
          P = eccdouble P;
          P = eccdouble P;
          P = eccdouble P;
          P = eccadd Q P;
          P = eccdouble P;
          P = eccdouble P
      in eccdouble P)"

text \<open>One digit of the main loop.\<close>

definition ecc_mul_step :: "point_extproj_precomp list \<Rightarrow> point_extproj \<Rightarrow> u32 \<times> u32 \<Rightarrow> point_extproj" where
  "ecc_mul_step table R d =
     (let R = eccdouble R;
          S = table_lookup_1x8 table (fst d) (snd d);
          R = eccdouble R;
          R = eccdouble R;
          R = eccdouble R
      in eccadd S R)"

text \<open>The result is \<open>None\<close> when the function returns \<open>false\<close>; \<open>Q\<close> is then not written.\<close>

definition ecc_mul :: "point_affine \<Rightarrow> digit list \<Rightarrow> bool \<Rightarrow> point_affine option" where
  "ecc_mul P k clear_cofactor =
     (let R = point_setup P in
      if \<not> ecc_point_validate R then None
      else
        let R = (if clear_cofactor then cofactor_clearing R else R);
            k_odd = modulo_order k;
            k_odd = conversion_to_odd k_odd;
            table = ecc_precomp R;
            ds = fixed_window_recode k_odd;
            S = table_lookup_1x8 table (fst (ds ! t_VARBASE)) (snd (ds ! t_VARBASE));
            R = R2_to_R4 S R;
            R = foldl (ecc_mul_step table) R (rev (take t_VARBASE ds))
        in Some (eccnorm R))"

lemma precomp_loop_spec:
  "r3_rep P2 (xy h) \<Longrightarrow> r2_rep prev (xy g) \<Longrightarrow> i < n \<Longrightarrow>
    length (precomp_loop n P2 prev) = n \<and> r2_rep (precomp_loop n P2 prev ! i) (xy (g + nmul (Suc i) h))"
proof (induction n arbitrary: prev g i)
  case (Suc n)
  define e where "e = R1_to_R2 (eccadd_core P2 prev)"
  have e: "r2_rep e (xy (g + h))"
    unfolding e_def by (rule R1_to_R2_spec [OF eccadd_core_ecp(2) [OF Suc.prems(2,1)]])
  have r: "precomp_loop (Suc n) P2 prev = e # precomp_loop n P2 e" by (simp add: e_def Let_def)
  have len: "length (precomp_loop n P2 e) = n" using Suc.IH [OF Suc.prems(1) e, of 0] by (cases n) simp_all
  show ?case
  proof (cases i)
    case 0
    then show ?thesis using e len unfolding r by simp
  next
    case (Suc j)
    then show ?thesis using Suc.IH [OF Suc.prems(1) e, of j] Suc.prems(3) len unfolding r by (simp add: ac_simps)
  qed
qed simp

lemma ecccopy_rep: "r1_rep P a \<Longrightarrow> ecccopy P = P"
  by (simp add: ecccopy_def r1_rep_def r4_rep_def fp2)

lemma nmul_zmul: "nmul n g = zmul (int n) g"
  by simp

text \<open>The table holds the first eight odd multiples.\<close>

lemma ecc_precomp_spec:
  assumes "r1_rep P (xy g)"
  shows "r2_table (ecc_precomp P) (\<lambda>i. zmul (2 * int i + 1) g) 8"
proof -
  define P2 where "P2 = R1_to_R3 (eccdouble P)"
  have p2: "r3_rep P2 (xy (g + g))"
    unfolding P2_def by (rule R1_to_R3_spec [OF eccdouble_ecp [OF r1_rep_r4 [OF assms]]])
  have e: "r2_rep (R1_to_R2 P) (xy g)" by (rule R1_to_R2_spec [OF assms])
  have n: "NPOINTS_VARBASE - 1 = 7" by (simp add: NPOINTS_VARBASE_def)
  have t: "ecc_precomp P = R1_to_R2 P # precomp_loop 7 P2 (R1_to_R2 P)"
    by (simp only: ecc_precomp_def Let_def ecccopy_rep [OF assms] P2_def n)
  note l = precomp_loop_spec [OF p2 e]
  have "r2_rep (ecc_precomp P ! i) (xy (zmul (2 * int i + 1) g))" if "i < 8" for i
  proof (cases i)
    case (Suc j)
    have "zmul (2 * int i + 1) g = g + zmul (int i) (g + g)"
      by (simp only: zmul_add zmul_simps zmul_two [symmetric] zmul_mult [symmetric] mult.commute [of 2] add.commute)
    then show ?thesis using l [of j 7] that by (simp add: t Suc nmul_zmul del: nmul.simps zmul_nat)
  qed (simp add: t e)
  then show ?thesis using l [of 0 7] by (simp add: r2_table_def t)
qed

lemma cofactor_clearing_spec:
  assumes "r1_rep P (xy g)"
  shows "r1_rep (cofactor_clearing P) (xy (zmul 392 g))"
proof -
  note dbl = eccdouble_ecp [OF r1_rep_r4] and add = eccadd_ecp [OF R1_to_R2_spec [OF assms]]
  have z: "zmul k g + zmul l g = zmul (k + l) g" "zmul k g + g = zmul (k + 1) g" for k l
    by (simp_all add: zmul_add)
  have "r1_rep P (xy (zmul 1 g))" using assms by simp
  note this [THEN dbl, unfolded z, THEN add, unfolded z, THEN dbl, unfolded z, THEN dbl, unfolded z, THEN dbl, unfolded z,
      THEN dbl, unfolded z, THEN add, unfolded z, THEN dbl, unfolded z, THEN dbl, unfolded z, THEN dbl, unfolded z]
  then show ?thesis by (simp add: cofactor_clearing_def Let_def)
qed

lemma ecc_mul_step_spec:
  assumes "r4_rep R (xy h)" "r2_table table (\<lambda>i. zmul (2 * int i + 1) g) 8" "unat (fst d) < 8" "snd d = 0 \<or> snd d = - 1"
  shows "r4_rep (ecc_mul_step table R d) (xy (zmul 16 h + zmul (window_value d) g))"
proof -
  define S where "S = table_lookup_1x8 table (fst d) (snd d)"
  have "(if snd d = 0 then - zmul (2 * int (unat (fst d)) + 1) g else zmul (2 * int (unat (fst d)) + 1) g) =
      zmul (window_value d) g"
    unfolding window_value_def by (cases "snd d = 0") (simp_all only: refl if_True if_False mult_minus1 mult_1_left zmul_uminus)
  then have S: "r2_rep S (xy (zmul (window_value d) g))"
    using table_lookup_1x8_spec [OF assms(2-4)] by (simp only: S_def)
  note dbl = eccdouble_ecp [OF r1_rep_r4]
  have z: "zmul k h + zmul l h = zmul (k + l) h" for k l by (simp add: zmul_add)
  have "r4_rep R (xy (zmul 1 h))" using assms(1) by simp
  note eccdouble_ecp [OF this, unfolded z, THEN dbl, unfolded z, THEN dbl, unfolded z, THEN dbl, unfolded z]
  note r1_rep_r4 [OF eccadd_ecp [OF S this]]
  then show ?thesis by (simp add: ecc_mul_step_def Let_def S_def)
qed

lemma ecc_mul_loop_spec:
  assumes "r4_rep R (xy h)" "r2_table table (\<lambda>i. zmul (2 * int i + 1) g) 8"
  shows "\<forall>d\<in>set ds. unat (fst d) < 8 \<and> (snd d = 0 \<or> snd d = - 1) \<Longrightarrow>
    r4_rep (foldl (ecc_mul_step table) R (rev ds)) (xy (zmul (16 ^ length ds) h + zmul (horner_sum window_value 16 ds) g))"
proof (induction ds)
  case (Cons d ds)
  then have "r4_rep (ecc_mul_step table (foldl (ecc_mul_step table) R (rev ds)) d)
      (xy (zmul 16 (zmul (16 ^ length ds) h + zmul (horner_sum window_value 16 ds) g) + zmul (window_value d) g))"
    by (intro ecc_mul_step_spec assms(2)) simp_all
  then show ?case
    by (simp add: zmul_plus zmul_mult [symmetric] zmul_add ac_simps)
qed (use assms(1) in simp)

text \<open>
  \<open>ecc_mul\<close> accepts the points of the curve and returns the multiple by the odd representative of
  the scalar; when the order annihilates the point that is the multiple by the scalar.
\<close>

definition odd_scalar :: "nat \<Rightarrow> nat" where
  "odd_scalar k = (let m = k mod order_r in if odd m then m else m + order_r)"

lemma odd_scalar:
  "odd (odd_scalar k)" "odd_scalar k < 2 ^ 249" "odd_scalar k mod order_r = k mod order_r"
proof -
  show "odd (odd_scalar k)" using order_bounds(4) by (simp add: odd_scalar_def Let_def)
  have "k mod order_r < order_r" using order_bounds(1) by simp
  then show "odd_scalar k < 2 ^ 249" using order_bounds(3) by (simp add: odd_scalar_def Let_def)
  show "odd_scalar k mod order_r = k mod order_r" by (simp add: odd_scalar_def Let_def)
qed

lemma odd_scalar_digits:
  assumes "is_scalar k"
  shows "is_scalar (conversion_to_odd (modulo_order k))"
    "digits_val (conversion_to_odd (modulo_order k)) = odd_scalar (digits_val k)"
  using conversion_to_odd_spec [OF modulo_order_spec(1) [OF assms]] modulo_order_spec(2) [OF assms] order_bounds(1)
  by (simp_all add: odd_scalar_def Let_def)

lemma nmul_mod:
  assumes "nmul r g = 0" "a mod r = b mod r"
  shows "nmul a g = nmul b g"
proof -
  have "nmul n g = nmul (n mod r) g" for n
  proof -
    have "nmul n g = nmul (n div r * r + n mod r) g" by simp
    also have "\<dots> = nmul (n mod r) g" by (simp only: nmul_add nmul_mult assms(1) nmul_zero add_0)
    finally show ?thesis .
  qed
  then show ?thesis using assms(2) by metis
qed

lemma ecc_mul_spec:
  fixes c :: bool
  assumes "aff_valid P" "is_scalar k"
  defines "g \<equiv> (if c then zmul 392 (aff_ecp P) else aff_ecp P)"
  shows "\<not> on_curve (aff_point P) \<Longrightarrow> ecc_mul P k c = None"
    "on_curve (aff_point P) \<Longrightarrow> \<exists>Q. ecc_mul P k c = Some Q \<and> aff_normal Q \<and> aff_valid Q \<and> on_curve (aff_point Q) \<and>
      aff_ecp Q = nmul (odd_scalar (digits_val k)) g"
proof -
  have e: "(fq_abs (pe_x (point_setup P)), fq_abs (pe_y (point_setup P))) = aff_point P"
    "f2elm (pe_x (point_setup P))" "f2elm (pe_y (point_setup P))"
    using assms(1) by (simp_all add: point_setup_def Let_def aff_valid_def aff_point_def fp2)
  have v: "ecc_point_validate (point_setup P) = on_curve (aff_point P)"
    using ecc_point_validate_spec [OF e(2,3)] unfolding e(1) .
  show "ecc_mul P k c = None" if "\<not> on_curve (aff_point P)" using that v by (simp add: ecc_mul_def Let_def)
  assume oc: "on_curve (aff_point P)"
  define R where "R = (if c then cofactor_clearing (point_setup P) else point_setup P)"
  have R: "r1_rep R (xy g)"
    using point_setup_ecp [OF assms(1) oc] cofactor_clearing_spec by (auto simp: R_def g_def)
  define ko where "ko = conversion_to_odd (modulo_order k)"
  have ko: "is_scalar ko" "digits_val ko = odd_scalar (digits_val k)"
    using odd_scalar_digits [OF assms(2)] by (simp_all add: ko_def)
  define ds where "ds = fixed_window_recode ko"
  have ds: "int (digits_val ko) = horner_sum window_value 16 ds" "length ds = 63" "ds ! 62 = (0, - 1)"
    "\<forall>d\<in>set ds. unat (fst d) < 8 \<and> (snd d = 0 \<or> snd d = - 1)"
    using fixed_window_recode_spec [OF ko(1)] odd_scalar [of "digits_val k"] by (simp_all add: ds_def ko(2))
  define table where "table = ecc_precomp R"
  have t: "r2_table table (\<lambda>i. zmul (2 * int i + 1) g) 8" unfolding table_def by (rule ecc_precomp_spec [OF R])
  define S where "S = table_lookup_1x8 table (fst (ds ! 62)) (snd (ds ! 62))"
  have S: "r2_rep S (xy g)" using table_lookup_1x8_spec [OF t, of 0 "- 1"] by (simp add: S_def ds(3))
  define L where "L = foldl (ecc_mul_step table) (R2_to_R4 S R) (rev (take 62 ds))"
  have L: "r4_rep L (xy (zmul (16 ^ 62) g + zmul (horner_sum window_value 16 (take 62 ds)) g))"
  proof -
    have "\<forall>d\<in>set (take 62 ds). unat (fst d) < 8 \<and> (snd d = 0 \<or> snd d = - 1)"
      using ds(4) by (blast dest: in_set_takeD)
    then have "r4_rep L (xy (zmul (16 ^ length (take 62 ds)) g + zmul (horner_sum window_value 16 (take 62 ds)) g))"
      unfolding L_def by (rule ecc_mul_loop_spec [OF R2_to_R4_spec [OF S] t])
    moreover have "length (take 62 ds) = 62" using ds(2) by simp
    ultimately show ?thesis by (simp only:)
  qed
  have "drop 62 ds = [(0, - 1)]" using Cons_nth_drop_Suc [of 62 ds] ds(2,3) by simp
  then have split: "ds = take 62 ds @ [(0, - 1)]" by (metis append_take_drop_id)
  have len: "length (take 62 ds) = 62" using ds(2) by simp
  have "horner_sum window_value 16 ds = horner_sum window_value 16 (take 62 ds @ [(0, - 1)])"
    using split by (rule arg_cong)
  also have "\<dots> = horner_sum window_value 16 (take 62 ds) + 16 ^ 62"
    by (simp only: horner_sum_append len) (simp add: window_value_def)
  finally have "int (odd_scalar (digits_val k)) = 16 ^ 62 + horner_sum window_value 16 (take 62 ds)"
    using ds(1) by (simp only: ko(2) add.commute)
  then have L: "r4_rep L (xy (nmul (odd_scalar (digits_val k)) g))"
    using L by (simp only: nmul_zmul zmul_add)
  have "ecc_mul P k c = Some (eccnorm L)"
    using v oc by (simp add: ecc_mul_def Let_def t_VARBASE L_def S_def R_def ds_def ko_def table_def)
  then show "\<exists>Q. ecc_mul P k c = Some Q \<and> aff_normal Q \<and> aff_valid Q \<and> on_curve (aff_point Q) \<and>
      aff_ecp Q = nmul (odd_scalar (digits_val k)) g"
    using eccnorm_ecp [OF L] by blast
qed

section \<open>Fixed-base multiplication\<close>

definition E_FIXEDBASE :: nat where
  "E_FIXEDBASE = (246 + 1 + 5 * 5 - 1) div (5 * 5)"

text \<open>The table index of a column: its digits in the rows above the sign row, top row first.\<close>

definition comb_digit :: "u32 list \<Rightarrow> nat \<Rightarrow> u32" where
  "comb_digit digits c =
     foldl (\<lambda>digit r. 2 * digit + digits ! (c + r * D_FIXEDBASE)) (digits ! (c + 4 * D_FIXEDBASE)) [3, 2, 1]"

text \<open>The entry of the subtable \<open>v\<close> (16 points each) for a column.\<close>

definition comb_lookup :: "point_precomp list \<Rightarrow> u32 list \<Rightarrow> nat \<Rightarrow> nat \<Rightarrow> point_precomp" where
  "comb_lookup table digits v c =
     table_lookup_fixed_base (drop (v * 2 ^ (5 - 1)) table) (comb_digit digits c) (digits ! c)"

text \<open>
  \<open>table\<close> is \<open>FIXED_BASE_TABLE\<close> of \<open>FourQ_tables.h\<close>. The function always returns \<open>true\<close>.
\<close>

definition ecc_mul_fixed :: "point_precomp list \<Rightarrow> digit list \<Rightarrow> point_affine" where
  "ecc_mul_fixed table k =
     (let v = 5; d = D_FIXEDBASE; e = E_FIXEDBASE;
          temp = modulo_order k;
          temp = conversion_to_odd temp;
          digits = mLSB_set_recode temp;
          R = R5_to_R1 (comb_lookup table digits (v - 1) (d - 1));
          R = foldl (\<lambda>R j. eccmadd (comb_lookup table digits (v - j - 2) (d - (j + 1) * e - 1)) R) R [0..<v - 1];
          R = foldl (\<lambda>R ii.
                foldl (\<lambda>R j. eccmadd (comb_lookup table digits (v - j - 1) (d - j * e + ii - e)) R)
                  (eccdouble R) [0..<v]) R (rev [0..<e - 1])
      in eccnorm R)"

text \<open>A table for the multiples of \<open>g\<close>: entry \<open>u\<close> of subtable \<open>v\<close>.\<close>

definition comb_entry :: "nat \<Rightarrow> nat \<Rightarrow> int" where
  "comb_entry v u = 2 ^ (10 * v) *
     (1 + 2 ^ 50 * horner_sum (\<lambda>j. of_bool (odd (u div 2 ^ j))) (2 ^ 50) [0..<4])"

definition fixed_base_table :: "point_precomp list \<Rightarrow> ecp \<Rightarrow> bool" where
  "fixed_base_table table g =
     (length table = 80 \<and> (\<forall>v<5. \<forall>u<16. r5_rep (table ! (16 * v + u)) (xy (zmul (comb_entry v u) g))))"

text \<open>The column \<open>c\<close> of a recoding, with its sign.\<close>

definition comb_column :: "u32 list \<Rightarrow> nat \<Rightarrow> int" where
  "comb_column digits c = sign_value (digits ! c) *
     (1 + (\<Sum>r<4. int (unat (digits ! (50 + (c + 50 * r)))) * 2 ^ (50 * (r + 1))))"

lemma comb_value_sum:
  "comb_value signs i ds = (\<Sum>n<length ds. sign_value (signs ! ((i + n) mod 50)) * int (unat (ds ! n)) * 2 ^ n)"
proof (induction ds arbitrary: i)
  case (Cons d ds)
  have "(\<Sum>n<length (d # ds). sign_value (signs ! ((i + n) mod 50)) * int (unat ((d # ds) ! n)) * 2 ^ n) =
      sign_value (signs ! (i mod 50)) * int (unat d) +
      (\<Sum>n<length ds. 2 * (sign_value (signs ! ((Suc i + n) mod 50)) * int (unat (ds ! n)) * 2 ^ n))"
    by (simp add: sum.lessThan_Suc_shift ac_simps del: sum.lessThan_Suc)
  then show ?case by (simp add: Cons fixedbase_params sum_distrib_left)
qed simp

text \<open>The scalar is the weighted sum of the columns.\<close>

lemma sum_rows: "(\<Sum>n<200. f n) = (\<Sum>r<4. \<Sum>c<50. f (50 * r + c))" for f :: "nat \<Rightarrow> int"
proof -
  have e: "sum f {r * 50..<r * 50 + 50} = (\<Sum>c<50. f (50 * r + c))" for r
    using sum.shift_bounds_nat_ivl [of f 0 "r * 50" 50] by (simp add: lessThan_atLeast0 ac_simps)
  have "(\<Sum>n<4 * 50. f n) = (\<Sum>r<4. sum f {r * 50..<r * 50 + 50})" by (rule sum.nat_group [symmetric])
  then show ?thesis unfolding e by simp
qed

lemma comb_columns:
  assumes "is_scalar s" "odd (digits_val s)" "digits_val s < 2 ^ 249"
  defines "ds \<equiv> mLSB_set_recode s"
  shows "int (digits_val s) = (\<Sum>c<50. comb_column ds c * 2 ^ c)"
proof -
  note m = mLSB_set_recode_spec [OF assms(1-3), folded ds_def]
  have t: "take 50 ds ! c = ds ! c" "sign_value (take 50 ds ! (n mod 50)) = sign_value (ds ! (n mod 50))"
    if "c < 50" for c n using that by simp_all
  have "int (digits_val s) = (\<Sum>c<50. sign_value (ds ! c) * 2 ^ c) +
      2 ^ 50 * (\<Sum>n<200. sign_value (ds ! (n mod 50)) * int (unat (ds ! (50 + n))) * 2 ^ n)"
    using m(1,4) by (simp add: horner_sum_eq_sum comb_value_sum lessThan_atLeast0)
  also have "(\<Sum>n<200. sign_value (ds ! (n mod 50)) * int (unat (ds ! (50 + n))) * 2 ^ n) =
      (\<Sum>r<4. \<Sum>c<50. sign_value (ds ! c) * int (unat (ds ! (50 + (c + 50 * r)))) * 2 ^ (50 * r + c))"
    unfolding sum_rows by (intro sum.cong refl) (simp add: add.commute)
  also have "\<dots> = (\<Sum>c<50. \<Sum>r<4. sign_value (ds ! c) * int (unat (ds ! (50 + (c + 50 * r)))) * 2 ^ (50 * r + c))"
    by (rule sum.swap)
  also have "2 ^ 50 * \<dots> = (\<Sum>c<50. \<Sum>r<4. sign_value (ds ! c) * int (unat (ds ! (50 + (c + 50 * r)))) * 2 ^ (50 * (r + 1)) * 2 ^ c)"
    unfolding sum_distrib_left by (intro sum.cong refl) (simp add: power_add ac_simps)
  finally show ?thesis
    unfolding comb_column_def distrib_right distrib_left sum_distrib_left sum_distrib_right sum.distrib mult_1_right mult.assoc .
qed

lemma comb_digit_cases:
  assumes "d1 \<in> {0, 1}" "d2 \<in> {0, 1}" "d3 \<in> {0, 1}" "d4 \<in> {0, 1 :: u32}"
  defines "u \<equiv> 2 * (2 * (2 * d4 + d3) + d2) + d1"
  shows "unat u < 16"
    "comb_entry v (unat u) = 2 ^ (10 * v) * (1 + (2 ^ 50 * int (unat d1) + 2 ^ 100 * int (unat d2) +
      2 ^ 150 * int (unat d3) + 2 ^ 200 * int (unat d4)))"
proof -
  have l: "[0..<4] = [0, 1, 2, 3 :: nat]" by (simp add: upt_rec)
  show "unat u < 16" using assms(1-4) by (auto simp: u_def)
  show "comb_entry v (unat u) = 2 ^ (10 * v) * (1 + (2 ^ 50 * int (unat d1) + 2 ^ 100 * int (unat d2) +
      2 ^ 150 * int (unat d3) + 2 ^ 200 * int (unat d4)))"
    using assms(1-4) unfolding comb_entry_def l by (auto simp: u_def)
qed

lemma comb_lookup_spec:
  assumes "fixed_base_table table g" "is_scalar s" "odd (digits_val s)" "digits_val s < 2 ^ 249" "c = 10 * v + i" "v < 5" "i < 10"
  defines "ds \<equiv> mLSB_set_recode s"
  shows "r5_rep (comb_lookup table ds v c) (xy (zmul (2 ^ (10 * v) * comb_column ds c) g))"
proof -
  note m = mLSB_set_recode_spec [OF assms(2-4), folded ds_def]
  have c: "c < 50" using assms(5-7) by simp
  have low: "ds ! c \<in> {0, - 1}"
    using m(1,2) c nth_mem [of c "take 50 ds"] by auto
  have high: "ds ! (c + 50 * Suc r) \<in> {0, 1}" if "r < 4" for r
    using m(1,3) c that nth_mem [of "c + 50 * r" "drop 50 ds"] by (auto simp: ac_simps)
  let ?d = "\<lambda>r. ds ! (c + 50 * Suc r)"
  have u: "comb_digit ds c = 2 * (2 * (2 * ?d 3 + ?d 2) + ?d 1) + ?d 0"
    by (simp add: comb_digit_def fixedbase_params)
  note cd = comb_digit_cases [OF high [of 0] high [of 1] high [of 2] high [of 3]]
  have lt: "unat (comb_digit ds c) < 16" unfolding u by (rule cd(1)) simp_all
  have ent: "comb_entry v (unat (comb_digit ds c)) = 2 ^ (10 * v) * (1 + (2 ^ 50 * int (unat (?d 0)) +
      2 ^ 100 * int (unat (?d 1)) + 2 ^ 150 * int (unat (?d 2)) + 2 ^ 200 * int (unat (?d 3))))"
    unfolding u by (rule cd(2)) simp_all
  have t: "r5_table (drop (v * 2 ^ (5 - 1)) table) (\<lambda>u. zmul (comb_entry v u) g) 16"
    using assms(1,6) by (auto simp: r5_table_def fixed_base_table_def ac_simps)
  have l4: "{..<4} = {0, 1, 2, 3 :: nat}" by auto
  have col: "comb_column ds c = sign_value (ds ! c) * (1 + (2 ^ 50 * int (unat (?d 0)) + 2 ^ 100 * int (unat (?d 1)) +
      2 ^ 150 * int (unat (?d 2)) + 2 ^ 200 * int (unat (?d 3))))"
    by (simp add: comb_column_def l4 ac_simps)
  have "(if ds ! c = 0 then zmul (comb_entry v (unat (comb_digit ds c))) g else - zmul (comb_entry v (unat (comb_digit ds c))) g) =
      zmul (2 ^ (10 * v) * comb_column ds c) g"
    unfolding ent col sign_value_def by (cases "ds ! c = 0") (simp_all only: if_True if_False refl mult_1_left
      mult_minus_left mult_minus_right zmul_uminus)
  then show ?thesis
    using table_lookup_fixed_base_spec [OF t lt, of "ds ! c"] low by (simp add: comb_lookup_def)
qed

text \<open>One pass over the subtables at the offset \<open>i\<close> of their columns.\<close>

definition comb_pass :: "u32 list \<Rightarrow> nat \<Rightarrow> int" where
  "comb_pass digits i = (\<Sum>v<5. 2 ^ (10 * v) * comb_column digits (10 * v + i))"

lemma comb_passes: "(\<Sum>c<50. comb_column ds c * 2 ^ c) = (\<Sum>i<10. comb_pass ds i * 2 ^ i)"
proof -
  have e: "(\<Sum>c = v * 10..<v * 10 + 10. comb_column ds c * 2 ^ c) =
      (\<Sum>i<10. 2 ^ (10 * v) * comb_column ds (10 * v + i) * 2 ^ i)" for v
    using sum.shift_bounds_nat_ivl [of "\<lambda>c. comb_column ds c * 2 ^ c" 0 "v * 10" 10]
    by (simp add: lessThan_atLeast0 power_add ac_simps)
  have "(\<Sum>c<5 * 10. comb_column ds c * 2 ^ c) = (\<Sum>v<5. \<Sum>c = v * 10..<v * 10 + 10. comb_column ds c * 2 ^ c)"
    by (rule sum.nat_group [symmetric])
  then have "(\<Sum>c<50. comb_column ds c * 2 ^ c) =
      (\<Sum>v<5. \<Sum>i<10. 2 ^ (10 * v) * comb_column ds (10 * v + i) * 2 ^ i)"
    unfolding e by simp
  also have "\<dots> = (\<Sum>i<10. \<Sum>v<5. 2 ^ (10 * v) * comb_column ds (10 * v + i) * 2 ^ i)"
    by (rule sum.swap)
  finally show ?thesis by (simp only: comb_pass_def sum_distrib_right)
qed

lemma foldl_eccmadd:
  assumes "\<And>j. j \<in> set js \<Longrightarrow> r5_rep (S j) (xy (zmul (u j) g))"
  shows "r1_rep R (xy (zmul n g)) \<Longrightarrow>
    r1_rep (foldl (\<lambda>R j. eccmadd (S j) R) R js) (xy (zmul (n + sum_list (map u js)) g))"
  using assms
proof (induction js arbitrary: R n)
  case (Cons j js)
  have "r1_rep (eccmadd (S j) R) (xy (zmul (n + u j) g))"
    using eccmadd_ecp [OF Cons.prems(2) Cons.prems(1), of j] by (simp only: zmul_add) simp
  then show ?case using Cons.IH [of "eccmadd (S j) R" "n + u j"] Cons.prems(2) by (simp add: add.assoc)
qed simp

text \<open>
  \<open>ecc_mul_fixed\<close> returns the multiple of the table's point by the odd representative of the scalar.
\<close>

lemma sum_list_5: "sum_list (map f [0..<5]) = (\<Sum>v<5. f (4 - v))" for f :: "nat \<Rightarrow> int"
proof -
  have "[0..<5] = [0, 1, 2, 3, 4 :: nat]" "{..<5} = {0, 1, 2, 3, 4 :: nat}" by (auto simp: upt_rec)
  then show ?thesis by simp
qed

lemma comb_initial: "comb_pass ds 9 = 2 ^ 40 * comb_column ds 49 + (\<Sum>j\<leftarrow>[0..<4]. 2 ^ (10 * (3 - j)) * comb_column ds (10 * (3 - j) + 9))"
proof -
  have "[0..<4] = [0, 1, 2, 3 :: nat]" "{..<5} = {0, 1, 2, 3, 4 :: nat}" by (auto simp: upt_rec)
  then show ?thesis by (simp add: comb_pass_def)
qed

lemma comb_main:
  assumes "fixed_base_table table g" "is_scalar s" "odd (digits_val s)" "digits_val s < 2 ^ 249"
  defines "ds \<equiv> mLSB_set_recode s"
  assumes "n \<le> 9" "r1_rep R (xy (zmul a g))"
  shows "r1_rep (foldl (\<lambda>R ii.
      foldl (\<lambda>R j. eccmadd (comb_lookup table ds (5 - j - 1) (50 - j * 10 + ii - 10)) R) (eccdouble R) [0..<5])
      R (rev [0..<n])) (xy (zmul (2 ^ n * a + (\<Sum>i<n. comb_pass ds i * 2 ^ i)) g))"
  using assms(6,7)
proof (induction n arbitrary: R a)
  case (Suc n)
  have "r1_rep (eccdouble R) (xy (zmul (2 * a) g))"
    using eccdouble_ecp [OF r1_rep_r4 [OF Suc.prems(2)]] by (simp only: zmul_add [symmetric] mult_2)
  moreover have "r5_rep (comb_lookup table ds (5 - j - 1) (50 - j * 10 + n - 10))
      (xy (zmul (2 ^ (10 * (4 - j)) * comb_column ds (10 * (4 - j) + n)) g))" if "j \<in> set [0..<5]" for j
  proof -
    have "50 - j * 10 + n - 10 = 10 * (4 - j) + n" "5 - j - 1 = 4 - j" using that by auto
    then show ?thesis
      using comb_lookup_spec [OF assms(1-4), of "10 * (4 - j) + n" "4 - j" n] Suc.prems(1) by (simp add: ds_def)
  qed
  ultimately have "r1_rep (foldl (\<lambda>R j. eccmadd (comb_lookup table ds (5 - j - 1) (50 - j * 10 + n - 10)) R)
      (eccdouble R) [0..<5])
      (xy (zmul (2 * a + sum_list (map (\<lambda>j. 2 ^ (10 * (4 - j)) * comb_column ds (10 * (4 - j) + n)) [0..<5])) g))"
    by (intro foldl_eccmadd)
  moreover have "sum_list (map (\<lambda>j. 2 ^ (10 * (4 - j)) * comb_column ds (10 * (4 - j) + n)) [0..<5]) = comb_pass ds n"
    unfolding sum_list_5 comb_pass_def by (intro sum.cong refl) auto
  ultimately have "r1_rep (foldl (\<lambda>R j. eccmadd (comb_lookup table ds (5 - j - 1) (50 - j * 10 + n - 10)) R)
      (eccdouble R) [0..<5]) (xy (zmul (2 * a + comb_pass ds n) g))"
    by (simp only:)
  from Suc.IH [OF _ this] Suc.prems(1) show ?case by (simp add: algebra_simps)
qed simp

lemma ecc_mul_fixed_spec:
  assumes "fixed_base_table table g" "is_scalar k"
  shows "aff_valid (ecc_mul_fixed table k)" "on_curve (aff_point (ecc_mul_fixed table k))"
    "aff_ecp (ecc_mul_fixed table k) = nmul (odd_scalar (digits_val k)) g" "aff_normal (ecc_mul_fixed table k)"
proof -
  define s where "s = conversion_to_odd (modulo_order k)"
  have s: "is_scalar s" "odd (digits_val s)" "digits_val s < 2 ^ 249" "digits_val s = odd_scalar (digits_val k)"
    using odd_scalar_digits [OF assms(2)] odd_scalar [of "digits_val k"] by (simp_all add: s_def)
  define ds where "ds = mLSB_set_recode s"
  note look = comb_lookup_spec [OF assms(1) s(1-3), folded ds_def]
  define R0 where "R0 = foldl (\<lambda>R j. eccmadd (comb_lookup table ds (5 - j - 2) (50 - (j + 1) * 10 - 1)) R)
      (R5_to_R1 (comb_lookup table ds 4 49)) [0..<4]"
  have "r1_rep (R5_to_R1 (comb_lookup table ds 4 49)) (xy (zmul (2 ^ 40 * comb_column ds 49) g))"
    using R5_to_R1_spec [OF look [of 49 4 9]] by simp
  moreover have "r5_rep (comb_lookup table ds (5 - j - 2) (50 - (j + 1) * 10 - 1))
      (xy (zmul (2 ^ (10 * (3 - j)) * comb_column ds (10 * (3 - j) + 9)) g))" if "j \<in> set [0..<4]" for j
  proof -
    have "50 - (j + 1) * 10 - 1 = 10 * (3 - j) + 9" "5 - j - 2 = 3 - j" using that by auto
    then show ?thesis using look [of "10 * (3 - j) + 9" "3 - j" 9] by simp
  qed
  ultimately have R0: "r1_rep R0 (xy (zmul (comb_pass ds 9) g))"
    unfolding R0_def comb_initial by (intro foldl_eccmadd)
  define R where "R = foldl (\<lambda>R ii.
      foldl (\<lambda>R j. eccmadd (comb_lookup table ds (5 - j - 1) (50 - j * 10 + ii - 10)) R) (eccdouble R) [0..<5])
      R0 (rev [0..<9])"
  have "r1_rep R (xy (zmul (2 ^ 9 * comb_pass ds 9 + (\<Sum>i<9. comb_pass ds i * 2 ^ i)) g))"
    using comb_main [OF assms(1) s(1-3), of 9] R0 by (simp add: R_def ds_def)
  moreover have "2 ^ 9 * comb_pass ds 9 + (\<Sum>i<9. comb_pass ds i * 2 ^ i) = (\<Sum>i<Suc 9. comb_pass ds i * 2 ^ i)"
    by (simp only: sum.lessThan_Suc add.commute mult.commute)
  moreover have "(\<Sum>i<Suc 9. comb_pass ds i * 2 ^ i) = int (odd_scalar (digits_val k))"
    using comb_columns [OF s(1-3), folded ds_def] comb_passes [of ds] s(4) by simp
  ultimately have "r4_rep R (xy (nmul (odd_scalar (digits_val k)) g))"
    by (simp only: nmul_zmul) (rule r1_rep_r4)
  moreover have "ecc_mul_fixed table k = eccnorm R"
    by (simp add: ecc_mul_fixed_def Let_def R_def R0_def ds_def s_def fixedbase_params E_FIXEDBASE_def)
  ultimately show "aff_valid (ecc_mul_fixed table k)" "on_curve (aff_point (ecc_mul_fixed table k))"
    "aff_ecp (ecc_mul_fixed table k) = nmul (odd_scalar (digits_val k)) g" "aff_normal (ecc_mul_fixed table k)"
    using eccnorm_ecp by simp_all
qed

section \<open>Double scalar multiplication\<close>

text \<open>
  \<open>ecc_mul_double\<close> of the build without endomorphisms: \<open>k\<close> times the generator plus \<open>l\<close> times \<open>Q\<close>.
\<close>

definition ecc_mul_double :: "point_precomp list \<Rightarrow> digit list \<Rightarrow> point_affine \<Rightarrow> digit list \<Rightarrow> point_affine option" where
  "ecc_mul_double table k Q l =
     (case ecc_mul Q l False of
       None \<Rightarrow> None
     | Some A \<Rightarrow>
         let T = point_setup A;
             S = R1_to_R2 T;
             A = ecc_mul_fixed table k;
             T = point_setup A;
             T = eccadd S T
         in Some (eccnorm T))"

lemma ecc_mul_double_spec:
  assumes "fixed_base_table table g" "is_scalar k" "is_scalar l" "aff_valid Q"
  shows "\<not> on_curve (aff_point Q) \<Longrightarrow> ecc_mul_double table k Q l = None"
    "on_curve (aff_point Q) \<Longrightarrow> \<exists>R. ecc_mul_double table k Q l = Some R \<and> aff_normal R \<and> aff_valid R \<and> on_curve (aff_point R) \<and>
      aff_ecp R = nmul (odd_scalar (digits_val k)) g + nmul (odd_scalar (digits_val l)) (aff_ecp Q)"
proof -
  show "ecc_mul_double table k Q l = None" if "\<not> on_curve (aff_point Q)"
    using ecc_mul_spec(1) [OF assms(4,3) that] by (simp add: ecc_mul_double_def)
  assume "on_curve (aff_point Q)"
  then obtain A where A: "ecc_mul Q l False = Some A" "aff_valid A" "on_curve (aff_point A)"
    "aff_ecp A = nmul (odd_scalar (digits_val l)) (aff_ecp Q)"
    using ecc_mul_spec(2) [OF assms(4,3), of False] by auto
  note F = ecc_mul_fixed_spec [OF assms(1,2)]
  define T where "T = eccadd (R1_to_R2 (point_setup A)) (point_setup (ecc_mul_fixed table k))"
  have "r1_rep T (xy (aff_ecp (ecc_mul_fixed table k) + aff_ecp A))"
    unfolding T_def by (intro eccadd_ecp R1_to_R2_spec point_setup_ecp A F)
  note N = eccnorm_ecp [OF r1_rep_r4 [OF this]]
  have "ecc_mul_double table k Q l = Some (eccnorm T)"
    by (simp add: ecc_mul_double_def A(1) Let_def T_def)
  then show "\<exists>R. ecc_mul_double table k Q l = Some R \<and> aff_normal R \<and> aff_valid R \<and> on_curve (aff_point R) \<and>
      aff_ecp R = nmul (odd_scalar (digits_val k)) g + nmul (odd_scalar (digits_val l)) (aff_ecp Q)"
    using N F(3) A(4) by simp
qed

end
