(* ===== verification/FourQ_Hash.thy ===== *)
theory FourQ_Hash
  imports FourQ_Codec FourQ_Mul
begin

text \<open>
  Hashing to the curve (\<open>oZKS/fourq/hash_to_curve.c\<close>): from an element \<open>r\<close> of GF(p^2) to a point, by the
  Elligator map of a Montgomery form of FourQ, a square root in GF(p^2), the birational map to the
  Edwards form, and the clearing of the cofactor. The definitions follow the groups of the straight-line
  code and keep its names; C variables that are assigned again are shadowed.
\<close>

section \<open>Operations\<close>

text \<open>The constants of \<open>FourQ_params.h\<close>.\<close>

definition h2c_con1 :: felm_t where "h2c_con1 = [6651107, 9223372036850072768]"
definition h2c_con2 :: felm_t where "h2c_con2 = [7387256751988042354, 3037402815281497692]"
definition h2c_b0 :: felm_t where "h2c_b0 = [11442141257964318772, 5379339658566403666]"
definition h2c_b1 :: felm_t where "h2c_b1 = [17, 9223372036854775796]"
definition h2c_A0 :: felm_t where "h2c_A0 = [1289, 9223372036854774896]"
definition h2c_A1 :: felm_t where "h2c_A1 = [12311914987857864728, 7168186187914912079]"

text \<open>Comparison (0 for equal, -1 for unequal digits) and selection in constant time.\<close>

definition fpeq1271 :: "felm_t \<Rightarrow> felm_t \<Rightarrow> digit" where
  "fpeq1271 a b =
     (let c = or_digits 0 (map2 (\<lambda>x y. x XOR y) a b)
      in signed_drop_bit 63 ((- drop_bit 1 c) OR (- (c AND 1))))"

definition fpselect :: "felm_t \<Rightarrow> felm_t \<Rightarrow> digit \<Rightarrow> felm_t" where
  "fpselect a b selector = map2 (\<lambda>x y. (selector AND (x XOR y)) XOR x) a b"

text \<open>The denominator \<open>1 + (2 + i) r\<^sup>2\<close> in \<open>(t0, t2)\<close>; \<open>(2 + i) r\<^sup>2\<close> is \<open>(t3, t2)\<close>.\<close>

definition h2c_start :: "felm_t \<Rightarrow> felm_t \<Rightarrow> felm_t \<times> felm_t \<times> felm_t" where
  "h2c_start r0 r1 =
     (let one = [1, 0]; t0 = fpadd1271 r0 r1; t1 = fpsub1271 r0 r1; t0 = fpmul1271 t0 t1;
          t1 = fpmul1271 r0 r1; t1 = fpadd1271 t1 t1; t2 = fpadd1271 t1 t1;
          t2 = fpadd1271 t0 t2; t0 = fpadd1271 t0 t0; t3 = fpsub1271 t0 t1;
          t0 = fpadd1271 t3 one
      in (t0, t2, t3))"

text \<open>The first candidate \<open>- A / D\<close>: \<open>- A D\<close> in \<open>(t4, - t1)\<close>, the norm of its right-hand side in \<open>t5\<close>.\<close>

definition h2c_candidate :: "felm_t \<Rightarrow> felm_t \<Rightarrow> felm_t \<Rightarrow> felm_t \<times> felm_t \<times> felm_t \<times> felm_t" where
  "h2c_candidate t0 t2 t3 =
     (let t4 = fpmul1271 h2c_A0 t0; t1 = fpmul1271 h2c_A1 t2; t4 = fpsub1271 t1 t4;
          t5 = fpmul1271 h2c_A1 t0; t1 = fpmul1271 h2c_A0 t2; t1 = fpadd1271 t1 t5;
          t5 = fpadd1271 t0 t2; t6 = fpsub1271 t0 t2; t6 = fpmul1271 t5 t6;
          t5 = fpmul1271 t2 t0; t5 = fpadd1271 t5 t5; t7 = fpmul1271 h2c_con1 t3;
          t8 = fpsub1271 t6 t7; t7 = fpmul1271 h2c_con2 t2; t8 = fpadd1271 t7 t8;
          t7 = fpmul1271 h2c_con1 t2; t9 = fpsub1271 t5 t7; t7 = fpmul1271 h2c_con2 t3;
          t9 = fpsub1271 t9 t7; t5 = fpmul1271 t4 t8; t7 = fpmul1271 t1 t9;
          t7 = fpadd1271 t5 t7; t5 = fpmul1271 t4 t9; t10 = fpmul1271 t1 t8;
          t10 = fpsub1271 t5 t10; t5 = fpsqr1271 t7; t7 = fpsqr1271 t10; t5 = fpadd1271 t5 t7
      in (t1, t4, t6, t5))"

text \<open>The numerator of the candidate whose right-hand side is a square.\<close>

definition h2c_choose :: "felm_t \<Rightarrow> felm_t \<Rightarrow> felm_t \<Rightarrow> felm_t \<times> felm_t" where
  "h2c_choose t1 t4 t5 =
     (let one = [1, 0]; t7 = fpexp1251 t5; t7 = fpsqr1271 t7; t7 = fpmul1271 t5 t7;
          t8 = fpcopy1271 h2c_A0; t9 = fpcopy1271 h2c_A1; t8 = fpneg1271 t8; t9 = fpneg1271 t9;
          t5 = fpadd1271 h2c_A0 t4; t11 = fpsub1271 h2c_A1 t1; selector = fpeq1271 t7 one;
          t3 = fpselect t8 t5 selector; t10 = fpselect t9 t11 selector
      in (t3, t10))"

text \<open>The right-hand side of the curve, times 16 and a fourth power.\<close>

definition h2c_ordinate :: "felm_t \<Rightarrow> felm_t \<Rightarrow> felm_t \<Rightarrow> felm_t \<Rightarrow> felm_t \<Rightarrow> felm_t \<Rightarrow> felm_t \<Rightarrow> felm_t \<times> felm_t" where
  "h2c_ordinate t0 t1 t2 t3 t4 t6 t10 =
     (let t5 = fpmul1271 t0 t3; t8 = fpmul1271 t2 t10; t8 = fpsub1271 t5 t8;
          t5 = fpmul1271 t2 t3; t9 = fpmul1271 t0 t10; t9 = fpadd1271 t5 t9;
          t5 = fpadd1271 t3 t10; t11 = fpsub1271 t3 t10; t5 = fpmul1271 t5 t11;
          t11 = fpmul1271 t3 t10; t11 = fpadd1271 t11 t11; t12 = fpmul1271 t3 t4;
          t13 = fpmul1271 t1 t10; t13 = fpadd1271 t12 t13; t14 = fpmul1271 t4 t10;
          t12 = fpmul1271 t1 t3; t12 = fpsub1271 t14 t12; t5 = fpsub1271 t5 t13;
          t11 = fpsub1271 t11 t12; t5 = fpadd1271 t5 t6; t6 = fpmul1271 t0 t2;
          t6 = fpadd1271 t6 t6; t11 = fpadd1271 t11 t6; t6 = fpmul1271 t5 t8;
          t12 = fpmul1271 t9 t11; t6 = fpsub1271 t6 t12; t12 = fpmul1271 t5 t9;
          t8 = fpmul1271 t8 t11; t12 = fpadd1271 t12 t8; t6 = fpadd1271 t6 t6;
          t6 = fpadd1271 t6 t6; t6 = fpadd1271 t6 t6; t6 = fpadd1271 t6 t6;
          t12 = fpadd1271 t12 t12; t12 = fpadd1271 t12 t12; t12 = fpadd1271 t12 t12;
          t12 = fpadd1271 t12 t12
      in (t6, t12))"

text \<open>Twice the sum of numerator and denominator, and its product with the right-hand side.\<close>

definition h2c_product :: "felm_t \<Rightarrow> felm_t \<Rightarrow> felm_t \<Rightarrow> felm_t \<Rightarrow> felm_t \<Rightarrow> felm_t \<Rightarrow> felm_t \<times> felm_t \<times> felm_t \<times> felm_t" where
  "h2c_product t0 t2 t3 t6 t10 t12 =
     (let t14 = fpadd1271 t0 t3; t14 = fpadd1271 t14 t14; t8 = fpadd1271 t2 t10;
          t8 = fpadd1271 t8 t8; t4 = fpmul1271 t6 t14; t1 = fpmul1271 t8 t12;
          t4 = fpsub1271 t4 t1; t9 = fpmul1271 t12 t14; t1 = fpmul1271 t6 t8;
          t1 = fpadd1271 t1 t9
      in (t14, t8, t4, t1))"

text \<open>The norms of both, and the number whose root and inverse are taken at once.\<close>

definition h2c_norms :: "felm_t \<Rightarrow> felm_t \<Rightarrow> felm_t \<Rightarrow> felm_t \<Rightarrow> felm_t \<times> felm_t \<times> felm_t" where
  "h2c_norms t1 t4 t6 t12 =
     (let t5 = fpsqr1271 t12; t9 = fpsqr1271 t6; t9 = fpadd1271 t5 t9; t5 = fpsqr1271 t1;
          t11 = fpsqr1271 t4; t11 = fpadd1271 t11 t5; t5 = fpsqr1271 t11; t5 = fpmul1271 t5 t9
      in (t9, t11, t5))"

text \<open>The inverse of the norm of the product, and half the sum of the real part and the root of the norm.\<close>

definition h2c_half :: "felm_t \<Rightarrow> felm_t \<Rightarrow> felm_t \<Rightarrow> felm_t \<Rightarrow> felm_t \<times> felm_t" where
  "h2c_half t5 t6 t9 t11 =
     (let t7 = fpexp1251 t5; t13 = fpsqr1271 t7; t13 = fpsqr1271 t13; t13 = fpmul1271 t11 t13;
          t13 = fpmul1271 t9 t13; t13 = fpmul1271 t5 t13; t7 = fpmul1271 t13 t7;
          t7 = fpmul1271 t5 t7; t5 = fpadd1271 t6 t7; t5 = fpdiv1271 t5
      in (t13, t5))"

text \<open>The square root of the right-hand side, up to the factor \<open>t9\<close>.\<close>

definition h2c_root :: "felm_t \<Rightarrow> felm_t \<Rightarrow> felm_t \<times> felm_t \<times> felm_t" where
  "h2c_root t5 t12 =
     (let one = [1, 0]; t9 = fpexp1251 t5; t11 = fpsqr1271 t9; t11 = fpsqr1271 t11;
          t11 = fpmul1271 t5 t11; t9 = fpmul1271 t5 t9; t11 = fpmul1271 t11 t12;
          t7 = fpsqr1271 t9; t15 = fpadd1271 one one; t16 = fpcopy1271 t11;
          x0 = fpcopy1271 t15; x0 = fpneg1271 x0; selector = fpeq1271 t5 t7;
          t7 = fpselect t15 t16 selector; t11 = fpselect t16 x0 selector
      in (t9, t7, t11))"

text \<open>The y-coordinate of the Edwards curve.\<close>

definition h2c_y :: "felm_t \<Rightarrow> felm_t \<Rightarrow> felm_t \<Rightarrow> felm_t \<Rightarrow> felm_t \<Rightarrow> felm_t \<Rightarrow> felm_t \<Rightarrow> felm_t \<Rightarrow> felm_t \<Rightarrow> felm_t \<times> felm_t \<times> felm_t" where
  "h2c_y t0 t1 t2 t3 t4 t6 t10 t12 t13 =
     (let t13 = fpadd1271 t13 t13; y0 = fpsub1271 t3 t0; y1 = fpsub1271 t10 t2;
          t16 = fpmul1271 y0 t6; t15 = fpmul1271 y1 t12; t15 = fpsub1271 t16 t15;
          y0 = fpmul1271 y0 t12; t16 = fpmul1271 t6 y1; t16 = fpadd1271 t16 y0;
          x0 = fpmul1271 t15 t4; y0 = fpmul1271 t1 t16; y0 = fpadd1271 x0 y0;
          y1 = fpmul1271 t4 t16; x0 = fpmul1271 t1 t15; y1 = fpsub1271 y1 x0;
          y0 = fpmul1271 y0 t13; y1 = fpmul1271 y1 t13
      in (y0, y1, t13))"

text \<open>The x-coordinate.\<close>

definition h2c_x :: "felm_t \<Rightarrow> felm_t \<Rightarrow> felm_t \<Rightarrow> felm_t \<Rightarrow> felm_t \<Rightarrow> felm_t \<Rightarrow> felm_t \<Rightarrow> felm_t \<Rightarrow> felm_t \<Rightarrow> felm_t \<Rightarrow> felm_t \<Rightarrow> felm_t \<Rightarrow> felm_t \<times> felm_t" where
  "h2c_x t0 t1 t2 t3 t4 t7 t8 t9 t10 t11 t13 t14 =
     (let t15 = fpmul1271 h2c_b0 t3; x0 = fpmul1271 h2c_b1 t10; t15 = fpsub1271 t15 x0;
          t16 = fpmul1271 h2c_b0 t10; x0 = fpmul1271 h2c_b1 t3; t16 = fpadd1271 t16 x0;
          t5 = fpmul1271 t15 t4; x0 = fpmul1271 t1 t16; x0 = fpadd1271 x0 t5;
          x1 = fpmul1271 t4 t16; t5 = fpmul1271 t1 t15; x1 = fpsub1271 x1 t5;
          t5 = fpmul1271 x0 t0; t15 = fpmul1271 x1 t2; t15 = fpsub1271 t5 t15;
          t5 = fpmul1271 x1 t0; t16 = fpmul1271 x0 t2; t16 = fpadd1271 t5 t16;
          t5 = fpmul1271 t15 t14; x0 = fpmul1271 t16 t8; x0 = fpsub1271 t5 x0;
          t5 = fpmul1271 t15 t8; x1 = fpmul1271 t16 t14; x1 = fpadd1271 x1 t5;
          t5 = fpmul1271 x0 t7; t15 = fpmul1271 x1 t11; t15 = fpsub1271 t5 t15;
          t5 = fpmul1271 t7 x1; t16 = fpmul1271 t11 x0; t16 = fpadd1271 t16 t5;
          t13 = fpmul1271 t13 t9; x0 = fpmul1271 t15 t13; x1 = fpmul1271 t16 t13
      in (x0, x1))"

text \<open>
  The point before the cofactor is cleared, with the two numbers that the code inverts along with the
  square root: the product of the norms, and half of the real part plus the root of the norm.
\<close>

definition h2c_map :: "f2elm_t \<Rightarrow> point_affine \<times> felm_t \<times> felm_t" where
  "h2c_map r =
     (let (t0, t2, t3) = h2c_start (fst r) (snd r);
          (t1, t4, t6, t5) = h2c_candidate t0 t2 t3;
          (t3, t10) = h2c_choose t1 t4 t5;
          (t6, t12) = h2c_ordinate t0 t1 t2 t3 t4 t6 t10;
          (t14, t8, t4, t1) = h2c_product t0 t2 t3 t6 t10 t12;
          (t9, t11, t5) = h2c_norms t1 t4 t6 t12;
          (t13, h) = h2c_half t5 t6 t9 t11;
          (t9, t7, t11) = h2c_root h t12;
          (y0, y1, t13) = h2c_y t0 t1 t2 t3 t4 t6 t10 t12 t13;
          (x0, x1) = h2c_x t0 t1 t2 t3 t4 t7 t8 t9 t10 t11 t13 t14
      in (\<lparr>pa_x = (x0, x1), pa_y = (y0, y1)\<rparr>, t5, h))"

definition HashToCurve :: "f2elm_t \<Rightarrow> eccrypto_status \<times> point_affine" where
  "HashToCurve r =
     (let (out, _, _) = h2c_map r;
          P = point_setup out;
          P = cofactor_clearing P
      in (ECCRYPTO_SUCCESS, eccnorm P))"

section \<open>Comparison and selection\<close>

lemma or_digits_xor: "length a = length b \<Longrightarrow> or_digits 0 (map2 (\<lambda>x y. x XOR y) a b) = 0 \<longleftrightarrow> a = b"
proof -
  have x: "x XOR y = 0 \<longleftrightarrow> x = y" for x y :: digit
    by (auto simp: bit_eq_iff bit_simps)
  have o: "z OR x = 0 \<longleftrightarrow> z = 0 \<and> x = 0" for z x :: digit
    by (auto simp: bit_eq_iff bit_simps)
  have "or_digits z (map2 (\<lambda>x y. x XOR y) a b) = 0 \<longleftrightarrow> z = 0 \<and> a = b" if "length a = length b" for z
    using that by (induction a b arbitrary: z rule: list_induct2) (auto simp: x o)
  then show "length a = length b \<Longrightarrow> ?thesis" by simp
qed

lemma bit_63_unat: "2 ^ 63 \<le> unat w \<Longrightarrow> bit (w :: digit) 63"
proof -
  assume a: "2 ^ 63 \<le> unat w"
  have "unat w < 2 ^ 64" using unsigned_less [where 'a = nat, of w] by simp
  then have "unat w div 2 ^ 63 = 1" using a by (simp add: div_nat_eqI)
  then show ?thesis
    using bit_unsigned_iff [of w 63, where 'a = nat] by (simp add: bit_iff_odd [of "unat w"])
qed

lemma split_low_bit: "drop_bit 1 c = 0 \<Longrightarrow> c AND 1 = 0 \<Longrightarrow> (c :: digit) = 0"
proof (rule bit_word_eqI)
  fix n assume d: "drop_bit 1 c = 0" "c AND 1 = 0" and "n < LENGTH(64)"
  show "bit c n = bit (0 :: digit) n"
  proof (cases n)
    case 0
    then show ?thesis using arg_cong [OF d(2), of "\<lambda>w. bit w 0"] by (simp add: bit_and_iff)
  next
    case (Suc m)
    then show ?thesis using arg_cong [OF d(1), of "\<lambda>w. bit w m"] by (simp add: bit_drop_bit_eq)
  qed
qed

lemma half_word: "unat (drop_bit 1 (c :: digit)) \<le> 2 ^ 63"
proof -
  have half: "n < m \<Longrightarrow> m = 2 * h \<Longrightarrow> n div 2 ^ 1 \<le> h" for n m h :: nat by simp
  have "unat c < 2 ^ 64" using unsigned_less [where 'a = nat, of c] by simp
  from half [OF this, of "2 ^ 63"] show ?thesis by (simp only: unat_drop_bit_eq) (simp only: drop_bit_eq_div, simp)
qed

lemma sign_fill: "bit (w :: digit) 63 \<Longrightarrow> signed_drop_bit 63 w = - 1"
proof (rule bit_word_eqI)
  fix n assume "bit w 63" "n < LENGTH(64)"
  then show "bit (signed_drop_bit 63 w) n = bit (- 1 :: digit) n"
    by (cases n) (simp_all add: bit_signed_drop_bit_iff)
qed

text \<open>The sign mask of a digit that is not zero.\<close>

lemma nonzero_mask:
  "signed_drop_bit 63 ((- drop_bit 1 c) OR (- (c AND 1))) = (if c = 0 then 0 else - 1 :: digit)"
proof (cases "c = 0")
  case False
  define w where "w = (- drop_bit 1 c) OR (- (c AND 1))"
  have top: "bit (- x :: digit) 63" if "x \<noteq> 0" "unat x \<le> 2 ^ 63" for x
  proof -
    have u: "unat (- x) = 2 ^ 64 - unat x" using that(1) unat_sub_if' [of 0 x] by (simp add: unat_eq_0)
    have half: "x \<le> h \<Longrightarrow> m = 2 * h \<Longrightarrow> h \<le> m - x" for h m x :: nat by simp
    have "2 ^ 63 \<le> unat (- x)" unfolding u by (rule half [OF that(2)]) simp
    then show ?thesis by (rule bit_63_unat)
  qed
  have "bit w 63"
  proof (cases "drop_bit 1 c = 0")
    case True
    then have "c AND 1 \<noteq> 0" using False split_low_bit by blast
    then have "c AND 1 = 1" by (simp add: and_one_eq)
    then show ?thesis using True by (simp add: w_def)
  next
    case False
    then show ?thesis using top [OF False half_word] by (simp add: w_def bit_or_iff)
  qed
  then show ?thesis using False sign_fill [of w] by (simp add: w_def)
qed simp

lemma fpeq1271_spec:
  assumes "length a = length b"
  shows "fpeq1271 a b = (if a = b then 0 else - 1)"
  unfolding fpeq1271_def Let_def nonzero_mask or_digits_xor [OF assms] by (rule refl)

lemma fpselect_spec:
  assumes "felm a" "felm b" "length c = length d"
  shows "fpselect a b (fpeq1271 c d) = (if c = d then a else b)"
proof -
  have l: "length a = length b" using assms by (simp add: felm_length)
  have s: "fpselect a b m = select_digits m a b" for m by (simp add: fpselect_def select_digits_def)
  show ?thesis using fpeq1271_spec [OF assms(3)] by (simp add: s select_digits_mask [OF l])
qed

text \<open>Digits are equal where the elements are, except for the two representations of 0.\<close>

lemma felm_eq_iff: "felm a \<Longrightarrow> felm b \<Longrightarrow> fp_abs a \<noteq> 0 \<Longrightarrow> a = b \<longleftrightarrow> fp_abs a = fp_abs b"
proof
  assume f: "felm a" "felm b" "fp_abs a \<noteq> 0" and e: "fp_abs a = fp_abs b"
  have n: "digits_val a < p1271" "digits_val b < p1271"
    using felm_nonzero [OF f(1,3)] felm_nonzero [OF f(2)] f(3) e by simp_all
  have "digits_val a mod p1271 = digits_val b mod p1271" using e by (simp only: fp_abs_def gfp_of_nat_eq)
  then have "digits_val a = digits_val b" using n by (simp only: mod_less)
  then show "a = b" using digits_val_inj [of a b] f by (simp add: felm_length)
qed simp

section \<open>5 is not a square\<close>

fun square_steps :: "unit list \<Rightarrow> int \<Rightarrow> int" where
  "square_steps [] s = s"
| "square_steps (_ # us) s = square_steps us (mersenne_red (mersenne_red (mersenne_sqr s)))"

lemma gfp_of_int_dvd: "int p1271 dvd k \<Longrightarrow> (of_int k :: gfp) = 0"
  using gfp_of_nat_zero [of p1271] by (auto elim!: dvdE)

lemma square_steps_power: "(of_int (square_steps us s) :: gfp) = of_int s ^ 2 ^ length us"
proof (induction us s rule: square_steps.induct)
  case (2 u us s)
  have p: "int p1271 = 2 ^ 127 - 1" by (simp add: p1271_def)
  have red: "(of_int (mersenne_red x) :: gfp) = of_int x" for x
    using gfp_of_int_dvd [of "mersenne_red x - x"] mersenne_red_cong [of x] by (simp add: p)
  have "(of_int (square_steps (u # us) s) :: gfp) = (of_int s * of_int s) ^ 2 ^ length us"
    using "2.IH" by (simp add: red mersenne_sqr_def)
  then show ?case by (simp add: power_mult power2_eq_square)
qed simp

lemma five_run: "square_steps (() # lucas_length) 5 = 170141183460469231731687303715884105722"
  by (simp only: lucas_length_def square_steps.simps mersenne_simps)

lemma gfp_euler_run:
  assumes "of_int (square_steps (() # lucas_length) s) = c * (of_int s :: gfp)" "(of_int s :: gfp) \<noteq> 0"
  shows "(of_int s :: gfp) ^ (2 ^ 126 - 1) = c"
proof -
  let ?s = "of_int s :: gfp"
  have l: "length (() # lucas_length) = 126" by (simp add: lucas_length_def)
  have "c * ?s = ?s ^ 2 ^ 126" using square_steps_power [of "() # lucas_length" s] unfolding assms(1) l .
  also have "?s ^ 2 ^ 126 = ?s * ?s ^ (2 ^ 126 - 1)" by (subst p1271_exponents(2)) (rule power_Suc)
  finally have "?s * ?s ^ (2 ^ 126 - 1) = ?s * c" by (simp only: mult.commute)
  then show ?thesis using assms(2) by (simp only: mult_cancel_left simp_thms)
qed

lemma gfp_of_int_nonzero: "0 < k \<Longrightarrow> k < int p1271 \<Longrightarrow> (of_int k :: gfp) \<noteq> 0"
proof
  assume k: "0 < k" "k < int p1271" "(of_int k :: gfp) = 0"
  then have "(of_nat (nat k) :: gfp) = 0" by simp
  then have "p1271 dvd nat k" by (simp only: gfp_of_nat_zero)
  then have "p1271 \<le> nat k" by (rule dvd_imp_le) (use k in simp)
  then show False using k by simp
qed

lemma gfp_five: "(of_int 5 :: gfp) ^ (2 ^ 126 - 1) = - 1"
proof (rule gfp_euler_run)
  have e: "(170141183460469231731687303715884105722 :: int) = 170141183460469231731687303715884105727 - 5"
    by (simp only: Num.arith_simps)
  show "of_int (square_steps (() # lucas_length) 5) = - 1 * (of_int 5 :: gfp)"
    unfolding five_run e of_int_diff gfp_of_int_p by (simp only: diff_0 mult_minus1)
  show "(of_int 5 :: gfp) \<noteq> 0" by (rule gfp_of_int_nonzero) (simp_all add: p1271_def)
qed

text \<open>A number whose Legendre symbol is 1 is a square, and its principal root has it too.\<close>

lemma gfp_square_root: "(z :: gfp) ^ (2 ^ 126 - 1) = 1 \<Longrightarrow> (z ^ 2 ^ 125)\<^sup>2 = z"
proof -
  assume z: "z ^ (2 ^ 126 - 1) = 1"
  have "(z ^ 2 ^ 125)\<^sup>2 = z ^ 2 ^ 126" by (simp only: power_mult [symmetric] mult.commute [of _ 2] p1271_exponents(5))
  also have "\<dots> = z * z ^ (2 ^ 126 - 1)" by (subst p1271_exponents(2)) (rule power_Suc)
  finally show ?thesis by (simp only: z mult_1_right)
qed

section \<open>Straight-line code\<close>

text \<open>
  Rules for one assignment each: a postcondition of the rest of the code is shown for any value that
  represents the right field element.
\<close>

definition yields :: "'a \<Rightarrow> ('a \<Rightarrow> bool) \<Rightarrow> bool" where
  "yields t R = R t"

text \<open>The power \<open>(p - 3) / 4\<close>, kept from being evaluated.\<close>

definition gfp_exp1251 :: "gfp \<Rightarrow> gfp" where
  "gfp_exp1251 x = x ^ (2 ^ 125 - 1)"

lemma yields_done: "R t \<Longrightarrow> yields t R"
  by (simp add: yields_def)

lemma yields_fp:
  "felm a \<Longrightarrow> felm b \<Longrightarrow> (\<And>x. felm x \<Longrightarrow> fp_abs x = fp_abs a + fp_abs b \<Longrightarrow> yields (f x) R) \<Longrightarrow>
    yields (Let (fpadd1271 a b) f) R"
  "felm a \<Longrightarrow> felm b \<Longrightarrow> (\<And>x. felm x \<Longrightarrow> fp_abs x = fp_abs a - fp_abs b \<Longrightarrow> yields (f x) R) \<Longrightarrow>
    yields (Let (fpsub1271 a b) f) R"
  "felm a \<Longrightarrow> felm b \<Longrightarrow> (\<And>x. felm x \<Longrightarrow> fp_abs x = fp_abs a * fp_abs b \<Longrightarrow> yields (f x) R) \<Longrightarrow>
    yields (Let (fpmul1271 a b) f) R"
  "felm a \<Longrightarrow> (\<And>x. felm x \<Longrightarrow> fp_abs x = (fp_abs a)\<^sup>2 \<Longrightarrow> yields (f x) R) \<Longrightarrow> yields (Let (fpsqr1271 a) f) R"
  "felm a \<Longrightarrow> (\<And>x. felm x \<Longrightarrow> fp_abs x = - fp_abs a \<Longrightarrow> yields (f x) R) \<Longrightarrow> yields (Let (fpneg1271 a) f) R"
  "felm a \<Longrightarrow> (\<And>x. felm x \<Longrightarrow> fp_abs x = fp_abs a / 2 \<Longrightarrow> yields (f x) R) \<Longrightarrow> yields (Let (fpdiv1271 a) f) R"
  "felm a \<Longrightarrow> (\<And>x. felm x \<Longrightarrow> fp_abs x = gfp_exp1251 (fp_abs a) \<Longrightarrow> yields (f x) R) \<Longrightarrow>
    yields (Let (fpexp1251 a) f) R"
  "felm a \<Longrightarrow> yields (f a) R \<Longrightarrow> yields (Let (fpcopy1271 a) f) R"
  "(\<And>x. felm x \<Longrightarrow> fp_abs x = 1 \<Longrightarrow> yields (f x) R) \<Longrightarrow> yields (Let [1, 0] f) R"
  by (simp_all add: yields_def fp_felm fp_value fpdiv1271_half fpexp1251_spec(2) fpcopy1271_spec gfp_exp1251_def)

text \<open>The field elements of the constants.\<close>

definition h2c_A :: fq where "h2c_A = Fq (fp_abs h2c_A0) (fp_abs h2c_A1)"
definition h2c_b :: fq where "h2c_b = Fq (fp_abs h2c_b0) (fp_abs h2c_b1)"

lemma h2c_const_felm: "felm h2c_A0" "felm h2c_A1" "felm h2c_b0" "felm h2c_b1" "felm h2c_con1" "felm h2c_con2"
  by (simp_all add: felm_def h2c_A0_def h2c_A1_def h2c_b0_def h2c_b1_def h2c_con1_def h2c_con2_def)

lemma h2c_const_fqi:
  "h2c_A = fqi 170141183460469214908256708492773033225 132229696081166066727345178291010234392"
  "h2c_b = fqi 99231301967130569661901792840482943028 170141183460469231510326374831369486353"
  "Fq (fp_abs h2c_con1) (fp_abs h2c_con2) = fqi 170141183460382475956438884746258644195 56030192382262675459877372450246912626"
  by (simp_all add: h2c_A_def h2c_b_def h2c_A0_def h2c_A1_def h2c_b0_def h2c_b1_def h2c_con1_def h2c_con2_def fp_abs_def fqi_def)

lemma h2c_A_sqr: "Fq (fp_abs h2c_con1) (fp_abs h2c_con2) = h2c_A * h2c_A"
  unfolding h2c_const_fqi
  by (rule sym, rule fqi_mult [where k = 67375397011240959617985916787831579858 and l = 264459392162332107305147143068421204162])
    (simp_all only: Num.arith_simps)

lemma fqi_one: "1 = fqi 1 0"
  by (simp add: fqi_def fq_eq_iff)

lemma fqi_four: "4 = fqi 4 0"
proof -
  have "(4 :: fq) = (1 + 1) + (1 + 1)" by simp
  also have "\<dots> = fqi 4 0" unfolding fqi_one fqi_add by simp
  finally show ?thesis .
qed

lemma h2c_one_plus_d: "1 + curve_d = fqi 4205857648805777768771 125317048443780598345676279555970305165"
  unfolding generator_fqi(3) fqi_one fqi_add by simp

lemma h2c_A_d: "(1 + curve_d) * h2c_A = 2 * (1 - curve_d)"
proof -
  have "(1 + curve_d) * h2c_A = fqi 170141183460469223319972006104328568189 89648270033377266772022048319827601124"
    unfolding h2c_one_plus_d h2c_const_fqi
    by (rule fqi_mult [where k = "-97393440509128175530994635503253645222" and l = 125317048443780589223114906338877005479])
      (simp_all only: Num.arith_simps)
  also have "\<dots> = fqi (- 8411715297611555537538) (- 250634096887561196691352559111940610330)"
    by (rule fqi_eq [where k = 1 and l = 2]) (simp_all only: Num.arith_simps)
  also have "\<dots> = 2 * (1 - curve_d)"
    unfolding generator_fqi(3) mult_2 fqi_one fqi_add by simp
  finally show ?thesis .
qed

lemma h2c_b_d: "(1 + curve_d) * (h2c_b * h2c_b) = - 4"
proof -
  have "h2c_b * h2c_b = fqi 16823430595223111072500 37911487379303165004342125424873871335"
    unfolding h2c_const_fqi
    by (rule fqi_mult [where k = "-112266593136018606535175493609824292475" and l = 198462603934261139065595282069778510079])
      (simp_all only: Num.arith_simps)
  then have "(1 + curve_d) * (h2c_b * h2c_b) = fqi (- 4) 0"
    unfolding h2c_one_plus_d
    by (simp only:) (rule fqi_mult [where k = "-27923607934652418608823995246938891173" and l = 13328419022022871068455],
      simp_all only: Num.arith_simps)
  also have "\<dots> = - 4" using fqi_four by (simp add: fqi_def fq_eq_iff)
  finally show ?thesis .
qed

section \<open>The groups of the code\<close>

definition fq_of :: "felm_t \<Rightarrow> felm_t \<Rightarrow> fq" where
  "fq_of a b = Fq (fp_abs a) (fp_abs b)"

definition fq_cnj :: "fq \<Rightarrow> fq" where
  "fq_cnj x = Fq (fq_re x) (- fq_im x)"

definition fq_scale :: "gfp \<Rightarrow> fq \<Rightarrow> fq" where
  "fq_scale c x = Fq (c * fq_re x) (c * fq_im x)"

lemma fq_of_parts [simp]: "fq_re (fq_of a b) = fp_abs a" "fq_im (fq_of a b) = fp_abs b"
  by (simp_all add: fq_of_def)

lemma fq_cnj_parts [simp]: "fq_re (fq_cnj x) = fq_re x" "fq_im (fq_cnj x) = - fq_im x"
  by (simp_all add: fq_cnj_def)

lemma fq_scale_parts [simp]: "fq_re (fq_scale c x) = c * fq_re x" "fq_im (fq_scale c x) = c * fq_im x"
  by (simp_all add: fq_scale_def)

lemma h2c_A_parts: "fp_abs h2c_A0 = fq_re h2c_A" "fp_abs h2c_A1 = fq_im h2c_A"
  "fp_abs h2c_b0 = fq_re h2c_b" "fp_abs h2c_b1 = fq_im h2c_b"
  by (simp_all add: h2c_A_def h2c_b_def)

lemma h2c_con_parts: "fp_abs h2c_con1 = fq_re (h2c_A * h2c_A)" "fp_abs h2c_con2 = fq_im (h2c_A * h2c_A)"
  by (simp_all add: h2c_A_sqr [symmetric])

lemmas h2c_fields = fq_eq_iff power2_eq_square algebra_simps mult_2 h2c_A_parts h2c_con_parts

lemma fq_Fq [simp]: "Fq (fq_re x) (fq_im x) = x"
  by (simp add: fq_eq_iff)

lemma fq_two_parts [simp]: "fq_re 2 = 2" "fq_im 2 = 0" "fq_re 16 = 16" "fq_im 16 = 0"
proof -
  have n: "numeral n = (Fq (numeral n) 0 :: fq)" for n
    by (induction n) (simp_all only: numeral.simps fq_eq_iff fq_parts fq.sel add_0_left)
  show "fq_re 2 = 2" "fq_im 2 = 0" "fq_re 16 = 16" "fq_im 16 = 0" by (simp_all add: n)
qed

lemmas h2c_substitute = prod.case fq_eq_iff fq.sel fq_of_parts fq_parts fq_two_parts fq_cnj_parts fq_scale_parts
  power2_eq_square h2c_A_parts h2c_con_parts simp_thms

lemma h2c_start_spec:
  assumes "felm r0" "felm r1"
  shows "yields (h2c_start r0 r1) (\<lambda>(t0, t2, t3). felm t0 \<and> felm t2 \<and> felm t3 \<and>
    fq_of t3 t2 = Fq (1 + 1) 1 * (fq_of r0 r1)\<^sup>2 \<and> fq_of t0 t2 = 1 + fq_of t3 t2)"
  unfolding h2c_start_def
  by (insert assms, (assumption | rule yields_fp)+, rule yields_done, simp only: h2c_substitute)
    (simp (no_asm) add: h2c_fields)

lemma h2c_candidate_spec:
  assumes "felm t0" "felm t2" "felm t3"
  shows "yields (h2c_candidate t0 t2 t3) (\<lambda>(t1, t4, t6, t5). felm t1 \<and> felm t4 \<and> felm t6 \<and> felm t5 \<and>
    Fq (fp_abs t4) (- fp_abs t1) = - (h2c_A * fq_of t0 t2) \<and> fp_abs t6 = fq_re (fq_of t0 t2 * fq_of t0 t2) \<and>
    fp_abs t5 = fq_norm (- (h2c_A * fq_of t0 t2) * ((fq_of t0 t2)\<^sup>2 - h2c_A * h2c_A * fq_of t3 t2)))"
  unfolding h2c_candidate_def
  by (insert assms, (assumption | rule yields_fp h2c_const_felm)+, rule yields_done, simp only: h2c_substitute fq_norm_def)
    (simp (no_asm) add: h2c_fields)

lemma h2c_choose_spec:
  assumes "felm t1" "felm t4" "felm t5"
  shows "yields (h2c_choose t1 t4 t5) (\<lambda>(t3, t10). felm t3 \<and> felm t10 \<and>
    fq_of t3 t10 = (if fp_abs t5 ^ (2 ^ 126 - 1) = 1 then - h2c_A else h2c_A + Fq (fp_abs t4) (- fp_abs t1)))"
proof -
  define c where "c = fp_abs t5 ^ (2 ^ 126 - 1)"
  have e: "fp_abs t5 * (gfp_exp1251 (fp_abs t5))\<^sup>2 = c"
    unfolding c_def gfp_exp1251_def power_mult [symmetric] mult.commute [of "2 ^ 125 - 1"] p1271_exponents(3)
    by (subst p1271_exponents(4)) (rule power_Suc [symmetric])
  show ?thesis
    unfolding c_def [symmetric] h2c_choose_def
    apply (insert assms, (assumption | rule yields_fp h2c_const_felm)+, rule yields_done)
    apply (auto simp: fpselect_spec felm_length felm_eq_iff e h2c_A_parts fq_eq_iff)
    done
qed

lemma h2c_ordinate_spec:
  assumes "felm t0" "felm t1" "felm t2" "felm t3" "felm t4" "felm t6" "felm t10"
    "fp_abs t6 = fq_re (fq_of t0 t2 * fq_of t0 t2)"
  shows "yields (h2c_ordinate t0 t1 t2 t3 t4 t6 t10) (\<lambda>(t6, t12). felm t6 \<and> felm t12 \<and>
    fq_of t6 t12 = 16 * (((fq_of t3 t10)\<^sup>2 - fq_of t3 t10 * Fq (fp_abs t4) (- fp_abs t1) + (fq_of t0 t2)\<^sup>2) *
      (fq_of t3 t10 * fq_of t0 t2)))"
  unfolding h2c_ordinate_def
  by (insert assms, (assumption | rule yields_fp)+, rule yields_done, simp only: h2c_substitute)
    (simp (no_asm) add: h2c_fields)

lemma h2c_product_spec:
  assumes "felm t0" "felm t2" "felm t3" "felm t6" "felm t10" "felm t12"
  shows "yields (h2c_product t0 t2 t3 t6 t10 t12) (\<lambda>(t14, t8, t4, t1). felm t14 \<and> felm t8 \<and> felm t4 \<and> felm t1 \<and>
    fq_of t14 t8 = 2 * (fq_of t0 t2 + fq_of t3 t10) \<and> fq_of t4 t1 = fq_of t6 t12 * (2 * (fq_of t0 t2 + fq_of t3 t10)))"
  unfolding h2c_product_def
  by (insert assms, (assumption | rule yields_fp)+, rule yields_done, simp only: h2c_substitute)
    (simp (no_asm) add: h2c_fields)

lemma h2c_norms_spec:
  assumes "felm t1" "felm t4" "felm t6" "felm t12"
  shows "yields (h2c_norms t1 t4 t6 t12) (\<lambda>(t9, t11, t5). felm t9 \<and> felm t11 \<and> felm t5 \<and>
    fp_abs t9 = fq_norm (fq_of t6 t12) \<and> fp_abs t11 = fq_norm (fq_of t4 t1) \<and>
    fp_abs t5 = (fq_norm (fq_of t4 t1))\<^sup>2 * fq_norm (fq_of t6 t12))"
  unfolding h2c_norms_def
  by (insert assms, (assumption | rule yields_fp)+, rule yields_done, simp only: h2c_substitute fq_norm_def)
    (simp (no_asm) add: h2c_fields)

lemma h2c_half_spec:
  assumes "felm t5" "felm t6" "felm t9" "felm t11"
  shows "yields (h2c_half t5 t6 t9 t11) (\<lambda>(t13, h). felm t13 \<and> felm h \<and>
    fp_abs t13 = fp_abs t5 * (fp_abs t9 * (fp_abs t11 * ((gfp_exp1251 (fp_abs t5))\<^sup>2)\<^sup>2)) \<and>
    fp_abs h = (fp_abs t6 + fp_abs t5 * (fp_abs t13 * gfp_exp1251 (fp_abs t5))) / 2)"
  unfolding h2c_half_def
  by (insert assms, (assumption | rule yields_fp)+, rule yields_done, simp only: prod.case simp_thms)

lemma h2c_root_spec:
  assumes "felm h" "felm t12" "fp_abs h \<noteq> 0"
  shows "yields (h2c_root h t12) (\<lambda>(t9, t7, t11). felm t9 \<and> felm t7 \<and> felm t11 \<and>
    fp_abs t9 = fp_abs h * gfp_exp1251 (fp_abs h) \<and>
    (let k = fp_abs h * ((gfp_exp1251 (fp_abs h))\<^sup>2)\<^sup>2 * fp_abs t12 in
      fq_of t7 t11 = (if fp_abs h = (fp_abs t9)\<^sup>2 then Fq 2 k else Fq k (- 2))))"
  unfolding h2c_root_def
  apply (insert assms, (assumption | rule yields_fp)+, rule yields_done)
  apply (simp add: fpselect_spec felm_length felm_eq_iff fq_eq_iff Let_def)
  done

lemma h2c_y_spec:
  assumes "felm t0" "felm t1" "felm t2" "felm t3" "felm t4" "felm t6" "felm t10" "felm t12" "felm t13"
  shows "yields (h2c_y t0 t1 t2 t3 t4 t6 t10 t12 t13) (\<lambda>(y0, y1, u). felm y0 \<and> felm y1 \<and> felm u \<and>
    fp_abs u = 2 * fp_abs t13 \<and>
    fq_of y0 y1 = fq_scale (2 * fp_abs t13) ((fq_of t3 t10 - fq_of t0 t2) * fq_of t6 t12 * fq_cnj (fq_of t4 t1)))"
  unfolding h2c_y_def
  by (insert assms, (assumption | rule yields_fp)+, rule yields_done, simp only: h2c_substitute)
    (simp (no_asm) add: h2c_fields)

lemma h2c_x_spec:
  assumes "felm t0" "felm t1" "felm t2" "felm t3" "felm t4" "felm t7" "felm t8" "felm t9" "felm t10" "felm t11"
    "felm t13" "felm t14"
  shows "yields (h2c_x t0 t1 t2 t3 t4 t7 t8 t9 t10 t11 t13 t14) (\<lambda>(x0, x1). felm x0 \<and> felm x1 \<and>
    fq_of x0 x1 = fq_scale (fp_abs t13 * fp_abs t9)
      (h2c_b * fq_of t3 t10 * fq_cnj (fq_of t4 t1) * fq_of t0 t2 * fq_of t14 t8 * fq_of t7 t11))"
  unfolding h2c_x_def
  by (insert assms, (assumption | rule yields_fp h2c_const_felm)+, rule yields_done, simp only: h2c_substitute)
    (simp (no_asm) add: h2c_fields)

section \<open>Roots and inverses\<close>

lemma exp1251_root: "h * gfp_exp1251 h = h ^ 2 ^ 125"
proof -
  have e: "(2 :: nat) ^ 125 = Suc (2 ^ 125 - 1)" by simp
  have "h * h ^ (2 ^ 125 - 1) = h ^ Suc (2 ^ 125 - 1)" by (rule power_Suc [symmetric])
  then show ?thesis unfolding gfp_exp1251_def e [symmetric] .
qed

lemma exp1251_inverse: "h * ((gfp_exp1251 h)\<^sup>2)\<^sup>2 = inverse h"
proof -
  have e: "Suc ((2 ^ 125 - 1) * 2 * 2) = p1271 - 2" by (simp add: p1271_def)
  have "h * ((gfp_exp1251 h)\<^sup>2)\<^sup>2 = h ^ Suc ((2 ^ 125 - 1) * 2 * 2)"
    unfolding gfp_exp1251_def power_mult [symmetric] by (rule power_Suc [symmetric])
  then show ?thesis unfolding e inverse_gfp_def .
qed

lemma root_sign: "h \<noteq> 0 \<Longrightarrow> (h ^ 2 ^ 125)\<^sup>2 = h \<or> (h ^ 2 ^ 125)\<^sup>2 = - (h :: gfp)"
proof -
  assume h: "h \<noteq> 0"
  have "(h ^ 2 ^ 125)\<^sup>2 = h ^ 2 ^ 126" by (simp only: power_mult [symmetric] mult.commute [of _ 2] p1271_exponents(5))
  also have "\<dots> = h * h ^ (2 ^ 126 - 1)" by (subst p1271_exponents(2)) (rule power_Suc)
  finally show ?thesis using gfp_euler [OF h] by (elim disjE) (simp_all only: mult_1_right mult_minus1_right simp_thms)
qed

lemma fq_divide_cnj: "P \<noteq> 0 \<Longrightarrow> fq_scale (inverse (fq_norm P)) (z * fq_cnj P) = z / P"
proof -
  assume P: "P \<noteq> 0"
  have n: "fq_norm P * inverse (fq_norm P) = 1" using P fq_norm_zero [of P] by simp
  have "fq_cnj P * P = Fq (fq_norm P) 0" by (simp add: fq_eq_iff fq_norm_def power2_eq_square)
  moreover have "fq_scale c u * v = fq_scale c (u * v)" for c u v by (simp add: fq_eq_iff algebra_simps)
  ultimately have "fq_scale (inverse (fq_norm P)) (z * fq_cnj P) * P = fq_scale (inverse (fq_norm P)) (z * Fq (fq_norm P) 0)"
    by (simp only: mult.assoc)
  also have "\<dots> = z" using n by (simp add: fq_eq_iff mult.left_commute [of "inverse _"] mult.commute [of "inverse _"])
  finally show ?thesis using P by (simp add: nonzero_eq_divide_eq)
qed

text \<open>The norm of the right-hand side is a square, since 5 is not.\<close>

lemma norm_two_plus_i: "fq_norm (Fq (1 + 1) 1) = of_int 5"
  by (simp add: fq_norm_def power2_eq_square)

lemma h2c_norm_square:
  fixes A D r :: fq
  defines "N \<equiv> Fq (1 + 1) 1 * r\<^sup>2" and "W \<equiv> - (A * D) * (D\<^sup>2 - A * A * (D - 1))"
  assumes D: "D = 1 + N" and X: "X = (if fq_norm W ^ (2 ^ 126 - 1) = 1 then - A else A - A * D)"
  shows "\<exists>n. fq_norm (16 * ((X\<^sup>2 + A * X * D + D\<^sup>2) * (X * D))) = n\<^sup>2"
proof -
  define c where "c = fq_norm W ^ (2 ^ 126 - 1)"
  have sixteen: "16 = (4 * 4 :: fq)" by simp
  have sq: "fq_norm (16 * (u * u * v)) = (fq_norm (4 * u))\<^sup>2 * fq_norm v" for u v
    unfolding sixteen fq_norm_mult power2_eq_square by (simp only: ac_simps)
  show ?thesis
  proof (cases "c = 1")
    case True
    then have X: "X = - A" using X by (simp only: c_def refl if_True)
    have "16 * ((X\<^sup>2 + A * X * D + D\<^sup>2) * (X * D)) = 16 * (1 * 1 * W)"
      unfolding X W_def by algebra
    then have "fq_norm (16 * ((X\<^sup>2 + A * X * D + D\<^sup>2) * (X * D))) = (fq_norm (4 * 1))\<^sup>2 * fq_norm W"
      by (simp only: sq)
    also have "fq_norm W = (fq_norm W ^ 2 ^ 125)\<^sup>2"
      by (rule gfp_square_root [symmetric]) (use True in \<open>simp only: c_def\<close>)
    finally show ?thesis by (metis power_mult_distrib)
  next
    case False
    then have X: "X = A - A * D" using X by (simp only: c_def if_False)
    have e: "16 * ((X\<^sup>2 + A * X * D + D\<^sup>2) * (X * D)) = 16 * (r * r * (Fq (1 + 1) 1 * W))"
      unfolding X W_def D N_def by algebra
    have n: "fq_norm (16 * ((X\<^sup>2 + A * X * D + D\<^sup>2) * (X * D))) = (fq_norm (4 * r))\<^sup>2 * (of_int 5 * fq_norm W)"
      unfolding e sq [of r "Fq (1 + 1) 1 * W"] fq_norm_mult [of "Fq (1 + 1) 1" W] norm_two_plus_i by (rule refl)
    have "\<exists>m. of_int 5 * fq_norm W = m\<^sup>2"
    proof (cases "fq_norm W = 0")
      case False
      have "c = - 1" using gfp_euler [OF False] \<open>c \<noteq> 1\<close> unfolding c_def by blast
      then have "(of_int 5 * fq_norm W) ^ (2 ^ 126 - 1) = 1"
        unfolding power_mult_distrib gfp_five c_def [symmetric] by simp
      then show ?thesis using gfp_square_root [of "of_int 5 * fq_norm W"] by metis
    qed (simp add: exI [of _ 0])
    then obtain m where "of_int 5 * fq_norm W = m\<^sup>2" by blast
    then show ?thesis unfolding n by (metis power_mult_distrib)
  qed
qed

text \<open>The square root in GF(p^2) from the root \<open>m\<close> of the norm.\<close>

lemma fq_root:
  assumes m: "m\<^sup>2 = fq_norm Y" and h: "h = (fq_re Y + m) / 2" "h \<noteq> 0" and c: "c\<^sup>2 = h \<or> c\<^sup>2 = - h"
    and R: "R = fq_scale c (if h = c\<^sup>2 then Fq 2 (inverse h * fq_im Y) else Fq (inverse h * fq_im Y) (- 2))"
  shows "R\<^sup>2 = 4 * Y"
proof -
  define k where "k = inverse h * fq_im Y"
  have k: "h * k = fq_im Y" using h(2) by (simp add: k_def)
  have h2: "2 * h = fq_re Y + m" using h(1) gfp_two by (simp add: mult.commute)
  have m': "m * m = fq_re Y * fq_re Y + fq_im Y * fq_im Y" using m by (simp add: fq_norm_def power2_eq_square)
  have "h * (4 * h - h * k * k) = h * (4 * fq_re Y)"
  proof -
    have "h * (4 * h - h * k * k) = (2 * h) * (2 * h) - (h * k) * (h * k)" by algebra
    also have "\<dots> = (fq_re Y + m) * (fq_re Y + m) - fq_im Y * fq_im Y" by (simp only: h2 k)
    also have "\<dots> = 2 * fq_re Y * (fq_re Y + m)" using m' by algebra
    also have "\<dots> = h * (4 * fq_re Y)" unfolding h2 [symmetric] by algebra
    finally show ?thesis .
  qed
  then have a: "4 * h - h * k * k = 4 * fq_re Y" using h(2) by (simp only: mult_cancel_left simp_thms)
  have four: "fq_re (4 * Y) = 4 * fq_re Y" "fq_im (4 * Y) = 4 * fq_im Y"
  proof -
    have "4 * Y = (Y + Y) + (Y + Y)" by simp
    then show "fq_re (4 * Y) = 4 * fq_re Y" "fq_im (4 * Y) = 4 * fq_im Y" by (simp_all only: fq_parts) simp_all
  qed
  show ?thesis
  proof (cases "h = c\<^sup>2")
    case True
    then have R': "R = Fq (c * 2) (c * k)" unfolding R k_def by (simp add: fq_eq_iff)
    have cc: "c * c = h" using True by (simp add: power2_eq_square)
    have "fq_re (R\<^sup>2) = 4 * (c * c) - (c * c) * k * k" "fq_im (R\<^sup>2) = 4 * ((c * c) * k)"
      unfolding R' power2_eq_square fq_parts fq.sel by algebra+
    then show ?thesis unfolding fq_eq_iff four cc by (simp only: k a [unfolded k] simp_thms)
  next
    case False
    then have R': "R = Fq (c * k) (c * - 2)" unfolding R k_def by (simp add: fq_eq_iff)
    have cc: "c * c = - h" using False c by (auto simp: power2_eq_square)
    have "fq_re (R\<^sup>2) = (c * c) * k * k - 4 * (c * c)" "fq_im (R\<^sup>2) = - 4 * ((c * c) * k)"
      unfolding R' power2_eq_square fq_parts fq.sel by algebra+
    moreover have "(- h) * k * k - 4 * (- h) = 4 * h - h * k * k" "- 4 * (- h * k) = 4 * (h * k)" by algebra+
    ultimately show ?thesis unfolding fq_eq_iff four cc by (simp only: k a [unfolded k] simp_thms)
  qed
qed

section \<open>The point is on the curve\<close>

lemma h2c_on_curve:
  assumes Y: "Y = 16 * ((X\<^sup>2 + h2c_A * X * D + D\<^sup>2) * (X * D))" and P: "P = Y * (2 * (D + X))" "P \<noteq> 0"
    and R: "R\<^sup>2 = 4 * Y"
    and x: "x * P = 2 * (h2c_b * X * D * (2 * (D + X)) * R)" and y: "y * P = 2 * ((X - D) * Y)"
  shows "on_curve (x, y)"
proof -
  let ?A = h2c_A and ?b = h2c_b and ?d = curve_d
  define Q where "Q = X\<^sup>2 + ?A * X * D + D\<^sup>2"
  have nz: "Y \<noteq> 0" "D + X \<noteq> 0" "X * D \<noteq> 0" "Q \<noteq> 0" using P(2) unfolding P(1) Y Q_def by (simp_all only: mult_eq_0_iff de_Morgan_disj simp_thms)
  have two: "(2 :: fq) \<noteq> 0" by (rule fq_two)
  have "(2 * (D + X)) * (x * Y) = (2 * (D + X)) * (2 * ?b * X * D * R)" using x P(1) by algebra
  then have x1: "x * Y = 2 * ?b * X * D * R" using nz(2) two by (simp only: mult_cancel_left mult_eq_0_iff simp_thms)
  have "2 * Y * (y * (D + X)) = 2 * Y * (X - D)" using y P(1) by algebra
  then have y1: "y * (D + X) = X - D" using nz(1) two by (simp only: mult_cancel_left mult_eq_0_iff simp_thms)
  have "Y * (x\<^sup>2 * Y) = (x * Y)\<^sup>2" by algebra
  also have "\<dots> = 4 * (?b * ?b) * (X * D) * (X * D) * R\<^sup>2" unfolding x1 by algebra
  also have "\<dots> = Y * (16 * (?b * ?b) * (X * D) * (X * D))" unfolding R by algebra
  finally have "Y * (x\<^sup>2 * Y) = Y * (16 * (?b * ?b) * (X * D) * (X * D))" .
  then have "x\<^sup>2 * Y = 16 * (?b * ?b) * (X * D) * (X * D)" using nz(1) by (simp only: mult_cancel_left simp_thms)
  then have "(16 * (X * D)) * (x\<^sup>2 * Q) = (16 * (X * D)) * ((?b * ?b) * (X * D))" unfolding Y Q_def by algebra
  moreover have "16 * (X * D) \<noteq> 0"
  proof -
    have "(16 :: fq) = 2 * (2 * (2 * 2))" by simp
    then show ?thesis using nz(3) two by (simp only: mult_eq_0_iff simp_thms)
  qed
  ultimately have x2: "x\<^sup>2 * Q = (?b * ?b) * (X * D)" by (simp only: mult_cancel_left simp_thms)
  have A: "(1 + ?d) * ?A = 2 * (1 - ?d)" and b: "(1 + ?d) * (?b * ?b) = - 4" by (rule h2c_A_d, rule h2c_b_d)
  have d: "1 + ?d \<noteq> 0"
  proof
    assume "1 + ?d = 0"
    then have "(4 :: fq) = 0" using b by simp
    moreover have "(4 :: fq) = 2 * 2" by simp
    ultimately show False using two by (simp only: mult_eq_0_iff simp_thms)
  qed
  define E where "E = (1 + ?d) * (Q * (D + X)\<^sup>2)"
  have "E * (y\<^sup>2 - x\<^sup>2) = E * (1 + ?d * x\<^sup>2 * y\<^sup>2)"
  proof -
    have "E * (y\<^sup>2 - x\<^sup>2) = (1 + ?d) * (Q * (y * (D + X))\<^sup>2 - (x\<^sup>2 * Q) * (D + X)\<^sup>2)" unfolding E_def by algebra
    also have "\<dots> = (1 + ?d) * Q * (X - D)\<^sup>2 - ((1 + ?d) * (?b * ?b)) * (X * D) * (D + X)\<^sup>2"
      unfolding y1 x2 by algebra
    also have "\<dots> = (1 + ?d) * Q * (X - D)\<^sup>2 + 4 * (X * D) * (D + X)\<^sup>2" unfolding b by algebra
    finally have l: "E * (y\<^sup>2 - x\<^sup>2) = (1 + ?d) * Q * (X - D)\<^sup>2 + 4 * (X * D) * (D + X)\<^sup>2" .
    have "E * (1 + ?d * x\<^sup>2 * y\<^sup>2) = (1 + ?d) * (Q * (D + X)\<^sup>2 + ?d * (x\<^sup>2 * Q) * (y * (D + X))\<^sup>2)"
      unfolding E_def by algebra
    also have "\<dots> = (1 + ?d) * Q * (D + X)\<^sup>2 + ?d * ((1 + ?d) * (?b * ?b)) * (X * D) * (X - D)\<^sup>2"
      unfolding y1 x2 by algebra
    also have "\<dots> = (1 + ?d) * Q * (D + X)\<^sup>2 - 4 * ?d * (X * D) * (X - D)\<^sup>2" unfolding b by algebra
    finally have r: "E * (1 + ?d * x\<^sup>2 * y\<^sup>2) = (1 + ?d) * Q * (D + X)\<^sup>2 - 4 * ?d * (X * D) * (X - D)\<^sup>2" .
    have q: "(1 + ?d) * Q = (1 + ?d) * (X\<^sup>2 + D\<^sup>2) + 2 * (1 - ?d) * (X * D)"
      unfolding Q_def using A by algebra
    show ?thesis unfolding l r q by algebra
  qed
  moreover have "E \<noteq> 0" using d nz by (simp add: E_def)
  ultimately show ?thesis unfolding on_curve_def prod.case by (simp only: mult_cancel_left simp_thms)
qed

lemma h2c_root_norm:
  assumes T: "T = (fq_norm P)\<^sup>2 * fq_norm Y" "T \<noteq> 0" and n: "fq_norm Y = n\<^sup>2"
    and t: "t = T * (fq_norm Y * (fq_norm P * ((gfp_exp1251 T)\<^sup>2)\<^sup>2))" and m: "m = T * (t * gfp_exp1251 T)"
  shows "t = inverse (fq_norm P)" "m\<^sup>2 = fq_norm Y" "P \<noteq> 0"
proof -
  let ?p = "fq_norm P"
  have p: "?p \<noteq> 0" "fq_norm Y \<noteq> 0" using T by auto
  then show "P \<noteq> 0" using fq_norm_zero [of P] by simp
  have "t = (T * ((gfp_exp1251 T)\<^sup>2)\<^sup>2) * (fq_norm Y * ?p)" unfolding t by (simp only: ac_simps)
  also have "\<dots> = inverse T * (fq_norm Y * ?p)" unfolding exp1251_inverse ..
  also have "\<dots> = inverse ?p" unfolding T(1) using p by (simp add: field_simps power2_eq_square)
  finally show i: "t = inverse ?p" .
  have "m = inverse ?p * T ^ 2 ^ 125" unfolding m i exp1251_root [symmetric] by (simp only: ac_simps)
  moreover have "T = (?p * n)\<^sup>2" unfolding T(1) n by (simp only: power_mult_distrib)
  ultimately have "m = inverse ?p * (?p * n) \<or> m = inverse ?p * - (?p * n)"
    using gfp_sqrt [of "?p * n"] by (elim disjE) (simp_all only: simp_thms)
  moreover have "inverse ?p * (?p * n) = n" by (simp only: mult.assoc [symmetric] left_inverse [OF p(1)] mult_1_left)
  ultimately show "m\<^sup>2 = fq_norm Y" unfolding n by (elim disjE) (simp_all only: mult_minus_right power2_minus)
qed

lemma h2c_root_felm:
  assumes "felm h" "felm t12"
  shows "yields (h2c_root h t12) (\<lambda>(t9, t7, t11). felm t9 \<and> felm t7 \<and> felm t11)"
  unfolding h2c_root_def
  apply (insert assms, (assumption | rule yields_fp)+, rule yields_done)
  apply (simp add: fpselect_spec felm_length)
  done

text \<open>The map in the field: denominator and numerator of the Elligator point, and its right-hand side times 16.\<close>

definition elligator_D :: "fq \<Rightarrow> fq" where
  "elligator_D r = 1 + Fq (1 + 1) 1 * r\<^sup>2"

definition elligator_X :: "fq \<Rightarrow> fq" where
  "elligator_X r =
     (let D = elligator_D r; W = - (h2c_A * D) * (D\<^sup>2 - h2c_A * h2c_A * (D - 1))
      in if fq_norm W ^ (2 ^ 126 - 1) = 1 then - h2c_A else h2c_A - h2c_A * D)"

definition elligator_Y :: "fq \<Rightarrow> fq" where
  "elligator_Y r =
     (let D = elligator_D r; X = elligator_X r in 16 * ((X\<^sup>2 + h2c_A * X * D + D\<^sup>2) * (X * D)))"

lemma h2c_map_spec:
  assumes r: "f2elm r" and res: "h2c_map r = (out, T, h)"
  shows "aff_valid out" "fp_abs T \<noteq> 0 \<Longrightarrow> fp_abs h \<noteq> 0 \<Longrightarrow> on_curve (aff_point out)"
    "fp_abs T = (fq_norm (elligator_Y (fq_abs r) * (2 * (elligator_D (fq_abs r) + elligator_X (fq_abs r)))))\<^sup>2 *
      fq_norm (elligator_Y (fq_abs r))"
    "fp_abs T \<noteq> 0 \<Longrightarrow> fq_im (elligator_Y (fq_abs r)) \<noteq> 0 \<Longrightarrow> fp_abs h \<noteq> 0"
proof -
  have fr: "felm (fst r)" "felm (snd r)" using r by (simp_all add: f2elm_def)
  obtain t0 t2 t3 where e1: "h2c_start (fst r) (snd r) = (t0, t2, t3)" by (metis prod_cases3)
  note s1 = h2c_start_spec [OF fr, unfolded yields_def e1 prod.case]
  obtain t1 t4 t6 t5 where e2: "h2c_candidate t0 t2 t3 = (t1, t4, t6, t5)" by (metis prod_cases4)
  have "yields (h2c_candidate t0 t2 t3) (\<lambda>(t1, t4, t6, t5). felm t1 \<and> felm t4 \<and> felm t6 \<and> felm t5 \<and>
    Fq (fp_abs t4) (- fp_abs t1) = - (h2c_A * fq_of t0 t2) \<and> fp_abs t6 = fq_re (fq_of t0 t2 * fq_of t0 t2) \<and>
    fp_abs t5 = fq_norm (- (h2c_A * fq_of t0 t2) * ((fq_of t0 t2)\<^sup>2 - h2c_A * h2c_A * fq_of t3 t2)))"
    using s1 by (intro h2c_candidate_spec) simp_all
  note s2 = this [unfolded yields_def e2 prod.case]
  obtain X0 X1 where e3: "h2c_choose t1 t4 t5 = (X0, X1)" by (metis surj_pair)
  have "yields (h2c_choose t1 t4 t5) (\<lambda>(t3, t10). felm t3 \<and> felm t10 \<and>
    fq_of t3 t10 = (if fp_abs t5 ^ (2 ^ 126 - 1) = 1 then - h2c_A else h2c_A + Fq (fp_abs t4) (- fp_abs t1)))"
    using s2 by (intro h2c_choose_spec) simp_all
  note s3 = this [unfolded yields_def e3 prod.case]
  obtain Y0 Y1 where e4: "h2c_ordinate t0 t1 t2 X0 t4 t6 X1 = (Y0, Y1)" by (metis surj_pair)
  have "yields (h2c_ordinate t0 t1 t2 X0 t4 t6 X1) (\<lambda>(t6, t12). felm t6 \<and> felm t12 \<and>
    fq_of t6 t12 = 16 * (((fq_of X0 X1)\<^sup>2 - fq_of X0 X1 * Fq (fp_abs t4) (- fp_abs t1) + (fq_of t0 t2)\<^sup>2) *
      (fq_of X0 X1 * fq_of t0 t2)))"
    using s1 s2 s3 by (intro h2c_ordinate_spec) simp_all
  note s4 = this [unfolded yields_def e4 prod.case]
  obtain S0 S1 P0 P1 where e5: "h2c_product t0 t2 X0 Y0 X1 Y1 = (S0, S1, P0, P1)" by (metis prod_cases4)
  have "yields (h2c_product t0 t2 X0 Y0 X1 Y1) (\<lambda>(t14, t8, t4, t1). felm t14 \<and> felm t8 \<and> felm t4 \<and> felm t1 \<and>
    fq_of t14 t8 = 2 * (fq_of t0 t2 + fq_of X0 X1) \<and> fq_of t4 t1 = fq_of Y0 Y1 * (2 * (fq_of t0 t2 + fq_of X0 X1)))"
    using s1 s3 s4 by (intro h2c_product_spec) simp_all
  note s5 = this [unfolded yields_def e5 prod.case]
  obtain n9 n11 n5 where e6: "h2c_norms P1 P0 Y0 Y1 = (n9, n11, n5)" by (metis prod_cases3)
  have "yields (h2c_norms P1 P0 Y0 Y1) (\<lambda>(t9, t11, t5). felm t9 \<and> felm t11 \<and> felm t5 \<and>
    fp_abs t9 = fq_norm (fq_of Y0 Y1) \<and> fp_abs t11 = fq_norm (fq_of P0 P1) \<and>
    fp_abs t5 = (fq_norm (fq_of P0 P1))\<^sup>2 * fq_norm (fq_of Y0 Y1))"
    using s4 s5 by (intro h2c_norms_spec) simp_all
  note s6 = this [unfolded yields_def e6 prod.case]
  obtain t13 h' where e7: "h2c_half n5 Y0 n9 n11 = (t13, h')" by (metis surj_pair)
  have "yields (h2c_half n5 Y0 n9 n11) (\<lambda>(t13, h). felm t13 \<and> felm h \<and>
    fp_abs t13 = fp_abs n5 * (fp_abs n9 * (fp_abs n11 * ((gfp_exp1251 (fp_abs n5))\<^sup>2)\<^sup>2)) \<and>
    fp_abs h = (fp_abs Y0 + fp_abs n5 * (fp_abs t13 * gfp_exp1251 (fp_abs n5))) / 2)"
    using s4 s6 by (intro h2c_half_spec) simp_all
  note s7 = this [unfolded yields_def e7 prod.case]
  obtain c k0 k1 where e8: "h2c_root h' Y1 = (c, k0, k1)" by (metis prod_cases3)
  have "yields (h2c_root h' Y1) (\<lambda>(t9, t7, t11). felm t9 \<and> felm t7 \<and> felm t11)"
    using s4 s7 by (intro h2c_root_felm) simp_all
  note s8 = this [unfolded yields_def e8 prod.case]
  obtain y0 y1 u where e9: "h2c_y t0 P1 t2 X0 P0 Y0 X1 Y1 t13 = (y0, y1, u)" by (metis prod_cases3)
  have "yields (h2c_y t0 P1 t2 X0 P0 Y0 X1 Y1 t13) (\<lambda>(y0, y1, u). felm y0 \<and> felm y1 \<and> felm u \<and>
    fp_abs u = 2 * fp_abs t13 \<and>
    fq_of y0 y1 = fq_scale (2 * fp_abs t13) ((fq_of X0 X1 - fq_of t0 t2) * fq_of Y0 Y1 * fq_cnj (fq_of P0 P1)))"
    using s1 s3 s4 s5 s7 by (intro h2c_y_spec) simp_all
  note s9 = this [unfolded yields_def e9 prod.case]
  obtain x0 x1 where e10: "h2c_x t0 P1 t2 X0 P0 k0 S1 c X1 k1 u S0 = (x0, x1)" by (metis surj_pair)
  have "yields (h2c_x t0 P1 t2 X0 P0 k0 S1 c X1 k1 u S0) (\<lambda>(x0, x1). felm x0 \<and> felm x1 \<and>
    fq_of x0 x1 = fq_scale (fp_abs u * fp_abs c)
      (h2c_b * fq_of X0 X1 * fq_cnj (fq_of P0 P1) * fq_of t0 t2 * fq_of S0 S1 * fq_of k0 k1))"
    using s1 s3 s4 s5 s8 s9 by (intro h2c_x_spec) simp_all
  note s10 = this [unfolded yields_def e10 prod.case]
  have out: "out = \<lparr>pa_x = (x0, x1), pa_y = (y0, y1)\<rparr>" and T: "T = n5" and h: "h = h'"
    using res by (simp_all add: h2c_map_def e1 e2 e3 e4 e5 e6 e7 e8 e9 e10)
  show "aff_valid out" using s9 s10 by (simp add: out aff_valid_def f2elm_def)
  define D where "D = fq_of t0 t2"
  define X where "X = fq_of X0 X1"
  define Y where "Y = fq_of Y0 Y1"
  define P where "P = fq_of P0 P1"
  define R where "R = fq_scale (fp_abs c) (fq_of k0 k1)"
  have D: "D = 1 + Fq (1 + 1) 1 * (fq_of (fst r) (snd r))\<^sup>2" using s1 by (simp add: D_def)
  have N: "fq_of t3 t2 = D - 1" using s1 by (simp add: D_def)
  have cand: "Fq (fp_abs t4) (- fp_abs t1) = - (h2c_A * D)" using s2 by (simp add: D_def)
  have X: "X = (if fq_norm (- (h2c_A * D) * (D\<^sup>2 - h2c_A * h2c_A * (D - 1))) ^ (2 ^ 126 - 1) = 1 then - h2c_A
      else h2c_A - h2c_A * D)"
    using s2 s3 unfolding N D_def [symmetric] X_def [symmetric] cand by (simp only: add_uminus_conv_diff simp_thms)
  have Y: "Y = 16 * ((X\<^sup>2 + h2c_A * X * D + D\<^sup>2) * (X * D))"
    using s4 unfolding D_def [symmetric] X_def [symmetric] Y_def [symmetric] cand by (simp add: mult.left_commute mult.commute)
  have P: "P = Y * (2 * (D + X))" using s5 by (simp add: P_def Y_def D_def X_def)
  have S: "fq_of S0 S1 = 2 * (D + X)" using s5 by (simp add: D_def X_def)
  obtain n where n: "fq_norm Y = n\<^sup>2" using h2c_norm_square [OF D X] unfolding Y by blast
  have n5: "fp_abs n5 = (fq_norm P)\<^sup>2 * fq_norm Y" using s6 by (simp add: P_def Y_def)
  have r_abs: "fq_of (fst r) (snd r) = fq_abs r" by (simp add: fq_of_def fq_abs_def)
  have eD: "elligator_D (fq_abs r) = D" unfolding elligator_D_def D r_abs ..
  have eX: "elligator_X (fq_abs r) = X" unfolding elligator_X_def Let_def eD by (rule X [symmetric])
  have eY: "elligator_Y (fq_abs r) = Y" unfolding elligator_Y_def Let_def eD eX by (rule Y [symmetric])
  show "fp_abs T = (fq_norm (elligator_Y (fq_abs r) * (2 * (elligator_D (fq_abs r) + elligator_X (fq_abs r)))))\<^sup>2 *
      fq_norm (elligator_Y (fq_abs r))"
    unfolding eD eX eY P [symmetric] T by (rule n5)
  have t13: "fp_abs t13 = fp_abs n5 * (fq_norm Y * (fq_norm P * ((gfp_exp1251 (fp_abs n5))\<^sup>2)\<^sup>2))"
    using s6 s7 by (simp only: P_def Y_def)
  have nm: "fp_abs t13 = inverse (fq_norm P)" "(fp_abs n5 * (fp_abs t13 * gfp_exp1251 (fp_abs n5)))\<^sup>2 = fq_norm Y" "P \<noteq> 0"
    if "fp_abs T \<noteq> 0"
    using h2c_root_norm [OF n5 that [unfolded T] n t13 refl] by blast+
  have hh: "fp_abs h' = (fq_re Y + fp_abs n5 * (fp_abs t13 * gfp_exp1251 (fp_abs n5))) / 2"
    using s7 by (simp only: Y_def fq_of_parts)
  show "fp_abs h \<noteq> 0" if "fp_abs T \<noteq> 0" "fq_im (elligator_Y (fq_abs r)) \<noteq> 0"
  proof
    assume "fp_abs h = 0"
    then have "fq_re Y + fp_abs n5 * (fp_abs t13 * gfp_exp1251 (fp_abs n5)) = 0"
      using hh gfp_two by (simp only: h divide_eq_0_iff simp_thms)
    then have "(fp_abs n5 * (fp_abs t13 * gfp_exp1251 (fp_abs n5)))\<^sup>2 = (fq_re Y)\<^sup>2"
      by (simp only: add_eq_0_iff power2_minus)
    then have "(fq_im Y)\<^sup>2 = 0" unfolding nm(2) [OF that(1)] fq_norm_def by (simp only: add_cancel_left_right)
    then show False using that(2) unfolding eY by simp
  qed
  assume nz: "fp_abs T \<noteq> 0" "fp_abs h \<noteq> 0"
  note nm = nm [OF nz(1)]
  have h0: "fp_abs h' \<noteq> 0" using nz(2) h by simp
  have "yields (h2c_root h' Y1) (\<lambda>(t9, t7, t11). felm t9 \<and> felm t7 \<and> felm t11 \<and>
    fp_abs t9 = fp_abs h' * gfp_exp1251 (fp_abs h') \<and>
    (let k = fp_abs h' * ((gfp_exp1251 (fp_abs h'))\<^sup>2)\<^sup>2 * fp_abs Y1 in
      fq_of t7 t11 = (if fp_abs h' = (fp_abs t9)\<^sup>2 then Fq 2 k else Fq k (- 2))))"
    using s4 s7 h0 by (intro h2c_root_spec) simp_all
  note s8' = this [unfolded yields_def e8 prod.case Let_def exp1251_root exp1251_inverse]
  have R: "R = fq_scale (fp_abs c) (if fp_abs h' = (fp_abs c)\<^sup>2 then Fq 2 (inverse (fp_abs h') * fq_im Y)
      else Fq (inverse (fp_abs h') * fq_im Y) (- 2))"
    using s8' by (simp only: R_def Y_def fq_of_parts)
  have "(fp_abs c)\<^sup>2 = fp_abs h' \<or> (fp_abs c)\<^sup>2 = - fp_abs h'" using s8' root_sign [OF h0] by (simp only: simp_thms)
  then have R2: "R\<^sup>2 = 4 * Y" using fq_root [OF nm(2) hh h0 _ R] by blast
  have two: "fq_scale (2 * e) z = 2 * fq_scale e z" for e z by (simp add: fq_eq_iff)
  have sc: "fq_scale (2 * e * f) (z * w) = 2 * fq_scale e (z * fq_scale f w)" for e f z w
    by (simp add: fq_eq_iff algebra_simps)
  have y: "fq_of y0 y1 = 2 * ((X - D) * Y / P)"
    using s9 unfolding D_def [symmetric] X_def [symmetric] Y_def [symmetric] P_def [symmetric] nm(1) two
    by (simp only: fq_divide_cnj [OF nm(3)])
  have "fq_of x0 x1 = fq_scale (2 * fp_abs t13 * fp_abs c) (h2c_b * X * fq_cnj P * D * (2 * (D + X)) * fq_of k0 k1)"
    using s9 s10 unfolding S by (simp only: D_def X_def P_def)
  also have "\<dots> = 2 * fq_scale (fp_abs t13) (h2c_b * X * fq_cnj P * D * (2 * (D + X)) * R)"
    unfolding sc R_def [symmetric] ..
  also have "h2c_b * X * fq_cnj P * D * (2 * (D + X)) * R = h2c_b * X * D * (2 * (D + X)) * R * fq_cnj P"
    by (simp only: ac_simps)
  also have "2 * fq_scale (fp_abs t13) \<dots> = 2 * (h2c_b * X * D * (2 * (D + X)) * R / P)" unfolding nm(1) fq_divide_cnj [OF nm(3)] ..
  finally have x: "fq_of x0 x1 = 2 * (h2c_b * X * D * (2 * (D + X)) * R / P)" .
  have cancel: "2 * (z / P) * P = 2 * z" for z
    using nonzero_eq_divide_eq [OF nm(3), of "z / P" z] by (simp only: mult.assoc simp_thms)
  have "on_curve (fq_of x0 x1, fq_of y0 y1)"
    by (rule h2c_on_curve [OF Y P nm(3) R2]) (simp_all only: x y cancel)
  then show "on_curve (aff_point out)" by (simp add: out aff_point_def fq_abs_def fq_of_def)
qed

theorem HashToCurve_spec:
  assumes "f2elm r" "h2c_map r = (out, T, h)" "fp_abs T \<noteq> 0" "fp_abs h \<noteq> 0"
  shows "HashToCurve r = (ECCRYPTO_SUCCESS, snd (HashToCurve r))" "aff_valid (snd (HashToCurve r))"
    "on_curve (aff_point (snd (HashToCurve r)))" "aff_ecp (snd (HashToCurve r)) = zmul 392 (aff_ecp out)"
    "aff_normal (snd (HashToCurve r))"
proof -
  have r4: "r4_rep (cofactor_clearing (point_setup out)) (xy (zmul 392 (aff_ecp out)))"
    by (rule r1_rep_r4 [OF cofactor_clearing_spec [OF point_setup_ecp [OF h2c_map_spec(1,2) [OF assms(1,2)]]]]) (use assms in auto)
  have e: "snd (HashToCurve r) = eccnorm (cofactor_clearing (point_setup out))"
    "fst (HashToCurve r) = ECCRYPTO_SUCCESS"
    by (simp_all add: HashToCurve_def Let_def assms(2))
  then show "HashToCurve r = (ECCRYPTO_SUCCESS, snd (HashToCurve r))" by (metis prod.collapse)
  show "aff_valid (snd (HashToCurve r))" "on_curve (aff_point (snd (HashToCurve r)))"
    "aff_ecp (snd (HashToCurve r)) = zmul 392 (aff_ecp out)" "aff_normal (snd (HashToCurve r))"
    unfolding e using eccnorm_ecp [OF r4] eccnorm_spec [OF r4] by simp_all
qed

text \<open>The map at 0 is not one of the exceptional cases.\<close>

lemma norm_A_run:
  "square_steps (() # lucas_length) 170141183460469178605064371432375455715 = 170141183460469178605064371432375455715"
  by (simp only: lucas_length_def square_steps.simps mersenne_simps)

lemma norm_A: "fq_norm h2c_A = of_int 170141183460469178605064371432375455715"
proof -
  let ?a = "170141183460469214908256708492773033225 :: int" and ?b = "132229696081166066727345178291010234392 :: int"
  have e: "?a * ?a + ?b * ?b = 170141183460469178605064371432375455715 +
      170141183460469231731687303715884105727 * 272906969909697436551666309751495668562"
    by (simp only: Num.arith_simps)
  have "fq_norm h2c_A = of_int (?a * ?a + ?b * ?b)"
    unfolding fq_norm_def h2c_const_fqi(1) fqi_def fq.sel power2_eq_square of_int_add of_int_mult by (rule refl)
  also have "\<dots> = of_int 170141183460469178605064371432375455715"
    unfolding e of_int_add of_int_mult gfp_of_int_p by (simp only: mult_zero_left add_0_right)
  finally show ?thesis .
qed

lemma elligator_zero:
  "fq_im (elligator_Y 0) \<noteq> 0" "elligator_Y 0 * (2 * (elligator_D 0 + elligator_X 0)) \<noteq> 0"
proof -
  have D: "elligator_D 0 = 1" by (simp add: elligator_D_def)
  have neg: "fq_norm (- x) = fq_norm x" for x by (simp add: fq_norm_def)
  have "fq_norm h2c_A ^ (2 ^ 126 - 1) = 1"
    unfolding norm_A by (rule gfp_euler_run, simp only: norm_A_run mult_1_left, rule gfp_of_int_nonzero) (simp_all add: p1271_def)
  moreover have W: "- (h2c_A * 1) * (1\<^sup>2 - h2c_A * h2c_A * (1 - 1)) = - h2c_A" by simp
  ultimately have X: "elligator_X 0 = - h2c_A" unfolding elligator_X_def Let_def D W neg by (simp only: refl if_True)
  have Y: "elligator_Y 0 = 16 * - h2c_A" unfolding elligator_Y_def Let_def D X by (simp add: power2_eq_square)
  have im: "fq_im h2c_A \<noteq> 0"
    unfolding h2c_const_fqi(1) fqi_def fq.sel by (rule gfp_of_int_nonzero) (simp_all add: p1271_def)
  have s: "(16 :: gfp) \<noteq> 0"
  proof -
    have "(16 :: gfp) = of_int 16" by simp
    moreover have "(of_int 16 :: gfp) \<noteq> 0" by (rule gfp_of_int_nonzero) (simp_all add: p1271_def)
    ultimately show ?thesis by (simp only: simp_thms)
  qed
  have "fq_im (elligator_Y 0) = - (16 * fq_im h2c_A)" unfolding Y by simp
  then show y: "fq_im (elligator_Y 0) \<noteq> 0" using im s by (simp only: neg_equal_0_iff_equal mult_eq_0_iff simp_thms)
  then have y0: "elligator_Y 0 \<noteq> 0" by auto
  have "fq_im (elligator_D 0 + elligator_X 0) \<noteq> 0" using im by (simp add: D X)
  moreover have "fq_im 0 = 0" by simp
  ultimately have "elligator_D 0 + elligator_X 0 \<noteq> 0" by metis
  then show "elligator_Y 0 * (2 * (elligator_D 0 + elligator_X 0)) \<noteq> 0"
    using fq_two y0 by (simp only: mult_eq_0_iff simp_thms)
qed

lemma h2c_map_zero:
  assumes "h2c_map ([0, 0], [0, 0]) = (out, T, h)"
  shows "fp_abs T \<noteq> 0" "fp_abs h \<noteq> 0"
proof -
  have z: "f2elm ([0, 0], [0, 0])" "fq_abs ([0, 0], [0, 0]) = 0"
    by (simp_all add: f2elm_def felm_def fq_abs_def fp_abs_def fq_eq_iff)
  note m = h2c_map_spec [OF z(1) assms, unfolded z(2)]
  have "elligator_Y 0 \<noteq> 0" using elligator_zero(1) by auto
  then show t: "fp_abs T \<noteq> 0"
    unfolding m(3) using elligator_zero(2) by (simp only: fq_norm_zero mult_eq_0_iff power_eq_0_iff simp_thms)
  show "fp_abs h \<noteq> 0" by (rule m(4) [OF t elligator_zero(1)])
qed

end
