(* ===== verification/FourQ_Inverse.thy ===== *)
theory FourQ_Inverse
  imports FourQ_Scalar
begin

text \<open>
  Inversion modulo the order of the subgroup (\<open>Montgomery_inversion_mod_order\<close> of
  \<open>oZKS/fourq/crypto_util.c\<close>): a power by a sliding window over the bits of the order minus 2, which the
  code shifts out of an array of four digits. The loops are partial functions; the last lemmas say that
  they return, and what.
\<close>

section \<open>Operations\<close>

definition k_EXPON :: nat where "k_EXPON = 5"

text \<open>The odd powers: each entry is the one before it times the square.\<close>

fun inv_table :: "nat \<Rightarrow> digit list \<Rightarrow> digit list \<Rightarrow> digit list list" where
  "inv_table 0 prev input_a = []"
| "inv_table (Suc n) prev input_a =
     (let entry = Montgomery_multiply_mod_order prev input_a in entry # inv_table n entry input_a)"

text \<open>One bit to the left, the bit shifted out of each digit going into the next; and the loop that shifts
  out the leading zeros and the first one.\<close>

fun shift_one :: "digit \<Rightarrow> digit list \<Rightarrow> digit \<times> digit list" where
  "shift_one temp [] = (temp, [])"
| "shift_one temp (d # ds) =
     (let bit = drop_bit 63 (d AND push_bit 63 1);
          (out, ds) = shift_one bit ds
      in (out, (push_bit 1 d OR temp) # ds))"

partial_function (option) leading_bit :: "int \<Rightarrow> digit list \<Rightarrow> (int \<times> digit list) option" where
  "leading_bit i modulus2 =
     (let i = i - 1; (bit, modulus2) = shift_one 0 modulus2
      in if bit \<noteq> 1 then leading_bit i modulus2 else Some (i, modulus2))"

text \<open>The shift by \<open>count\<close> bits, from the top digit down.\<close>

fun shiftl_digits :: "nat \<Rightarrow> digit \<Rightarrow> digit list \<Rightarrow> digit list" where
  "shiftl_digits s low [] = []"
| "shiftl_digits s low (d # ds) = SHIFTL d low s # shiftl_digits s d ds"

definition mp_shiftl :: "nat \<Rightarrow> digit list \<Rightarrow> digit list" where
  "mp_shiftl s ds = push_bit s (hd ds) # shiftl_digits s (hd ds) (tl ds)"

text \<open>The window: trailing zeros are dropped.\<close>

partial_function (option) strip_window :: "digit \<Rightarrow> nat \<Rightarrow> (digit \<times> nat) option" where
  "strip_window temp count =
     (if temp AND 1 = 0 then strip_window (drop_bit 1 temp) (count - 1) else Some (temp, count))"

definition top_bit :: "digit list \<Rightarrow> digit" where
  "top_bit modulus2 = drop_bit 63 (modulus2 ! (NWORDS_ORDER - 1) AND push_bit 63 1)"

definition top_window :: "digit list \<Rightarrow> digit" where
  "top_window modulus2 =
     drop_bit (64 - k_EXPON) (modulus2 ! (NWORDS_ORDER - 1) AND NOT (drop_bit k_EXPON (- 1)))"

partial_function (option) inv_loop ::
  "digit list list \<Rightarrow> int \<Rightarrow> digit list \<Rightarrow> digit list \<Rightarrow> digit list option" where
  "inv_loop table i modulus2 mc =
     (if i > 0 then
        if top_bit modulus2 = 0 then
          inv_loop table (i - 1) (mp_shiftl 1 modulus2) (Montgomery_multiply_mod_order mc mc)
        else
          Option.bind (strip_window (top_window modulus2) k_EXPON) (\<lambda>(temp, count).
            let mc = ((\<lambda>mc. Montgomery_multiply_mod_order mc mc) ^^ count) mc;
                mc = Montgomery_multiply_mod_order mc (table ! unat (drop_bit 1 (temp - 1)))
            in inv_loop table (i - int count) (mp_shiftl count modulus2) mc)
      else Some mc)"

definition Montgomery_inversion_mod_order :: "digit list \<Rightarrow> digit list option" where
  "Montgomery_inversion_mod_order ma =
     (let modulus2 = snd (mp_subtract curve_order ((replicate NWORDS_ORDER 0)[0 := 2]));
          input_a = Montgomery_multiply_mod_order ma ma;
          table = ma # inv_table (16 - 1) ma input_a
      in Option.bind (leading_bit 256 modulus2) (\<lambda>(i, modulus2). inv_loop table i modulus2 ma))"

section \<open>Shifts\<close>

lemma SHIFTL_spec:
  assumes "0 < s" "s < 64"
  shows "unat (SHIFTL hi lo s) = unat lo div 2 ^ (64 - s) + 2 ^ s * (unat hi mod 2 ^ (64 - s))"
proof -
  have "64 - (64 - s) = s" using assms by simp
  then have "SHIFTL hi lo s = SHIFTR hi lo (64 - s)" by (simp add: SHIFTL_def SHIFTR_def xor.commute)
  then show ?thesis using SHIFTR_spec [of "64 - s" hi lo] assms \<open>64 - (64 - s) = s\<close> by simp
qed

lemma length_shiftl_digits [simp]: "length (shiftl_digits s low ds) = length ds"
  by (induction s low ds rule: shiftl_digits.induct) simp_all

lemma shiftl_digits_spec:
  assumes s: "0 < s" "s < 64"
  shows "digits_val (shiftl_digits s low ds) = (unat low div 2 ^ (64 - s) + digits_val ds * 2 ^ s) mod 2 ^ (64 * length ds)"
proof (induction ds arbitrary: low)
  case (Cons d ds)
  define B S T :: nat where "B = 2 ^ 64" and "S = 2 ^ s" and "T = 2 ^ (64 - s)"
  define M :: nat where "M = 2 ^ (64 * length ds)"
  have B: "B = S * T" using s by (simp add: B_def S_def T_def flip: power_add)
  have pos: "0 < S" "0 < T" by (simp_all add: S_def T_def)
  define a where "a = unat low div T + S * (unat d mod T)"
  define x where "x = unat d div T + digits_val ds * S"
  have "unat low div T < S" using digit_less [of low] B by (intro less_mult_imp_div_less) (simp add: B_def)
  moreover have "S * (unat d mod T + 1) \<le> S * T" using pos(2) by (intro mult_le_mono2) (simp add: Suc_leI)
  ultimately have a: "a < B" unfolding a_def B by (simp only: distrib_left)
  have "unat d = T * (unat d div T) + unat d mod T" by simp
  then have "unat low div T + (unat d + B * digits_val ds) * S = unat low div T + (T * (unat d div T) + unat d mod T + B * digits_val ds) * S"
    by simp
  also have "\<dots> = a + B * x" unfolding a_def x_def B by (simp only: distrib_left distrib_right ac_simps)
  finally have e: "unat low div T + digits_val (d # ds) * S = a + B * x" by (simp add: B_def)
  have "(a + B * x) mod (B * M) = B * ((a + B * x) div B mod M) + (a + B * x) mod B" by (rule mod_mult2_eq)
  also have "\<dots> = B * (x mod M) + a" using a by simp
  finally have m: "(a + B * x) mod (B * M) = a + B * (x mod M)" by simp
  have "2 ^ (64 * length (d # ds)) = B * M" by (simp add: B_def M_def power_add)
  moreover have "digits_val (shiftl_digits s low (d # ds)) = a + B * (x mod M)"
    using Cons SHIFTL_spec [OF s, of d low] by (simp add: a_def x_def B_def M_def S_def T_def)
  ultimately show ?case using e m by (simp only: S_def T_def)
qed simp

lemma mp_shiftl_spec:
  assumes "0 < s" "s < 64" "is_scalar m"
  shows "is_scalar (mp_shiftl s m)" "digits_val (mp_shiftl s m) = digits_val m * 2 ^ s mod 2 ^ 256"
proof -
  obtain d ds where m: "m = d # ds" "length ds = 3" using assms(3) by (cases m) (simp_all add: is_scalar_def)
  have "mp_shiftl s m = shiftl_digits s 0 m" by (simp add: mp_shiftl_def m SHIFTL_def)
  then show "is_scalar (mp_shiftl s m)" "digits_val (mp_shiftl s m) = digits_val m * 2 ^ s mod 2 ^ 256"
    using shiftl_digits_spec [OF assms(1,2), of 0 m] assms(3) by (simp_all add: is_scalar_def)
qed

text \<open>The top bits of a scalar.\<close>

lemma top_digit:
  assumes "is_scalar m"
  shows "unat (m ! 3) = digits_val m div 2 ^ 192"
proof -
  have "drop 3 m = [m ! 3]" using assms by (cases m rule: rev_cases) (auto simp: is_scalar_def nth_append)
  then show ?thesis using digits_val_drop [of 3 m] by simp
qed

lemma top_bit_spec:
  assumes "is_scalar m"
  shows "unat (top_bit m) = digits_val m div 2 ^ 255"
proof -
  have "top_bit m = drop_bit 63 (m ! 3)"
    unfolding top_bit_def by (rule bit_word_eqI) (auto simp: bit_simps dest: bit_imp_le_length)
  then have "unat (top_bit m) = unat (m ! 3) div 2 ^ 63" by (simp only: unat_drop_bit_eq) (simp only: drop_bit_eq_div)
  also have "\<dots> = digits_val m div (2 ^ 192 * 2 ^ 63)" unfolding top_digit [OF assms] by (rule div_mult2_eq [symmetric])
  also have "(2 ^ 192 * 2 ^ 63 :: nat) = 2 ^ 255" by (simp only: power_add [symmetric]) simp
  finally show ?thesis .
qed

lemma top_window_spec:
  assumes "is_scalar m"
  shows "unat (top_window m) = digits_val m div 2 ^ 251"
proof -
  have "top_window m = drop_bit 59 (m ! 3)"
    unfolding top_window_def k_EXPON_def by (rule bit_word_eqI) (auto simp: bit_simps dest: bit_imp_le_length)
  then have "unat (top_window m) = unat (m ! 3) div 2 ^ 59" by (simp only: unat_drop_bit_eq) (simp only: drop_bit_eq_div)
  also have "\<dots> = digits_val m div (2 ^ 192 * 2 ^ 59)" unfolding top_digit [OF assms] by (rule div_mult2_eq [symmetric])
  also have "(2 ^ 192 * 2 ^ 59 :: nat) = 2 ^ 251" by (simp only: power_add [symmetric]) simp
  finally show ?thesis .
qed

section \<open>Powers in the Montgomery representation\<close>

definition mont_val :: "digit list \<Rightarrow> nat \<Rightarrow> bool" where
  "mont_val c a = (is_scalar c \<and> digits_val c = (a * 2 ^ 256) mod order_r)"

lemma mont_val_less: "mont_val c a \<Longrightarrow> digits_val c < order_r"
  using order_bounds(1) by (simp add: mont_val_def)

lemma mont_mult:
  assumes "mont_val c a" "mont_val d b"
  shows "mont_val (Montgomery_multiply_mod_order c d) (a * b)"
proof -
  have s: "is_scalar c" "is_scalar d" using assms by (simp_all add: mont_val_def)
  have "digits_val c * digits_val d < 2 ^ 256 * order_r"
    by (rule mult_strict_mono' [OF scalar_less [OF s(1)] mont_val_less [OF assms(2)] le0 le0])
  note m = Montgomery_multiply_mod_order_spec [OF s this]
  let ?m = "Montgomery_multiply_mod_order c d"
  have v: "digits_val c = (a * 2 ^ 256) mod order_r" "digits_val d = (b * 2 ^ 256) mod order_r"
    using assms by (simp_all only: mont_val_def)
  have "(digits_val ?m * 2 ^ 256) mod order_r = (a * 2 ^ 256 * (b * 2 ^ 256)) mod order_r"
    unfolding m(3) v by (rule mod_mult_eq)
  also have "\<dots> = (a * b * 2 ^ 256 * 2 ^ 256) mod order_r" by (simp only: ac_simps)
  finally have "digits_val ?m mod order_r = (a * b * 2 ^ 256) mod order_r" by (rule cancel_radix)
  then show ?thesis using m(1,2) by (simp add: mont_val_def)
qed

lemma mont_squarings: "mont_val c a \<Longrightarrow> mont_val (((\<lambda>c. Montgomery_multiply_mod_order c c) ^^ n) c) (a ^ 2 ^ n)"
proof (induction n)
  case (Suc n)
  have "a ^ 2 ^ Suc n = a ^ 2 ^ n * a ^ 2 ^ n" by (simp only: power_Suc mult_2 power_add)
  then show ?case using mont_mult [OF Suc.IH Suc.IH] Suc.prems by simp
qed simp

lemma inv_table_spec:
  assumes "mont_val prev b" "mont_val q (a * a)" "j < n"
  shows "mont_val (inv_table n prev q ! j) (b * (a * a) ^ Suc j)"
  using assms
proof (induction n prev q arbitrary: j b rule: inv_table.induct)
  case (2 n prev q)
  note e = mont_mult [OF "2.prems"(1,2)]
  show ?case
  proof (cases j)
    case (Suc i)
    then show ?thesis using "2.IH" [OF refl e "2.prems"(2), of i] "2.prems"(3) by (simp add: Let_def mult.assoc)
  qed (use e in \<open>simp add: Let_def\<close>)
qed simp

lemma strip_window_spec:
  assumes "temp \<noteq> 0"
  shows "\<exists>t z. strip_window temp count = Some (t, count - z) \<and> odd (unat t) \<and> unat temp = unat t * 2 ^ z"
  using assms
proof (induction "unat temp" arbitrary: temp count rule: less_induct)
  case less
  have o: "temp AND 1 = 0 \<longleftrightarrow> even (unat temp)"
    by (simp add: and_one_eq mod_2_eq_odd odd_unat)
  show ?case
  proof (cases "even (unat temp)")
    case True
    have d: "unat (drop_bit 1 temp) = unat temp div 2" by (simp only: unat_drop_bit_eq) (simp only: drop_bit_eq_div power_one_right)
    have n: "unat temp \<noteq> 0" using less.prems by (simp add: unat_eq_0)
    then have "unat temp div 2 \<noteq> 0" using True by (metis dvd_div_eq_0_iff)
    then have "drop_bit 1 temp \<noteq> 0" using d by (metis unat_0)
    moreover have "unat (drop_bit 1 temp) < unat temp" using n unfolding d by simp
    ultimately obtain t z where t: "strip_window (drop_bit 1 temp) (count - 1) = Some (t, count - 1 - z)" "odd (unat t)"
      "unat (drop_bit 1 temp) = unat t * 2 ^ z" using less.hyps by blast
    have e: "unat temp = 2 * unat (drop_bit 1 temp)" unfolding d using True by simp
    have "unat temp = unat t * 2 ^ Suc z" unfolding e t(3) by (simp only: power_Suc ac_simps)
    moreover have "strip_window temp count = Some (t, count - Suc z)"
      using t o True by (subst strip_window.simps) simp
    ultimately show ?thesis using t(2) by blast
  next
    case False
    then have "strip_window temp count = Some (temp, count - 0)" "unat temp = unat temp * 2 ^ 0"
      using o by (subst strip_window.simps, simp) simp
    then show ?thesis using False by blast
  qed
qed

lemma power_split: "b + c = n \<Longrightarrow> (2 :: nat) ^ n = 2 ^ b * 2 ^ c"
  by (auto simp: power_add)

text \<open>One window: \<open>x\<close> are the bits below position \<open>i\<close>, kept at the top of 256 bits.\<close>

lemma window_step:
  fixes E :: nat
  assumes "c \<le> i" "i \<le> 256" and V: "V = (E mod 2 ^ i) * 2 ^ (256 - i)"
  shows "E div 2 ^ (i - c) = (E div 2 ^ i) * 2 ^ c + V div 2 ^ (256 - c)"
    "V * 2 ^ c mod 2 ^ 256 = (E mod 2 ^ (i - c)) * 2 ^ (256 - (i - c))"
proof -
  define x where "x = E mod 2 ^ i"
  have pi: "(2 :: nat) ^ i = 2 ^ (i - c) * 2 ^ c" by (rule power_split) (use assms(1) in simp)
  have "(2 :: nat) ^ (256 - c) = 2 ^ (256 - i) * 2 ^ (i - c)" by (rule power_split) (use assms(1,2) in simp)
  then have "V div 2 ^ (256 - c) = x div 2 ^ (i - c)" unfolding V x_def [symmetric] by (simp add: div_mult2_eq)
  moreover have "E div 2 ^ (i - c) = (E div 2 ^ i) * 2 ^ c + x div 2 ^ (i - c)"
  proof -
    have "E = x + 2 ^ i * (E div 2 ^ i)" unfolding x_def by (rule mod_mult_div_eq [symmetric])
    also have "2 ^ i * (E div 2 ^ i) = 2 ^ (i - c) * ((E div 2 ^ i) * 2 ^ c)" by (subst (1) pi) (simp only: ac_simps)
    finally have "E = x + 2 ^ (i - c) * ((E div 2 ^ i) * 2 ^ c)" .
    then have "E div 2 ^ (i - c) = (x + 2 ^ (i - c) * ((E div 2 ^ i) * 2 ^ c)) div 2 ^ (i - c)" by (rule arg_cong)
    also have "\<dots> = (E div 2 ^ i) * 2 ^ c + x div 2 ^ (i - c)" by (rule div_mult_self2) simp
    finally show ?thesis .
  qed
  ultimately show "E div 2 ^ (i - c) = (E div 2 ^ i) * 2 ^ c + V div 2 ^ (256 - c)" by simp
  have "(2 :: nat) ^ (256 - (i - c)) = 2 ^ (256 - i) * 2 ^ c" by (rule power_split) (use assms(1,2) in simp)
  then have "V * 2 ^ c = x * 2 ^ (256 - (i - c))" unfolding V x_def [symmetric] by (simp only: mult.assoc)
  moreover have "(2 :: nat) ^ 256 = 2 ^ (i - c) * 2 ^ (256 - (i - c))" by (rule power_split) (use assms(1,2) in simp)
  ultimately have "V * 2 ^ c mod 2 ^ 256 = (x mod 2 ^ (i - c)) * 2 ^ (256 - (i - c))" by (simp only: mod_mult_mult2)
  also have "x mod 2 ^ (i - c) = E mod 2 ^ (i - c)" unfolding x_def pi by (rule mod_mod_cancel) simp
  finally show "V * 2 ^ c mod 2 ^ 256 = (E mod 2 ^ (i - c)) * 2 ^ (256 - (i - c))" .
qed

lemma window_fits:
  fixes E :: nat
  assumes "i \<le> 256" "c \<le> 256" "V = (E mod 2 ^ i) * 2 ^ (256 - i)" "odd (V div 2 ^ (256 - c))"
  shows "c \<le> i"
proof (rule ccontr)
  assume "\<not> c \<le> i"
  then have p: "0 < c - i" "256 - c + (c - i) = 256 - i" using assms(1,2) by simp_all
  from p(2) have "(2 :: nat) ^ (256 - i) = 2 ^ (256 - c) * 2 ^ (c - i)" by (rule power_split)
  then have "V div 2 ^ (256 - c) = (E mod 2 ^ i) * 2 ^ (c - i)" unfolding assms(3) by (simp add: mult.left_commute)
  then show False using assms(4) p(1) by simp
qed

section \<open>The loops return\<close>

lemma inv_loop_spec:
  fixes E :: nat
  assumes table: "\<And>j. j < 16 \<Longrightarrow> mont_val (table ! j) (a ^ (2 * j + 1))"
  shows "i \<le> 256 \<Longrightarrow> is_scalar m \<Longrightarrow> digits_val m = (E mod 2 ^ i) * 2 ^ (256 - i) \<Longrightarrow> mont_val mc (a ^ (E div 2 ^ i)) \<Longrightarrow>
    \<exists>r. inv_loop table (int i) m mc = Some r \<and> mont_val r (a ^ E)"
proof (induction i arbitrary: m mc rule: less_induct)
  case (less i)
  note V = less.prems(3)
  show ?case
  proof (cases "i = 0")
    case True
    then have "inv_loop table (int i) m mc = Some mc" by (subst inv_loop.simps) simp
    then show ?thesis using less.prems(4) True by simp
  next
    case False
    then have pos: "int i > 0" by simp
    have top: "top_bit m = 0 \<longleftrightarrow> digits_val m div 2 ^ 255 = 0"
      using top_bit_spec [OF less.prems(2)] by (metis unat_eq_0)
    show ?thesis
    proof (cases "top_bit m = 0")
      case True
      have i1: "1 \<le> i" "i - 1 < i" "i - 1 \<le> 256" using False less.prems(1) by simp_all
      note w = window_step [OF i1(1) less.prems(1) V]
      note sh = mp_shiftl_spec [OF zero_less_one _ less.prems(2)]
      have "digits_val m div 2 ^ (256 - 1) = 0" using True top by simp
      then have "E div 2 ^ (i - 1) = (E div 2 ^ i) * 2" using w(1) by simp
      then have "mont_val (Montgomery_multiply_mod_order mc mc) (a ^ (E div 2 ^ (i - 1)))"
        using mont_mult [OF less.prems(4) less.prems(4)] by (simp add: mult_2_right power_add)
      moreover have "digits_val (mp_shiftl 1 m) = (E mod 2 ^ (i - 1)) * 2 ^ (256 - (i - 1))" using sh(2) w(2) by simp
      ultimately obtain r where "inv_loop table (int (i - 1)) (mp_shiftl 1 m) (Montgomery_multiply_mod_order mc mc) = Some r"
        "mont_val r (a ^ E)"
        using less.IH [of "i - 1" "mp_shiftl 1 m", OF i1(2,3) sh(1)] by auto
      moreover have "int (i - 1) = int i - 1" using i1 by simp
      ultimately show ?thesis using True pos by (subst inv_loop.simps) simp
    next
      case False
      note tw = top_window_spec [OF less.prems(2)]
      have big: "16 \<le> unat (top_window m)" "unat (top_window m) < 32"
      proof -
        have lt: "digits_val m < 2 ^ 256" by (rule scalar_less [OF less.prems(2)])
        have "1 \<le> digits_val m div 2 ^ 255" using False top by simp
        moreover have "digits_val m div 2 ^ 255 = digits_val m div 2 ^ 251 div 16"
          by (simp add: div_mult2_eq [symmetric])
        ultimately have "1 * 16 \<le> digits_val m div 2 ^ 251" by (simp only: less_eq_div_iff_mult_less_eq)
        then show "16 \<le> unat (top_window m)" unfolding tw by simp
        have "(2 :: nat) ^ 256 = 32 * 2 ^ 251" by simp
        then show "unat (top_window m) < 32" unfolding tw using lt by (intro less_mult_imp_div_less) (simp only:)
      qed
      then have "top_window m \<noteq> 0" by auto
      from strip_window_spec [OF this] obtain t z where t: "strip_window (top_window m) k_EXPON = Some (t, k_EXPON - z)" "odd (unat t)"
        "unat (top_window m) = unat t * 2 ^ z" by blast
      define c where "c = 5 - z"
      have z: "z < 5"
      proof (rule ccontr)
        assume "\<not> z < 5"
        then have "(2 :: nat) ^ 5 \<le> 2 ^ z" by (intro power_increasing) simp_all
        moreover have "1 \<le> unat t" using t(2) by (cases "unat t") simp_all
        ultimately have "1 * 2 ^ 5 \<le> unat t * 2 ^ z" by (rule mult_le_mono [rotated])
        then show False using big(2) t(3) by simp
      qed
      have tv: "unat t = digits_val m div 2 ^ (256 - c)"
      proof -
        have "unat t = unat (top_window m) div 2 ^ z" unfolding t(3) by simp
        also have "\<dots> = digits_val m div (2 ^ 251 * 2 ^ z)" unfolding tw by (rule div_mult2_eq [symmetric])
        also have "(2 :: nat) ^ 251 * 2 ^ z = 2 ^ (256 - c)" using z unfolding c_def power_add [symmetric] by (intro arg_cong2 [where f = power]) simp_all
        finally show ?thesis .
      qed
      have ci: "c \<le> i" "0 < c" "c \<le> 256" using window_fits [OF less.prems(1) _ V] t(2) z unfolding tv c_def by auto
      have ic: "i - c < i" "i - c \<le> 256" "c < 64" using ci less.prems(1) by (simp_all add: c_def)
      note w = window_step [OF ci(1) less.prems(1) V, folded tv]
      note sh = mp_shiftl_spec [OF ci(2) ic(3) less.prems(2)]
      have t32: "unat t < 32" using big(2) t(3) by (metis mult_le_mono2 mult_1_right one_le_numeral one_le_power order_le_less_trans)
      define j where "j = unat (drop_bit 1 (t - 1))"
      have j: "j < 16" "unat t = 2 * j + 1"
      proof -
        have "t \<noteq> 0" using t(2) by auto
        then have "unat (t - 1) = unat t - 1" by (rule unat_minus_one)
        then have "j = (unat t - 1) div 2" unfolding j_def by (simp only: unat_drop_bit_eq) (simp only: drop_bit_eq_div power_one_right)
        then show "j < 16" "unat t = 2 * j + 1" using t(2) t32 by (auto elim!: oddE)
      qed
      define mc' where "mc' = Montgomery_multiply_mod_order (((\<lambda>mc. Montgomery_multiply_mod_order mc mc) ^^ c) mc) (table ! j)"
      have "mont_val mc' (a ^ (E div 2 ^ (i - c)))"
        using mont_mult [OF mont_squarings [OF less.prems(4), of c] table [OF j(1)]] w(1)
        unfolding mc'_def by (simp only: power_mult [symmetric] power_add [symmetric] j(2))
      moreover have "digits_val (mp_shiftl c m) = (E mod 2 ^ (i - c)) * 2 ^ (256 - (i - c))" using sh(2) w(2) by simp
      ultimately obtain r where r: "inv_loop table (int (i - c)) (mp_shiftl c m) mc' = Some r" "mont_val r (a ^ E)"
        using less.IH [of "i - c" "mp_shiftl c m" mc', OF ic(1,2) sh(1)] by auto
      have "inv_loop table (int i) m mc = inv_loop table (int i - int c) (mp_shiftl c m) mc'"
        using pos False t(1) by (subst inv_loop.simps) (simp add: mc'_def j_def c_def k_EXPON_def Let_def)
      moreover have "int (i - c) = int i - int c" using ci(1) by simp
      ultimately show ?thesis using r by simp
    qed
  qed
qed

text \<open>The loop over the leading zeros; the highest bit of the order minus 2 is at position 245.\<close>

lemma order_minus_two:
  "snd (mp_subtract curve_order ((replicate NWORDS_ORDER 0)[0 := 2])) = [3436901888089820389, 16122042576031152537, 17317351579400803557, 11764505149049458]"
proof -
  have "(replicate 4 (0 :: digit))[0 := 2] = [2, 0, 0, 0]" by (simp add: eval_nat_numeral)
  then show ?thesis
    by (simp add: curve_order_def mp_subtract_def SUBC_def is_digit_lessthan_ct_def is_digit_zero_ct_def
        is_digit_nonzero_ct_def Let_def)
qed

lemma leading_bit_order:
  "leading_bit 256 [3436901888089820389, 16122042576031152537, 17317351579400803557, 11764505149049458] = Some (245, [10565574724612990976, 16718047845412555133, 11293924943087480573, 5646962471543740290])"
  by (simp add: leading_bit.simps)

lemma order_shifted:
  "digits_val [10565574724612990976, 16718047845412555133, 11293924943087480573, 5646962471543740290] = ((order_r - 2) mod 2 ^ 245) * 2 ^ (256 - 245)"
  "is_scalar [10565574724612990976, 16718047845412555133, 11293924943087480573, 5646962471543740290]" "(order_r - 2) div 2 ^ 245 = 1"
  by (simp_all add: order_r_def is_scalar_def)

lemma Montgomery_inversion_spec:
  assumes "mont_val ma a"
  shows "\<exists>r. Montgomery_inversion_mod_order ma = Some r \<and> mont_val r (a ^ (order_r - 2))"
proof -
  define q where "q = Montgomery_multiply_mod_order ma ma"
  define table where "table = ma # inv_table (16 - 1) ma q"
  have "mont_val (table ! j) (a ^ (2 * j + 1))" if "j < 16" for j
  proof (cases j)
    case (Suc k)
    have p: "a * (a * a) ^ Suc k = a ^ (2 * Suc k + 1)" 
      by (simp only: power_add power_mult [of a 2] power_one_right power2_eq_square) (rule mult.commute)
    have "table ! j = inv_table 15 ma q ! k" "k < 15" using that by (simp_all add: table_def Suc)
    then show ?thesis using inv_table_spec [OF assms mont_mult [OF assms assms], of k 15] unfolding q_def Suc p by (simp only:)
  qed (use assms in \<open>simp add: table_def\<close>)
  moreover have "mont_val ma (a ^ ((order_r - 2) div 2 ^ 245))" using assms unfolding order_shifted(3) by simp
  ultimately obtain r where "inv_loop table (int 245) [10565574724612990976, 16718047845412555133, 11293924943087480573, 5646962471543740290] ma = Some r"
    "mont_val r (a ^ (order_r - 2))"
    using inv_loop_spec [of table a 245 _ "order_r - 2" ma, OF _ _ order_shifted(2,1)] by auto
  then show ?thesis
    unfolding Montgomery_inversion_mod_order_def order_minus_two leading_bit_order Let_def table_def q_def by simp
qed

end
