(* ===== verification/FourQ_Point.thy ===== *)
theory FourQ_Point
  imports VRF FourQ_Hash FourQ_Inverse
begin

text \<open>
  The class \<open>FourQPoint\<close> (\<open>oZKS/ecpoint.h\<close>, \<open>oZKS/ecpoint.cpp\<close>, the build without OpenSSL): scalars of 32
  bytes, hashing to a point, the group operations. The locale of the verifiable random function is
  interpreted on these operations at the end.
\<close>

section \<open>Scalars\<close>

text \<open>The four digits at the address of a scalar; \<open>words_bytes\<close> goes back.\<close>

definition scalar_digits :: "byte list \<Rightarrow> digit list" where
  "scalar_digits bs = map (\<lambda>k. le_word (take 8 (drop (8 * k) bs))) [0..<NWORDS_ORDER]"

definition scalar_is_zero :: "byte list \<Rightarrow> bool" where
  "scalar_is_zero value = (value = replicate ec_order_size 0)"

definition scalar_load :: "byte list \<Rightarrow> byte list" where
  "scalar_load bs = bs"

definition scalar_save :: "byte list \<Rightarrow> byte list" where
  "scalar_save value = value"

definition random_scalar :: "byte list option \<Rightarrow> byte list result" where
  "random_scalar rnd =
     (case rnd of
        None \<Rightarrow> Inl (RuntimeError ''Failed to get random bytes'')
      | Some value \<Rightarrow> Inr (words_bytes (modulo_order (scalar_digits value))))"

definition is_nonzero_scalar :: "byte list \<Rightarrow> digit" where
  "is_nonzero_scalar value =
     (let c = or_digits 0 (scalar_digits value);
          first_nz = - (c AND 1);
          rest_nz = - drop_bit 1 c
      in signed_drop_bit 63 (first_nz OR rest_nz))"

text \<open>The loop draws until the scalar is not zero; \<open>n\<close> counts the draws.\<close>

partial_function (option) random_nonzero_loop :: "(nat \<Rightarrow> byte list option) \<Rightarrow> nat \<Rightarrow> byte list result option" where
  "random_nonzero_loop rnd n =
     (case random_scalar (rnd n) of
        Inl e \<Rightarrow> Some (Inl e)
      | Inr out \<Rightarrow> if is_nonzero_scalar out = 0 then random_nonzero_loop rnd (n + 1) else Some (Inr out))"

definition MakeRandomNonzeroScalar :: "(nat \<Rightarrow> byte list option) \<Rightarrow> byte list result option" where
  "MakeRandomNonzeroScalar rnd = random_nonzero_loop rnd 0"

text \<open>The output is no longer than the hash, so the size check never throws.\<close>

definition MakeSeededScalar :: "byte list \<Rightarrow> byte list" where
  "MakeSeededScalar seed =
     (let hash = compute_hash seed ''seeded_scalar'';
          out = take ec_order_size hash
      in words_bytes (modulo_order (scalar_digits out)))"

definition InvertScalar :: "byte list \<Rightarrow> byte list option" where
  "InvertScalar in' =
     Option.bind (Montgomery_inversion_mod_order (to_Montgomery (scalar_digits in')))
       (\<lambda>out. Some (words_bytes (from_Montgomery out)))"

definition MultiplyScalar :: "byte list \<Rightarrow> byte list \<Rightarrow> byte list" where
  "MultiplyScalar in1 in2 =
     (let in1_mont = to_Montgomery (scalar_digits in1);
          in2_mont = to_Montgomery (scalar_digits in2);
          out = Montgomery_multiply_mod_order in1_mont in2_mont
      in words_bytes (from_Montgomery out))"

definition AddScalar :: "byte list \<Rightarrow> byte list \<Rightarrow> byte list" where
  "AddScalar in1 in2 = words_bytes (add_mod_order (scalar_digits in1) (scalar_digits in2))"

definition SubtractScalar :: "byte list \<Rightarrow> byte list \<Rightarrow> byte list" where
  "SubtractScalar in1 in2 = words_bytes (subtract_mod_order (scalar_digits in1) (scalar_digits in2))"

definition ReduceModOrder_scalar :: "byte list \<Rightarrow> byte list" where
  "ReduceModOrder_scalar scalar = words_bytes (modulo_order (scalar_digits scalar))"

text \<open>On a hash: the bytes after the first 32 are cleared.\<close>

definition ReduceModOrder :: "hash_type \<Rightarrow> hash_type" where
  "ReduceModOrder value =
     words_bytes (modulo_order (scalar_digits value)) @ replicate (length value - ec_order_size) 0"

section \<open>Points\<close>

definition FourQPoint_default :: point_affine where
  "FourQPoint_default = \<lparr>pa_x = ([0, 0], [0, 0]), pa_y = ([1, 0], [0, 0])\<rparr>"

text \<open>The constructor from a hash: the 32 bytes of the inner hash are the four digits of \<open>r\<close>.\<close>

definition FourQPoint_hash :: "hash_type \<Rightarrow> byte list \<Rightarrow> point_affine" where
  "FourQPoint_hash data h2c_salt =
     (let buf = h2c_salt @ data;
          ds = scalar_digits (compute_hash buf ''fourq_constructor_hash'');
          r = (mod1271 (take 2 ds), mod1271 (drop 2 ds))
      in snd (HashToCurve r))"

definition FourQPoint_key :: "byte list \<Rightarrow> byte list \<Rightarrow> point_affine" where
  "FourQPoint_key data h2c_salt = FourQPoint_hash (compute_key_hash data) h2c_salt"

definition MakeGenerator :: point_affine where
  "MakeGenerator = eccset"

definition MakeGeneratorMultiple :: "point_precomp list \<Rightarrow> byte list \<Rightarrow> point_affine" where
  "MakeGeneratorMultiple table scalar = ecc_mul_fixed table (scalar_digits scalar)"

text \<open>The flag is the result of the function; a point that is not valid stays as it is.\<close>

definition scalar_multiply :: "point_affine \<Rightarrow> byte list \<Rightarrow> bool \<Rightarrow> bool \<times> point_affine" where
  "scalar_multiply pt scalar clear_cofactor =
     (case ecc_mul pt (scalar_digits scalar) clear_cofactor of None \<Rightarrow> (False, pt) | Some Q \<Rightarrow> (True, Q))"

definition double_scalar_multiply ::
  "point_precomp list \<Rightarrow> point_affine \<Rightarrow> byte list \<Rightarrow> byte list \<Rightarrow> bool \<times> point_affine" where
  "double_scalar_multiply table pt scalar1 scalar2 =
     (case ecc_mul_double table (scalar_digits scalar2) pt (scalar_digits scalar1) of
        None \<Rightarrow> (False, pt) | Some Q \<Rightarrow> (True, Q))"

definition in_prime_order_subgroup :: "point_affine \<Rightarrow> bool option" where
  "in_prime_order_subgroup pt =
     (let encoded_pt = encode pt;
          proj_pt = point_setup pt;
          proj_pt = cofactor_clearing proj_pt;
          pt_copy = eccnorm proj_pt;
          inv_cofactor = words_bytes ((replicate NWORDS_ORDER 0)[0 := 392])
      in Option.bind (InvertScalar inv_cofactor) (\<lambda>inv_cofactor.
           let pt_copy = (case ecc_mul pt_copy (scalar_digits inv_cofactor) False of None \<Rightarrow> pt_copy | Some Q \<Rightarrow> Q);
               encoded_pt2 = encode pt_copy
           in Some (encoded_pt = encoded_pt2)))"

definition point_add :: "point_affine \<Rightarrow> point_affine \<Rightarrow> point_affine" where
  "point_add pt other =
     (let this_proj_pt = point_setup pt;
          other_proj_pt = point_setup other;
          this_proj_prec_pt = R1_to_R2 this_proj_pt;
          other_proj_prec_pt = R1_to_R3 other_proj_pt;
          sum_proj_pt = eccadd_core this_proj_prec_pt other_proj_prec_pt
      in eccnorm sum_proj_pt)"

definition point_save :: "point_affine \<Rightarrow> byte list" where
  "point_save pt = encode pt"

definition point_load :: "byte list \<Rightarrow> point_affine result" where
  "point_load in' =
     (let (status, pt) = decode in'
      in if status \<noteq> ECCRYPTO_SUCCESS then Inl (LogicError ''Invalid point'') else Inr pt)"

section \<open>The operations as the interface of the verifiable random function\<close>

definition fourq_ops :: "point_precomp list \<Rightarrow> (point_affine, byte list) ec_ops" where
  "fourq_ops table =
     \<lparr>ec_descriptor = ''fourq_ozks'', ec_default = FourQPoint_default, ec_hash_point = FourQPoint_hash,
      ec_MakeRandomNonzeroScalar = MakeRandomNonzeroScalar, ec_MakeSeededScalar = MakeSeededScalar,
      ec_MakeGeneratorMultiple = MakeGeneratorMultiple table, ec_MultiplyScalar = MultiplyScalar,
      ec_SubtractScalar = SubtractScalar, ec_ReduceModOrder = ReduceModOrder,
      ec_scalar_multiply = scalar_multiply, ec_double_scalar_multiply = double_scalar_multiply table,
      ec_in_prime_order_subgroup = (\<lambda>pt. in_prime_order_subgroup pt = Some True),
      ec_add = point_add, ec_save = point_save, ec_load = point_load,
      ec_scalar_zero = replicate ec_order_size 0, ec_scalar_is_zero = scalar_is_zero,
      ec_scalar_load = scalar_load, ec_scalar_save = scalar_save\<rparr>"

section \<open>Scalars as numbers\<close>

definition scalar_val :: "byte list \<Rightarrow> nat" where
  "scalar_val bs = digits_val (scalar_digits bs)"

definition scalar_ok :: "byte list \<Rightarrow> bool" where
  "scalar_ok bs = (length bs = ec_order_size)"

lemma scalar_digits_is_scalar [simp]: "is_scalar (scalar_digits bs)"
  by (simp add: scalar_digits_def is_scalar_def)

lemma scalar_digits_words: "is_scalar ds \<Longrightarrow> scalar_digits (words_bytes ds @ xs) = ds"
proof (rule nth_equalityI)
  assume d: "is_scalar ds"
  show "length (scalar_digits (words_bytes ds @ xs)) = length ds" using d by (simp add: scalar_digits_def is_scalar_def)
  fix i assume "i < length (scalar_digits (words_bytes ds @ xs))"
  then have i: "i < 4" by (simp add: scalar_digits_def)
  then have "take 8 (drop (8 * i) (words_bytes ds @ xs)) = le_bytes 8 (ds ! i)"
    using d by (intro chunk_words_bytes) (simp add: is_scalar_def)
  then have "scalar_digits (words_bytes ds @ xs) ! i = le_word (le_bytes 8 (ds ! i))"
    using i unfolding scalar_digits_def by (subst nth_map) (simp_all only: length_upt nth_upt, simp_all)
  then show "scalar_digits (words_bytes ds @ xs) ! i = ds ! i" by (simp add: le_word_le_bytes)
qed

lemma scalar_digits_words0: "is_scalar ds \<Longrightarrow> scalar_digits (words_bytes ds) = ds"
  using scalar_digits_words [of ds "[]"] by simp

lemma scalar_ok_words: "is_scalar ds \<Longrightarrow> scalar_ok (words_bytes ds)"
  by (simp add: scalar_ok_def is_scalar_def)

lemma MultiplyScalar_spec:
  "scalar_ok (MultiplyScalar a b)" "scalar_val (MultiplyScalar a b) = (scalar_val a * scalar_val b) mod order_r"
proof -
  let ?a = "scalar_digits a" and ?b = "scalar_digits b"
  have m: "is_scalar (Montgomery_multiply_mod_order (to_Montgomery ?a) (to_Montgomery ?b))"
  proof (rule Montgomery_multiply_mod_order_spec(1))
    show s: "is_scalar (to_Montgomery ?a)" "is_scalar (to_Montgomery ?b)" by (simp_all add: to_Montgomery_spec)
    show "digits_val (to_Montgomery ?a) * digits_val (to_Montgomery ?b) < 2 ^ 256 * order_r"
      by (rule mult_strict_mono' [OF scalar_less [OF s(1)] to_Montgomery_spec(2) le0 le0]) simp
  qed
  note f = from_Montgomery_spec(1) [OF m]
  show "scalar_ok (MultiplyScalar a b)" by (simp add: MultiplyScalar_def Let_def scalar_ok_words [OF f])
  show "scalar_val (MultiplyScalar a b) = (scalar_val a * scalar_val b) mod order_r"
    using Montgomery_product [of ?a ?b] by (simp add: MultiplyScalar_def Let_def scalar_val_def scalar_digits_words0 [OF f])
qed

lemma SubtractScalar_spec:
  assumes "scalar_val a < order_r" "scalar_val b < order_r"
  shows "scalar_ok (SubtractScalar a b)" "(scalar_val (SubtractScalar a b) + scalar_val b) mod order_r = scalar_val a"
proof -
  let ?a = "scalar_digits a" and ?b = "scalar_digits b"
  have "digits_val ?b \<le> digits_val ?a + order_r" using assms by (simp add: scalar_val_def)
  note s = subtract_mod_order_spec [OF scalar_digits_is_scalar scalar_digits_is_scalar this]
  show "scalar_ok (SubtractScalar a b)" by (simp add: SubtractScalar_def scalar_ok_words [OF s(1)])
  have "scalar_val (SubtractScalar a b) =
      (if scalar_val b \<le> scalar_val a then scalar_val a - scalar_val b else scalar_val a + order_r - scalar_val b)"
    unfolding SubtractScalar_def scalar_val_def scalar_digits_words0 [OF s(1)] by (rule s(2))
  then show "(scalar_val (SubtractScalar a b) + scalar_val b) mod order_r = scalar_val a"
    using assms by (cases "scalar_val b \<le> scalar_val a") simp_all
qed

lemma AddScalar_spec:
  assumes "scalar_val a < order_r" "scalar_val b < order_r"
  shows "scalar_ok (AddScalar a b)" "scalar_val (AddScalar a b) = (scalar_val a + scalar_val b) mod order_r"
proof -
  note s = add_mod_order_spec [OF scalar_digits_is_scalar scalar_digits_is_scalar assms [unfolded scalar_val_def]]
  show "scalar_ok (AddScalar a b)" by (simp add: AddScalar_def scalar_ok_words [OF s(1)])
  show "scalar_val (AddScalar a b) = (scalar_val a + scalar_val b) mod order_r"
    unfolding AddScalar_def scalar_val_def scalar_digits_words0 [OF s(1)] by (rule s(2))
qed

lemma ReduceModOrder_spec:
  "ec_order_size \<le> length h \<Longrightarrow> length (ReduceModOrder h) = length h"
  "scalar_val (ReduceModOrder h) = scalar_val h mod order_r"
proof -
  note m = modulo_order_spec [OF scalar_digits_is_scalar [of h]]
  show "ec_order_size \<le> length h \<Longrightarrow> length (ReduceModOrder h) = length h"
    using m(1) by (simp add: ReduceModOrder_def is_scalar_def)
  show "scalar_val (ReduceModOrder h) = scalar_val h mod order_r"
    unfolding ReduceModOrder_def scalar_val_def scalar_digits_words [OF m(1)] by (rule m(2))
qed

lemma InvertScalar_spec:
  "\<exists>b. InvertScalar a = Some b \<and> scalar_ok b \<and> scalar_val b = scalar_val a ^ (order_r - 2) mod order_r"
proof -
  let ?a = "scalar_digits a"
  have "mont_val (to_Montgomery ?a) (scalar_val a)"
    by (simp add: mont_val_def to_Montgomery_spec scalar_val_def)
  from Montgomery_inversion_spec [OF this] obtain r where r: "Montgomery_inversion_mod_order (to_Montgomery ?a) = Some r"
    "is_scalar r" "digits_val r = (scalar_val a ^ (order_r - 2) * 2 ^ 256) mod order_r" unfolding mont_val_def by blast
  note f = from_Montgomery_spec [OF r(2)]
  have "(digits_val (from_Montgomery r) * 2 ^ 256) mod order_r = (scalar_val a ^ (order_r - 2) * 2 ^ 256) mod order_r"
    unfolding f(3) r(3) by (rule mod_mod_trivial)
  then have "digits_val (from_Montgomery r) mod order_r = scalar_val a ^ (order_r - 2) mod order_r" by (rule cancel_radix)
  then have v: "digits_val (from_Montgomery r) = scalar_val a ^ (order_r - 2) mod order_r" using f(2) by simp
  have "InvertScalar a = Some (words_bytes (from_Montgomery r))" by (simp add: InvertScalar_def r(1))
  then show ?thesis using v scalar_ok_words [OF f(1)] by (auto simp: scalar_val_def scalar_digits_words0 [OF f(1)])
qed

text \<open>A scalar that is drawn is not zero and below the order.\<close>

lemma is_nonzero_scalar_spec: "is_nonzero_scalar v = 0 \<longleftrightarrow> scalar_val v = 0"
proof -
  have "is_nonzero_scalar v = (if or_digits 0 (scalar_digits v) = 0 then 0 else - 1)"
    unfolding is_nonzero_scalar_def Let_def or.commute [of "- (_ AND 1)"] by (rule nonzero_mask)
  then show ?thesis using or_digits_zero [of 0 "scalar_digits v"] by (simp add: scalar_val_def)
qed

section \<open>Points as elements of the group\<close>

text \<open>
  A point of the subgroup of order \<open>order_r\<close>. The check of the code multiplies by 392 and by the power
  \<open>order_r - 2\<close> of 392, which is the inverse of 392 because \<open>order_r\<close> is prime; the primality is not
  proved here, and the last conjunct states the consequence for this point.
\<close>

definition fourq_valid :: "point_affine \<Rightarrow> bool" where
  "fourq_valid P = (aff_valid P \<and> on_curve (aff_point P) \<and> nmul order_r (aff_ecp P) = 0 \<and>
     nmul (392 ^ (order_r - 2) * 392) (aff_ecp P) = aff_ecp P)"

lemma nmul_odd_scalar: "nmul order_r g = 0 \<Longrightarrow> nmul (odd_scalar k) g = nmul k g"
  by (rule nmul_mod, assumption) (use odd_scalar [of k] in \<open>simp add: odd_scalar_def\<close>)

lemma nmul_commute: "nmul m (nmul n g) = nmul n (nmul m g)"
  unfolding nmul_mult [symmetric] by (simp only: mult.commute)

lemma nmul_zmul_int: "zmul (numeral k) g = nmul (numeral k) g"
  using zmul_nat [of "numeral k" g] by simp

lemma fourq_valid_multiple:
  assumes "nmul order_r g = 0" "nmul (392 ^ (order_r - 2) * 392) g = g" "aff_normal Q" "aff_ecp Q = nmul k g"
  shows "fourq_valid Q"
  using assms nmul_commute [of order_r k g] nmul_commute [of "392 ^ (order_r - 2) * 392" k g]
  by (simp only: fourq_valid_def aff_normal_def nmul_zero simp_thms)

lemma scalar_multiply_spec:
  assumes "fourq_valid P"
  shows "fourq_valid (snd (scalar_multiply P k False))" "aff_normal (snd (scalar_multiply P k False))"
    "aff_ecp (snd (scalar_multiply P k False)) = nmul (scalar_val k) (aff_ecp P)"
proof -
  have P: "aff_valid P" "on_curve (aff_point P)" "nmul order_r (aff_ecp P) = 0"
    "nmul (392 ^ (order_r - 2) * 392) (aff_ecp P) = aff_ecp P"
    using assms by (simp_all only: fourq_valid_def)
  obtain Q where Q: "ecc_mul P (scalar_digits k) False = Some Q" "aff_normal Q"
    "aff_ecp Q = nmul (odd_scalar (scalar_val k)) (aff_ecp P)"
    using ecc_mul_spec(2) [OF P(1) scalar_digits_is_scalar P(2), of k False] by (auto simp: scalar_val_def)
  have e: "snd (scalar_multiply P k False) = Q" by (simp add: scalar_multiply_def Q(1))
  show n: "aff_normal (snd (scalar_multiply P k False))" and
    v: "aff_ecp (snd (scalar_multiply P k False)) = nmul (scalar_val k) (aff_ecp P)"
    unfolding e using Q(2,3) nmul_odd_scalar [OF P(3)] by simp_all
  show "fourq_valid (snd (scalar_multiply P k False))" by (rule fourq_valid_multiple [OF P(3,4) n v])
qed

lemma double_scalar_multiply_spec:
  assumes "fixed_base_table table g" "nmul order_r g = 0" "fourq_valid P"
  shows "aff_normal (snd (double_scalar_multiply table P k l))"
    "aff_ecp (snd (double_scalar_multiply table P k l)) = nmul (scalar_val k) (aff_ecp P) + nmul (scalar_val l) g"
proof -
  have P: "aff_valid P" "on_curve (aff_point P)" "nmul order_r (aff_ecp P) = 0" using assms(3) by (simp_all only: fourq_valid_def)
  obtain Q where Q: "ecc_mul_double table (scalar_digits l) P (scalar_digits k) = Some Q" "aff_normal Q"
    "aff_ecp Q = nmul (odd_scalar (scalar_val l)) g + nmul (odd_scalar (scalar_val k)) (aff_ecp P)"
    using ecc_mul_double_spec(2) [OF assms(1) scalar_digits_is_scalar scalar_digits_is_scalar P(1,2), of l k]
    by (auto simp: scalar_val_def)
  have e: "snd (double_scalar_multiply table P k l) = Q" by (simp add: double_scalar_multiply_def Q(1))
  show "aff_normal (snd (double_scalar_multiply table P k l))"
    "aff_ecp (snd (double_scalar_multiply table P k l)) = nmul (scalar_val k) (aff_ecp P) + nmul (scalar_val l) g"
    unfolding e using Q(2,3) nmul_odd_scalar [OF P(3)] nmul_odd_scalar [OF assms(2)] by (simp_all add: add.commute)
qed

lemma point_add_spec:
  assumes "aff_valid P" "on_curve (aff_point P)" "aff_valid Q" "on_curve (aff_point Q)"
  shows "aff_normal (point_add P Q)" "aff_ecp (point_add P Q) = aff_ecp P + aff_ecp Q"
proof -
  have "r1_rep (eccadd_core (R1_to_R2 (point_setup P)) (R1_to_R3 (point_setup Q))) (xy (aff_ecp P + aff_ecp Q))"
    by (intro eccadd_core_ecp R1_to_R2_spec R1_to_R3_spec point_setup_ecp assms)
  from eccnorm_ecp [OF r1_rep_r4 [OF this]]
  show "aff_normal (point_add P Q)" "aff_ecp (point_add P Q) = aff_ecp P + aff_ecp Q"
    by (simp_all add: point_add_def Let_def)
qed

text \<open>The subgroup check accepts a point that has the encoding of a reduced point of the subgroup.\<close>

lemma cofactor_scalar: "scalar_val (words_bytes ((replicate NWORDS_ORDER 0)[0 := 392])) = 392"
proof -
  have "(replicate 4 (0 :: digit))[0 := 392] = [392, 0, 0, 0]" by (simp add: eval_nat_numeral)
  moreover have "is_scalar [392, 0, 0, 0]" by (simp add: is_scalar_def)
  ultimately show ?thesis by (simp add: scalar_val_def scalar_digits_words0)
qed

lemma in_prime_order_subgroup_spec:
  assumes "fourq_valid Q" "aff_normal P" "aff_ecp Q = aff_ecp P" "encode Q = encode P"
  shows "in_prime_order_subgroup Q = Some True"
proof -
  define C where "C = eccnorm (cofactor_clearing (point_setup Q))"
  have Q: "aff_valid Q" "on_curve (aff_point Q)" "nmul order_r (aff_ecp Q) = 0"
    "nmul (392 ^ (order_r - 2) * 392) (aff_ecp Q) = aff_ecp Q"
    using assms(1) by (simp_all only: fourq_valid_def)
  note C = eccnorm_ecp [OF r1_rep_r4 [OF cofactor_clearing_spec [OF point_setup_ecp [OF Q(1,2)]]], folded C_def]
  obtain b where b: "InvertScalar (words_bytes ((replicate NWORDS_ORDER 0)[0 := 392])) = Some b"
    "scalar_val b = 392 ^ (order_r - 2) mod order_r"
    using InvertScalar_spec [of "words_bytes ((replicate NWORDS_ORDER 0)[0 := 392])"] unfolding cofactor_scalar by blast
  obtain N where N: "ecc_mul C (scalar_digits b) False = Some N" "aff_normal N"
    "aff_ecp N = nmul (odd_scalar (scalar_val b)) (aff_ecp C)"
    using ecc_mul_spec(2) [OF C(1) scalar_digits_is_scalar C(2), of b False] by (auto simp: scalar_val_def)
  have c0: "nmul order_r (aff_ecp C) = 0" unfolding C(3) nmul_zmul_int nmul_commute [of order_r] Q(3) by simp
  have "aff_ecp N = nmul (392 ^ (order_r - 2) mod order_r) (aff_ecp C)" unfolding N(3) b(2) by (rule nmul_odd_scalar [OF c0])
  also have "\<dots> = nmul (392 ^ (order_r - 2)) (aff_ecp C)" by (rule nmul_mod [OF c0 mod_mod_trivial])
  also have "\<dots> = aff_ecp P" unfolding C(3) nmul_zmul_int nmul_mult [symmetric] Q(4) by (rule assms(3))
  finally have "N = P" by (rule aff_normal_eq [OF N(2) assms(2)])
  then show ?thesis using b(1) N(1) assms(4) by (simp add: in_prime_order_subgroup_def Let_def C_def [symmetric])
qed

text \<open>The check always returns, whatever the point.\<close>

lemma in_prime_order_subgroup_returns: "\<exists>b. in_prime_order_subgroup P = Some b"
  using InvertScalar_spec [of "words_bytes ((replicate NWORDS_ORDER 0)[0 := 392])"]
  by (auto simp: in_prime_order_subgroup_def Let_def)

section \<open>The interface holds of the points of FourQ\<close>

interpretation fourq: ec_group "fourq_ops table" aff_ecp fourq_valid aff_normal scalar_ok scalar_val order_r g
  "fixed_base_table table g \<and> nmul order_r g = 0 \<and> nmul (392 ^ (order_r - 2) * 392) g = g"
  for table g
proof
  fix P Q :: point_affine and k l :: "byte list"
  note ops = fourq_ops_def ec_ops.simps
  show "0 < order_r" by (rule order_bounds)
  show "fourq_valid P \<Longrightarrow> nmul order_r (aff_ecp P) = 0" by (simp only: fourq_valid_def)
  show "fourq_valid (snd (ec_scalar_multiply (fourq_ops table) P k False)) \<and>
      aff_normal (snd (ec_scalar_multiply (fourq_ops table) P k False)) \<and>
      aff_ecp (snd (ec_scalar_multiply (fourq_ops table) P k False)) = nmul (scalar_val k) (aff_ecp P)" if "fourq_valid P"
    using scalar_multiply_spec [OF that] by (simp only: ops simp_thms)
  show "aff_normal (ec_add (fourq_ops table) P Q) \<and> aff_ecp (ec_add (fourq_ops table) P Q) = aff_ecp P + aff_ecp Q"
    if "fourq_valid P" "fourq_valid Q"
    using that point_add_spec [of P Q] by (simp only: ops fourq_valid_def simp_thms)
  show "ec_in_prime_order_subgroup (fourq_ops table) Q"
    if "fourq_valid Q" "aff_normal P" "aff_ecp Q = aff_ecp P" "ec_save (fourq_ops table) Q = ec_save (fourq_ops table) P"
    using in_prime_order_subgroup_spec [OF that(1-3)] that(4) by (simp only: ops point_save_def)
  show "ec_save (fourq_ops table) P = ec_save (fourq_ops table) Q"
    if "aff_normal P" "aff_normal Q" "aff_ecp P = aff_ecp Q"
    unfolding aff_normal_eq [OF that] ..
  show "\<exists>Q. ec_load (fourq_ops table) (ec_save (fourq_ops table) P) = Inr Q \<and> fourq_valid Q \<and> aff_ecp Q = aff_ecp P"
    if v: "fourq_valid P" and n: "aff_normal P"
  proof -
    obtain Q where Q: "decode (encode P) = (ECCRYPTO_SUCCESS, Q)" "aff_valid Q" "aff_point Q = aff_point P"
      using decode_encode [of P] n unfolding aff_normal_def by blast
    then have "aff_ecp Q = aff_ecp P" by (simp add: aff_ecp_def)
    moreover have "point_load (point_save P) = Inr Q" using Q(1) by (simp add: point_load_def point_save_def)
    moreover have "fourq_valid Q" using v Q(2,3) \<open>aff_ecp Q = aff_ecp P\<close> by (simp only: fourq_valid_def simp_thms)
    ultimately show ?thesis by (auto simp: ops)
  qed
  show "length k = ec_order_size \<Longrightarrow> scalar_ok (ec_scalar_load (fourq_ops table) k)"
    by (simp add: ops scalar_load_def scalar_ok_def)
  show "scalar_ok k \<Longrightarrow> length (ec_scalar_save (fourq_ops table) k) = ec_order_size \<and>
      scalar_val (ec_scalar_load (fourq_ops table) (ec_scalar_save (fourq_ops table) k)) = scalar_val k"
    by (simp add: ops scalar_load_def scalar_save_def scalar_ok_def)
  show "scalar_ok (ec_MultiplyScalar (fourq_ops table) k l) \<and>
      scalar_val (ec_MultiplyScalar (fourq_ops table) k l) = scalar_val k * scalar_val l mod order_r"
    by (simp add: ops MultiplyScalar_spec)
  show "scalar_ok (ec_SubtractScalar (fourq_ops table) k l) \<and>
      (scalar_val (ec_SubtractScalar (fourq_ops table) k l) + scalar_val l) mod order_r = scalar_val k"
    if "scalar_val k < order_r" "scalar_val l < order_r"
    using SubtractScalar_spec [OF that] by (simp add: ops)
  show "length k = hash_size \<Longrightarrow> length (ec_ReduceModOrder (fourq_ops table) k) = hash_size \<and>
      scalar_val (ec_scalar_load (fourq_ops table) (ec_ReduceModOrder (fourq_ops table) k)) < order_r"
    using ReduceModOrder_spec [of k] order_bounds(1) by (simp add: ops scalar_load_def)
  assume gen: "fixed_base_table table g \<and> nmul order_r g = 0 \<and> nmul (392 ^ (order_r - 2) * 392) g = g"
  then show "nmul order_r g = 0" by blast
  show "fourq_valid (ec_MakeGeneratorMultiple (fourq_ops table) k) \<and>
      aff_normal (ec_MakeGeneratorMultiple (fourq_ops table) k) \<and>
      aff_ecp (ec_MakeGeneratorMultiple (fourq_ops table) k) = nmul (scalar_val k) g"
  proof -
    note m = ecc_mul_fixed_spec [OF conjunct1 [OF gen] scalar_digits_is_scalar [of k]]
    have v: "aff_ecp (ecc_mul_fixed table (scalar_digits k)) = nmul (scalar_val k) g"
      using m(3) gen by (simp only: nmul_odd_scalar scalar_val_def)
    show ?thesis using fourq_valid_multiple [OF _ _ m(4) v] gen m(4) v by (simp only: ops MakeGeneratorMultiple_def simp_thms)
  qed
  show "aff_normal (snd (ec_double_scalar_multiply (fourq_ops table) P k l)) \<and>
      aff_ecp (snd (ec_double_scalar_multiply (fourq_ops table) P k l)) =
      nmul (scalar_val k) (aff_ecp P) + nmul (scalar_val l) g" if "fourq_valid P"
    using double_scalar_multiply_spec [of table g P k l] gen that by (simp only: ops simp_thms)
qed

text \<open>Proofs made with a key of FourQ are accepted, from the locale.\<close>

lemma fourq_proofs_verify:
  assumes "fixed_base_table table g" "nmul order_r g = 0" "nmul (392 ^ (order_r - 2) * 392) g = g"
    and "scalar_ok k" "\<not> scalar_is_zero k" "sk = compute_public_key (fourq_ops table) (sk0\<lparr>sk_key_scalar := k\<rparr>)"
    and "fourq_valid (FourQPoint_hash data (sk_h2c_salt sk))"
    and "get_vrf_proof (fourq_ops table) sk data = Inr pf" "reencodes (fourq_ops table) (vp_gamma pf)"
  shows "verify_vrf_proof (fourq_ops table) (sk_pk sk) data pf = Inr True"
  by (rule fourq.vrf_complete [of table g k sk sk0 data pf]) (use assms in \<open>simp_all only: fourq_ops_def ec_ops.simps simp_thms\<close>)

section \<open>Drawing a scalar\<close>

text \<open>A draw that the loop rejects: the bytes are a multiple of the order.\<close>

definition zero_draw :: "byte list option \<Rightarrow> bool" where
  "zero_draw rnd = (case rnd of None \<Rightarrow> False | Some v \<Rightarrow> scalar_val v mod order_r = 0)"

lemma random_scalar_spec:
  "random_scalar (Some v) = Inr (words_bytes (modulo_order (scalar_digits v)))"
  "scalar_ok (words_bytes (modulo_order (scalar_digits v)))"
  "scalar_val (words_bytes (modulo_order (scalar_digits v))) = scalar_val v mod order_r"
  using modulo_order_spec [of "scalar_digits v"]
  by (simp_all add: random_scalar_def scalar_ok_words scalar_val_def scalar_digits_words0)

lemma random_nonzero_loop_step:
  "zero_draw (rnd n) \<Longrightarrow> random_nonzero_loop rnd n = random_nonzero_loop rnd (n + 1)"
  "rnd n = None \<Longrightarrow> random_nonzero_loop rnd n = Some (Inl (RuntimeError ''Failed to get random bytes''))"
  "rnd n = Some v \<Longrightarrow> \<not> zero_draw (rnd n) \<Longrightarrow>
    random_nonzero_loop rnd n = Some (Inr (words_bytes (modulo_order (scalar_digits v))))"
  by (subst random_nonzero_loop.simps,
    auto simp: zero_draw_def random_scalar_spec is_nonzero_scalar_spec random_scalar_def split: option.splits)+

text \<open>The loop returns with the first draw that is not rejected, and does not return without one.\<close>

lemma random_nonzero_loop_first:
  "\<forall>i<m. zero_draw (rnd (n + i)) \<Longrightarrow> random_nonzero_loop rnd n = random_nonzero_loop rnd (n + m)"
proof (induction m arbitrary: n)
  case (Suc m)
  have "random_nonzero_loop rnd n = random_nonzero_loop rnd (n + 1)"
    by (rule random_nonzero_loop_step(1)) (use Suc.prems in \<open>auto dest: spec [of _ 0]\<close>)
  also have "\<dots> = random_nonzero_loop rnd (n + 1 + m)"
    by (rule Suc.IH) (use Suc.prems in \<open>auto dest: spec [of _ "Suc _"]\<close>)
  finally show ?case by simp
qed simp

lemma random_nonzero_loop_cases:
  "case random_nonzero_loop rnd 0 of
     None \<Rightarrow> \<forall>i. zero_draw (rnd i)
   | Some (Inl e) \<Rightarrow> (\<exists>i. rnd i = None)
   | Some (Inr k) \<Rightarrow> scalar_ok k \<and> 0 < scalar_val k \<and> scalar_val k < order_r"
proof (cases "\<exists>i. \<not> zero_draw (rnd i)")
  case True
  define m where "m = (LEAST i. \<not> zero_draw (rnd i))"
  have m: "\<not> zero_draw (rnd m)" using True unfolding m_def by (rule LeastI_ex)
  have "\<forall>i<m. zero_draw (rnd (0 + i))" using not_less_Least unfolding m_def by auto
  then have e: "random_nonzero_loop rnd 0 = random_nonzero_loop rnd m" using random_nonzero_loop_first [of m rnd 0] by simp
  show ?thesis
  proof (cases "rnd m")
    case None
    then show ?thesis using random_nonzero_loop_step(2) [of rnd m] by (auto simp: e)
  next
    case (Some v)
    then show ?thesis using m random_scalar_spec(2,3) [of v] random_nonzero_loop_step(3) [of rnd m v, OF Some m] order_bounds(1)
      by (simp add: e zero_draw_def)
  qed
next
  case False
  have "\<exists>i. \<not> zero_draw (rnd i)" if r: "random_nonzero_loop rnd n = Some r" for n r
  proof (rule random_nonzero_loop.raw_induct [of "\<lambda>rnd n r. \<exists>i. \<not> zero_draw (rnd i)", OF _ r])
    fix loop rnd n r
    assume ih: "\<And>rnd n r. loop rnd n = Some r \<Longrightarrow> \<exists>i. \<not> zero_draw (rnd i)"
      and body: "(case random_scalar (rnd n) of Inl e \<Rightarrow> Some (Inl e)
        | Inr out \<Rightarrow> if is_nonzero_scalar out = 0 then loop rnd (n + 1) else Some (Inr out)) = Some r"
    show "\<exists>i. \<not> zero_draw (rnd i)"
    proof (cases "zero_draw (rnd n)")
      case True
      then have "loop rnd (n + 1) = Some r" using body
        by (auto simp: zero_draw_def random_scalar_spec is_nonzero_scalar_spec split: option.splits)
      then show ?thesis by (rule ih)
    qed blast
  qed
  then show ?thesis using False by (cases "random_nonzero_loop rnd 0") auto
qed

end
