(* ===== verification/Trie_Batch.thy ===== *)
theory Trie_Batch
  imports Compressed_Trie "HOL-Library.AList" "HOL-Library.Multiset"
begin

text \<open>
  Insertion of a batch of labels into a trie of linked nodes (\<open>oZKS/compressed_trie.cpp\<close>) by several
  threads, and the choice of their number (\<open>oZKS/utilities.cpp\<close>). The threads run the calls
  \<open>root_->insert\<close> and \<open>root_->update_hashes\<close>; a schedule says in which order, each call taken as one
  step. All theorems hold for every schedule. \<open>size_t\<close> counts nodes and threads and is a natural
  number.
\<close>

section \<open>The number of threads\<close>

text \<open>\<open>check_node\<close>: both children are there and their labels are one bit longer than the node's.\<close>

definition check_node :: "ctnode \<Rightarrow> ctnode list option result" where
  "check_node n =
     (case pl_add_bit (node_label n) False of
        Inl e \<Rightarrow> Inl e
      | Inr left_child_lbl \<Rightarrow>
          (case pl_add_bit (node_label n) True of
             Inl e \<Rightarrow> Inl e
           | Inr right_child_lbl \<Rightarrow>
               (case n of
                  Nullptr \<Rightarrow> Inl (LogicError ''null pointer'')
                | Node _ _ l r \<Rightarrow>
                    if l = Nullptr \<or> r = Nullptr \<or> node_label l \<noteq> left_child_lbl \<or>
                       node_label r \<noteq> right_child_lbl
                    then Inr None else Inr (Some [l, r]))))"

text \<open>
  The two nested loops, from index \<open>idx\<close> of the inner one. After each step \<open>level\<close> is what the
  step has put into \<open>next_level\<close>, by the swap inside the inner loop.
\<close>

partial_function (option) limit_loop :: "nat \<Rightarrow> nat \<Rightarrow> nat \<Rightarrow> ctnode list \<Rightarrow> nat result option" where
  "limit_loop max_limit idx curr_limit level =
     (if idx < length level then
        (case check_node (level ! idx) of
           Inl e \<Rightarrow> Some (Inl e)
         | Inr None \<Rightarrow> Some (Inr curr_limit)
         | Inr (Some a) \<Rightarrow>
             (case check_node (level ! (idx + 1)) of
                Inl e \<Rightarrow> Some (Inl e)
              | Inr None \<Rightarrow> Some (Inr curr_limit)
              | Inr (Some b) \<Rightarrow>
                  if 2 * curr_limit = max_limit then Some (Inr (2 * curr_limit))
                  else if 2 * curr_limit > max_limit then Some (Inr (2 * curr_limit div 2))
                  else limit_loop max_limit (idx + 2) (2 * curr_limit) (a @ b)))
      else limit_loop max_limit 0 curr_limit level)"

text \<open>\<open>hw\<close> is \<open>thread::hardware_concurrency()\<close>; the null pointer is the case of no node.\<close>

definition get_insertion_thread_limit :: "nat \<Rightarrow> ctnode \<Rightarrow> nat \<Rightarrow> nat result option" where
  "get_insertion_thread_limit hw node max_threads =
     (let max_limit = (if max_threads \<noteq> 0 then max_threads else hw) in
      if node = Nullptr then Some (Inr max_limit)
      else case check_node node of
             Inl e \<Rightarrow> Some (Inl e)
           | Inr None \<Rightarrow> Some (Inr 1)
           | Inr (Some level) \<Rightarrow> limit_loop max_limit 0 2 level)"

section \<open>Schedules\<close>

text \<open>
  A schedule is a list of thread numbers: each takes the next entry of its thread. When the list is
  exhausted the threads finish in their order.
\<close>

fun interleave :: "nat list \<Rightarrow> 'a list list \<Rightarrow> (nat \<times> 'a) list" where
  "interleave [] batches = concat (map (\<lambda>i. map (Pair i) (batches ! i)) [0..<length batches])"
| "interleave (i # sched) batches =
     (if i < length batches \<and> batches ! i \<noteq> []
      then (i, hd (batches ! i)) # interleave sched (batches[i := tl (batches ! i)])
      else interleave sched batches)"

section \<open>Insertion of a batch\<close>

text \<open>
  What the threads work on: the root, one map of updated nodes for each thread, with \<open>insert_or_assign\<close>
  as its update, and the exception that ended a thread.
\<close>

type_synonym node_map = "(partial_label \<times> stored_node) list"

record batch_state =
  bs_root :: ctnode
  bs_updated :: "node_map list"
  bs_errors :: "ozks_error option list"

definition put_nodes :: "stored_node list \<Rightarrow> node_map \<Rightarrow> node_map" where
  "put_nodes saved m = fold (\<lambda>s. AList.update (s_label s) s) saved m"

text \<open>\<open>batches[get_insertion_index(bit_count, label)].push_back({label, payload})\<close>.\<close>

fun distribute ::
  "nat \<Rightarrow> (partial_label \<times> hash_type) list \<Rightarrow> (partial_label \<times> hash_type) list list \<Rightarrow>
     (partial_label \<times> hash_type) list list result" where
  "distribute bit_count [] batches = Inr batches"
| "distribute bit_count ((label, payload) # rest) batches =
     (case get_insertion_index bit_count label of
        Inl e \<Rightarrow> Inl e
      | Inr ins_idx \<Rightarrow>
          distribute bit_count rest
            (batches[unat ins_idx := batches ! unat ins_idx @ [(label, payload)]]))"

text \<open>One call of \<open>root_->insert\<close> by thread \<open>i\<close>; a thread that has thrown does nothing more.\<close>

definition insertion_step ::
  "u64 \<Rightarrow> nat \<times> partial_label \<times> hash_type \<Rightarrow> batch_state \<Rightarrow> batch_state" where
  "insertion_step epoch entry st =
     (case entry of (i, label, payload) \<Rightarrow>
        if bs_errors st ! i \<noteq> None then st
        else case ct_insert label payload epoch (bs_root st) of
               Inl e \<Rightarrow> st\<lparr>bs_errors := (bs_errors st)[i := Some e]\<rparr>
             | Inr (root', saved) \<Rightarrow>
                 st\<lparr>bs_root := root',
                    bs_updated := (bs_updated st)[i := put_nodes saved (bs_updated st ! i)]\<rparr>)"

definition hash_update_step ::
  "nat \<Rightarrow> nat \<times> partial_label \<times> hash_type \<Rightarrow> batch_state \<Rightarrow> batch_state" where
  "hash_update_step bit_count entry st =
     (case entry of (i, label, payload) \<Rightarrow>
        if bs_errors st ! i \<noteq> None then st
        else case update_hashes label (bit_count + 1) (bs_root st) of
               (res, root', saved) \<Rightarrow>
                 st\<lparr>bs_root := root',
                    bs_updated := (bs_updated st)[i := put_nodes saved (bs_updated st ! i)],
                    bs_errors := (case res of
                        Inl e \<Rightarrow> (bs_errors st)[i := Some e]
                      | Inr _ \<Rightarrow> bs_errors st)\<rparr>)"

text \<open>\<open>ins_result.get()\<close> in the order of the threads rethrows the first exception.\<close>

definition first_error :: "batch_state \<Rightarrow> ozks_error option" where
  "first_error st = (case filter (\<lambda>e. e \<noteq> None) (bs_errors st) of [] \<Rightarrow> None | e # _ \<Rightarrow> e)"

subsection \<open>The top levels\<close>

text \<open>A pointer into the tree is the path from the root.\<close>

fun node_at :: "bool list \<Rightarrow> ctnode \<Rightarrow> ctnode" where
  "node_at [] t = t"
| "node_at (b # bs) Nullptr = Nullptr"
| "node_at (b # bs) (Node lbl h l r) = node_at bs (if b then r else l)"

fun set_node_at :: "bool list \<Rightarrow> ctnode \<Rightarrow> ctnode \<Rightarrow> ctnode" where
  "set_node_at [] n t = n"
| "set_node_at (b # bs) n Nullptr = Nullptr"
| "set_node_at (b # bs) n (Node lbl h l r) =
     (if b then Node lbl h l (set_node_at bs n r) else Node lbl h (set_node_at bs n l) r)"

text \<open>\<open>next_level\<close> of a level, and \<open>nodes_to_compute\<close> without the root.\<close>

fun next_level :: "ctnode \<Rightarrow> bool list list \<Rightarrow> bool list list result" where
  "next_level root [] = Inr []"
| "next_level root (p # curr_level) =
     (if node_at (p @ [False]) root = Nullptr then Inl (RuntimeError ''This node should exist'')
      else if node_at (p @ [True]) root = Nullptr then Inl (RuntimeError ''This node should exist'')
      else case next_level root curr_level of
             Inl e \<Rightarrow> Inl e
           | Inr rest \<Rightarrow> Inr ((p @ [False]) # (p @ [True]) # rest))"

fun gather_levels :: "nat \<Rightarrow> ctnode \<Rightarrow> bool list list \<Rightarrow> bool list list result" where
  "gather_levels 0 root curr_level = Inr []"
| "gather_levels (Suc n) root curr_level =
     (case next_level root curr_level of
        Inl e \<Rightarrow> Inl e
      | Inr next \<Rightarrow>
          (case gather_levels n root next of
             Inl e \<Rightarrow> Inl e
           | Inr rest \<Rightarrow> Inr (next @ rest)))"

text \<open>\<open>node->update_hash()\<close> on the nodes, in the order given, saving the nodes that change.\<close>

fun update_top :: "bool list list \<Rightarrow> ctnode \<Rightarrow> unit result \<times> ctnode \<times> stored_node list" where
  "update_top [] root = (Inr (), root, [])"
| "update_top (p # ps) root =
     (case update_and_save 0 0 (node_at p root) of
        (Some e, n, saved) \<Rightarrow> (Inl e, set_node_at p n root, saved)
      | (None, n, saved) \<Rightarrow>
          (case update_top ps (set_node_at p n root) of
             (res, root', saved') \<Rightarrow> (res, root', saved @ saved')))"

subsection \<open>The append proofs\<close>

text \<open>The indices of thread \<open>i\<close>: \<open>for (idx = i; idx < n; idx += stride)\<close>.\<close>

function stride_indices :: "nat \<Rightarrow> nat \<Rightarrow> nat \<Rightarrow> nat list" where
  "stride_indices idx stride n =
     (if idx < n \<and> 0 < stride then idx # stride_indices (idx + stride) stride n else [])"
  by pat_completeness auto
termination by (relation "measure (\<lambda>(idx, _, n). n - idx)") auto

declare stride_indices.simps [simp del]

fun lookup_proofs ::
  "trie \<Rightarrow> partial_label list \<Rightarrow> nat list \<Rightarrow> lookup_path_type list \<Rightarrow> lookup_path_type list result" where
  "lookup_proofs T labels [] proofs = Inr proofs"
| "lookup_proofs T labels (idx # rest) proofs =
     (case trie_lookup (labels ! idx) T of
        Inl e \<Rightarrow> Inl e
      | Inr (found, path) \<Rightarrow>
          if \<not> found
          then Inl (RuntimeError ''Should have been able to find the item we just inserted'')
          else lookup_proofs T labels rest (proofs[idx := path]))"

subsection \<open>The whole operation\<close>

text \<open>
  From the threads to the storage. An exception leaves the trie as it is then; the proofs of a failed
  batch are dropped.
\<close>

definition batch_lookups ::
  "nat \<Rightarrow> partial_label list \<Rightarrow> trie \<Rightarrow> lookup_path_type list result" where
  "batch_lookups thread_count labels T =
     lookup_proofs T labels
       (concat (map (\<lambda>i. stride_indices i thread_count (length labels)) [0..<thread_count]))
       (replicate (length labels) [])"

definition batch_finish ::
  "nat \<Rightarrow> nat \<Rightarrow> partial_label list \<Rightarrow> batch_state \<Rightarrow> trie \<Rightarrow>
     lookup_path_type list result \<times> trie \<times> storage_event list" where
  "batch_finish bit_count thread_count labels st T =
     (case gather_levels bit_count (bs_root st) [[]] of
        Inl e \<Rightarrow> (Inl e, T\<lparr>tr_root := bs_root st\<rparr>, [])
      | Inr nodes \<Rightarrow>
          (case update_top (rev ([] # nodes)) (bs_root st) of
             (Inl e, root', saved) \<Rightarrow> (Inl e, T\<lparr>tr_root := root'\<rparr>, [])
           | (Inr _, root', saved) \<Rightarrow>
               let last = length (bs_updated st) - 1;
                   updated = (bs_updated st)[last := put_nodes saved (bs_updated st ! last)];
                   T' = T\<lparr>tr_root := root'\<rparr>;
                   events = node_events T' (concat (map (map snd) updated))
               in case batch_lookups thread_count labels T' of
                    Inl e \<Rightarrow> (Inl e, T', events)
                  | Inr append_proofs \<Rightarrow>
                      (Inr append_proofs, T', events @ trie_save_to_storage T')))"

definition batch_run ::
  "nat \<Rightarrow> nat list \<Rightarrow> nat list \<Rightarrow> (partial_label \<times> hash_type) list \<Rightarrow> trie \<Rightarrow>
     lookup_path_type list result \<times> trie \<times> storage_event list" where
  "batch_run thread_count sched1 sched2 batch T =
     (let bit_count = get_log2 thread_count; T1 = T\<lparr>tr_epoch := tr_epoch T + 1\<rparr> in
      case distribute bit_count batch (replicate thread_count []) of
        Inl e \<Rightarrow> (Inl e, T1, [])
      | Inr batches \<Rightarrow>
          let st0 = \<lparr>bs_root = tr_root T1, bs_updated = replicate thread_count [],
                     bs_errors = replicate thread_count None\<rparr>;
              st1 = fold (insertion_step (tr_epoch T1)) (interleave sched1 batches) st0
          in case first_error st1 of
               Some e \<Rightarrow> (Inl e, T1\<lparr>tr_root := bs_root st1\<rparr>, [])
             | None \<Rightarrow>
                 let st2 = fold (hash_update_step bit_count) (interleave sched2 batches) st1
                 in case first_error st2 of
                      Some e \<Rightarrow> (Inl e, T1\<lparr>tr_root := bs_root st2\<rparr>, [])
                    | None \<Rightarrow> batch_finish bit_count thread_count (map fst batch) st2 T1)"

text \<open>A linked root is \<open>parallelizable()\<close>. \<open>None\<close>: the choice of the number of threads does not return.\<close>

definition trie_insert_batch ::
  "nat \<Rightarrow> nat list \<Rightarrow> nat list \<Rightarrow> (partial_label \<times> hash_type) list \<Rightarrow> trie \<Rightarrow>
     (lookup_path_type list result \<times> trie \<times> storage_event list) option" where
  "trie_insert_batch hw sched1 sched2 batch T =
     (case get_insertion_thread_limit hw (tr_root T) (tr_thread_count T) of
        None \<Rightarrow> None
      | Some (Inl e) \<Rightarrow> Some (Inl e, T, [])
      | Some (Inr thread_count) \<Rightarrow> Some (batch_run thread_count sched1 sched2 batch T))"


section \<open>When the number of threads is right\<close>

text \<open>
  \<open>cov d q L\<close>: every extension of \<open>q\<close> by \<open>d\<close> bits is a prefix of a label of \<open>L\<close>. A trie whose leaves
  cover all strings of \<open>d\<close> bits has both children at every node of its first \<open>d\<close> levels.
\<close>

definition cov :: "nat \<Rightarrow> bool list \<Rightarrow> (partial_label \<times> hash_type) set \<Rightarrow> bool" where
  "cov d q L = (\<forall>p. length p = d \<longrightarrow> (\<exists>(k, v) \<in> L. is_prefix (q @ p) (pl_bits k)))"

definition covered :: "nat \<Rightarrow> (partial_label \<times> hash_type) set \<Rightarrow> bool" where
  "covered d L = (d = 0 \<or> cov d [] L)"

lemma cov_Suc: "cov (Suc d) q L \<longleftrightarrow> cov d (q @ [False]) L \<and> cov d (q @ [True]) L"
proof
  assume c: "cov (Suc d) q L"
  have "cov d (q @ [b]) L" for b
    unfolding cov_def
  proof (intro allI impI)
    fix p :: "bool list" assume "length p = d"
    then show "\<exists>(k, v) \<in> L. is_prefix ((q @ [b]) @ p) (pl_bits k)"
      using c [unfolded cov_def, rule_format, of "b # p"] by simp
  qed
  then show "cov d (q @ [False]) L \<and> cov d (q @ [True]) L" by simp
next
  assume c: "cov d (q @ [False]) L \<and> cov d (q @ [True]) L"
  then have b: "cov d (q @ [b]) L" for b by (cases b) auto
  show "cov (Suc d) q L" unfolding cov_def
  proof (intro allI impI)
    fix p :: "bool list" assume "length p = Suc d"
    then obtain b p' where p: "p = b # p'" "length p' = d" by (cases p) auto
    then show "\<exists>(k, v) \<in> L. is_prefix (q @ p) (pl_bits k)"
      using b [unfolded cov_def, rule_format, of p' b] by simp
  qed
qed

lemma cov_mono: "cov d q L \<Longrightarrow> L \<subseteq> L' \<Longrightarrow> cov d q L'"
  unfolding cov_def by blast

lemma covered_mono: "covered d L \<Longrightarrow> L \<subseteq> L' \<Longrightarrow> covered d L'"
  unfolding covered_def using cov_mono by blast

lemma cov_0: "ct_wf t \<Longrightarrow> is_prefix q (pl_bits (node_label t)) \<Longrightarrow> cov 0 q (set (ct_leaves t))"
  using leaves_nonempty [of t] leaves_extend [of t] is_prefix_trans
  by (fastforce simp: cov_def)

definition exact :: "ctnode \<Rightarrow> bool list \<Rightarrow> bool" where
  "exact t p = (ct_wf t \<and> pl_bits (node_label t) = p)"

lemma exact_cov: "exact t p \<Longrightarrow> cov 0 p (set (ct_leaves t))"
  by (simp add: exact_def cov_0)

text \<open>A node whose leaves are longer than its label has both children.\<close>

lemma exact_cov1:
  assumes "exact t p" "\<And>k v. (k, v) \<in> set (ct_leaves t) \<Longrightarrow> length p < pl_bit_count k"
  shows "cov 1 p (set (ct_leaves t))"
proof -
  obtain lbl h l r where t: "t = Node lbl h l r" using assms(1) by (cases t) (auto simp: exact_def)
  have w: "ct_wf (Node lbl h l r)" "pl_bits lbl = p" using assms(1) t by (auto simp: exact_def)
  have "l \<noteq> Nullptr"
  proof
    assume "l = Nullptr"
    then have "(lbl, h) \<in> set (ct_leaves t)" using wf_children [OF w(1)] t by simp
    then show False using assms(2) w(2) by fastforce
  qed
  then have c: "ct_wf l" "ct_wf r" "is_prefix (p @ [False]) (pl_bits (node_label l))"
    "is_prefix (p @ [True]) (pl_bits (node_label r))" "set (ct_leaves t) = set (ct_leaves l) \<union> set (ct_leaves r)"
    using w t by auto
  have "cov 0 (p @ [False]) (set (ct_leaves t))" "cov 0 (p @ [True]) (set (ct_leaves t))"
    using cov_mono [OF cov_0 [OF c(1,3)]] cov_mono [OF cov_0 [OF c(2,4)]] c(5) by auto
  then show ?thesis using cov_Suc [of 0 p] by simp
qed

lemma check_node_spec:
  assumes "pl_valid lbl" "pl_bits lbl = p" "length p < 256" "l = Nullptr \<or> ct_wf l" "r = Nullptr \<or> ct_wf r"
  shows "check_node (Node lbl h l r) = Inr None \<or>
    check_node (Node lbl h l r) = Inr (Some [l, r]) \<and> exact l (p @ [False]) \<and> exact r (p @ [True])"
proof -
  have n: "pl_bit_count lbl < 256" using assms(2,3) by auto
  obtain ll where ll: "pl_add_bit lbl False = Inr ll" "pl_bits ll = p @ [False]"
    using pl_add_bit_spec [OF assms(1) n] assms(2) by metis
  obtain rl where rl: "pl_add_bit lbl True = Inr rl" "pl_bits rl = p @ [True]"
    using pl_add_bit_spec [OF assms(1) n] assms(2) by metis
  show ?thesis using assms(4,5) ll rl by (auto simp: check_node_def exact_def)
qed

lemma check_exact:
  assumes "exact t p" "length p < 256"
  obtains "check_node t = Inr None"
  | l r where "check_node t = Inr (Some [l, r])" "exact l (p @ [False])" "exact r (p @ [True])"
    "set (ct_leaves t) = set (ct_leaves l) \<union> set (ct_leaves r)"
proof -
  obtain lbl h l r where t: "t = Node lbl h l r" using assms(1) by (cases t) (auto simp: exact_def)
  have w: "pl_valid lbl" "pl_bits lbl = p" "l = Nullptr \<or> ct_wf l" "r = Nullptr \<or> ct_wf r"
    using assms(1) t by (auto simp: exact_def)
  from check_node_spec [OF w(1,2) assms(2) w(3,4), of h] show ?thesis
  proof
    assume "check_node (Node lbl h l r) = Inr None"
    then show ?thesis using that(1) t by simp
  next
    assume c: "check_node (Node lbl h l r) = Inr (Some [l, r]) \<and> exact l (p @ [False]) \<and> exact r (p @ [True])"
    then have "l \<noteq> Nullptr" by (auto simp: exact_def)
    then show ?thesis using that(2) [of l r] c t by simp
  qed
qed

lemma check_root:
  assumes "root_wf t"
  obtains "check_node t = Inr None"
  | l r where "check_node t = Inr (Some [l, r])" "exact l [False]" "exact r [True]"
    "trie_leaves t = set (ct_leaves l) \<union> set (ct_leaves r)"
proof -
  obtain h l r where t: "t = Node pl_default h l r" "child_wf False l" "child_wf True r"
    using assms by (rule root_wf_cases)
  have c: "l = Nullptr \<or> ct_wf l" "r = Nullptr \<or> ct_wf r" using t by (auto simp: child_wf_def)
  from check_node_spec [OF pl_default_valid _ _ c, of "[]" h] show ?thesis
    using that t(1) by auto
qed

text \<open>Two exact nodes in a row of a level: the step either ends the loop or goes down one level.\<close>

lemma limit_step:
  assumes "exact m0 p" "exact m1 q" "length p < 256" "length q < 256" "0 < c"
    "level ! idx = m0" "level ! (idx + 1) = m1" "idx < length level"
  obtains "limit_loop m idx c level = Some (Inr c)"
  | a0 a1 b0 b1 where "limit_loop m idx c level =
       (if 2 * c = m then Some (Inr (2 * c)) else if 2 * c > m then Some (Inr c)
        else limit_loop m (idx + 2) (2 * c) [a0, a1, b0, b1])"
     "exact a0 (p @ [False])" "exact a1 (p @ [True])" "exact b0 (q @ [False])" "exact b1 (q @ [True])"
     "set (ct_leaves m0) = set (ct_leaves a0) \<union> set (ct_leaves a1)"
     "set (ct_leaves m1) = set (ct_leaves b0) \<union> set (ct_leaves b1)"
proof (cases rule: check_exact [OF assms(1,3)])
  case 1
  then show ?thesis using that(1) assms(6-8) by (simp add: limit_loop.simps)
next
  case a: (2 a0 a1)
  show ?thesis
  proof (cases rule: check_exact [OF assms(2,4)])
    case 1
    then show ?thesis using that(1) assms(6-8) a(1) by (simp add: limit_loop.simps)
  next
    case b: (2 b0 b1)
    have "limit_loop m idx c level =
       (if 2 * c = m then Some (Inr (2 * c)) else if 2 * c > m then Some (Inr c)
        else limit_loop m (idx + 2) (2 * c) [a0, a1, b0, b1])"
      by (subst limit_loop.simps) (use assms(6-8) a(1) b(1) in simp)
    then show ?thesis using that(2) a b by blast
  qed
qed

text \<open>
  Below 16 threads the answer is right: a power of two such that every string of that many bits is
  a prefix of a leaf. Labels of the program have 256 bits; three are enough here.
\<close>

lemma limit_loop_restart: "length level \<le> idx \<Longrightarrow> limit_loop m idx c level = limit_loop m 0 c level"
  by (subst limit_loop.simps) simp

lemma thread_limit_sound:
  assumes "root_wf t" "(if mt \<noteq> 0 then mt else hw) < 16"
    and long: "\<And>k v. (k, v) \<in> trie_leaves t \<Longrightarrow> 3 \<le> pl_bit_count k"
  obtains d where "get_insertion_thread_limit hw t mt = Some (Inr (2 ^ d))" "d \<le> 3"
    "covered d (trie_leaves t)"
proof -
  define m where "m = (if mt \<noteq> 0 then mt else hw)"
  have m16: "m < 16" using assms(2) by (simp only: m_def)
  have tN: "t \<noteq> Nullptr" using assms(1) by (auto simp: root_wf_def)
  have lim: "get_insertion_thread_limit hw t mt = (case check_node t of Inl e \<Rightarrow> Some (Inl e)
      | Inr None \<Rightarrow> Some (Inr 1) | Inr (Some level) \<Rightarrow> limit_loop m 0 2 level)"
    using tN by (simp only: get_insertion_thread_limit_def Let_def m_def [symmetric] if_False)
  show ?thesis
  proof (cases rule: check_root [OF assms(1)])
    case 1
    then show ?thesis using that [of 0] lim by (simp add: covered_def)
  next
    case (2 a0 a1)
    note ex = 2(2,3) and lv = 2(4)
    have lim1: "get_insertion_thread_limit hw t mt = limit_loop m 0 2 [a0, a1]"
      using lim 2(1) by simp
    have sub: "set (ct_leaves a0) \<subseteq> trie_leaves t" "set (ct_leaves a1) \<subseteq> trie_leaves t" using lv by auto
    have c1: "covered 1 (trie_leaves t)"
      using cov_mono [OF exact_cov [OF ex(1)] sub(1)] cov_mono [OF exact_cov [OF ex(2)] sub(2)] cov_Suc [of 0 "[]"]
      by (simp add: covered_def)
    show ?thesis
    proof (cases rule: limit_step [OF ex, of 2 "[a0, a1]" 0 m, simplified])
      case 1
      then show ?thesis using that [of 1] lim1 c1 by simp
    next
      case (2 b00 b01 b10 b11)
      note loop = 2(1) and ex2 = 2(2-5) and lv2 = 2(6,7)
      have sub2: "set (ct_leaves b00) \<subseteq> trie_leaves t" "set (ct_leaves b01) \<subseteq> trie_leaves t"
        "set (ct_leaves b10) \<subseteq> trie_leaves t" "set (ct_leaves b11) \<subseteq> trie_leaves t"
        using lv lv2 by auto
      have cov2: "cov 0 [False, False] (trie_leaves t)" "cov 0 [False, True] (trie_leaves t)"
        "cov 0 [True, False] (trie_leaves t)" "cov 0 [True, True] (trie_leaves t)"
        using cov_mono [OF exact_cov [OF ex2(1)] sub2(1)] cov_mono [OF exact_cov [OF ex2(2)] sub2(2)]
          cov_mono [OF exact_cov [OF ex2(3)] sub2(3)] cov_mono [OF exact_cov [OF ex2(4)] sub2(4)] by simp_all
      have c2: "covered 2 (trie_leaves t)"
        using cov2 cov_Suc by (simp add: covered_def numeral_2_eq_2)
      show ?thesis
      proof (cases "4 \<le> m \<and> m \<noteq> 4")
        case False
        then consider "m = 4" | "m < 4" by linarith
        then show ?thesis
        proof cases
          case 1
          then have "get_insertion_thread_limit hw t mt = Some (Inr 4)" using lim1 loop by simp
          then show ?thesis using that [of 2] c2 by simp
        next
          case 2
          then have "get_insertion_thread_limit hw t mt = Some (Inr 2)" using lim1 loop by simp
          then show ?thesis using that [of 1] c1 by simp
        qed
      next
        case True
        have lim2: "get_insertion_thread_limit hw t mt = limit_loop m 2 4 [b00, b01, b10, b11]"
          using lim1 loop True by (simp add: eval_nat_numeral)
        show ?thesis
        proof (cases rule: limit_step [OF ex2(3,4), of 4 "[b00, b01, b10, b11]" 2 m, simplified])
          case 1
          then show ?thesis using that [of 2] lim2 c2 by simp
        next
          case (2 e0 e1 e2 e3)
          note loop3 = 2(1) and ex3 = 2(2-5)
          have sub3: "set (ct_leaves e0) \<subseteq> trie_leaves t" "set (ct_leaves e1) \<subseteq> trie_leaves t"
            "set (ct_leaves e2) \<subseteq> trie_leaves t" "set (ct_leaves e3) \<subseteq> trie_leaves t"
            using 2(6,7) sub2 by auto
          have "cov 1 [False, False] (set (ct_leaves b00))" "cov 1 [False, True] (set (ct_leaves b01))"
            by (rule exact_cov1 [OF ex2(1)] exact_cov1 [OF ex2(2)]; use long sub2 in fastforce)+
          then have "cov 1 [False, False] (trie_leaves t)" "cov 1 [False, True] (trie_leaves t)"
            using cov_mono [OF _ sub2(1)] cov_mono [OF _ sub2(2)] by simp_all
          moreover have "cov 0 [True, False, False] (trie_leaves t)" "cov 0 [True, False, True] (trie_leaves t)"
            "cov 0 [True, True, False] (trie_leaves t)" "cov 0 [True, True, True] (trie_leaves t)"
            using cov_mono [OF exact_cov [OF 2(2)] sub3(1)] cov_mono [OF exact_cov [OF 2(3)] sub3(2)]
              cov_mono [OF exact_cov [OF 2(4)] sub3(3)] cov_mono [OF exact_cov [OF 2(5)] sub3(4)] by simp_all
          ultimately have c3: "covered 3 (trie_leaves t)"
            using cov_Suc by (simp add: covered_def numeral_3_eq_3)
          show ?thesis
          proof (cases "8 \<le> m \<and> m \<noteq> 8")
            case False
            then consider "m = 8" | "m < 8" by linarith
            then show ?thesis
            proof cases
              case 1
              then have "get_insertion_thread_limit hw t mt = Some (Inr 8)" using lim2 loop3 by simp
              then show ?thesis using that [of 3] c3 by simp
            next
              case 2
              then have "get_insertion_thread_limit hw t mt = Some (Inr 4)" using lim2 loop3 by simp
              then show ?thesis using that [of 2] c2 by simp
            qed
          next
            case True
            have lim3: "get_insertion_thread_limit hw t mt = limit_loop m 0 8 [e0, e1, e2, e3]"
              using lim2 loop3 True limit_loop_restart [of "[e0, e1, e2, e3]" 4 m 8] by simp
            have "limit_loop m 0 8 [e0, e1, e2, e3] = Some (Inr 8)"
              by (cases rule: limit_step [OF ex3(1,2), of 8 "[e0, e1, e2, e3]" 0 m, simplified])
                (use m16 in simp_all)
            then show ?thesis using that [of 3] c3 lim3 by simp
          qed
        qed
      qed
    qed
  qed
qed

section \<open>The top levels are complete\<close>

fun full :: "nat \<Rightarrow> ctnode \<Rightarrow> bool" where
  "full 0 t = True"
| "full (Suc d) Nullptr = False"
| "full (Suc d) (Node lbl h l r) = (l \<noteq> Nullptr \<and> r \<noteq> Nullptr \<and> full d l \<and> full d r)"

lemma cov_leaf: "cov d q L \<Longrightarrow> \<exists>(k, v) \<in> L. is_prefix q (pl_bits k)"
  unfolding cov_def by (elim allE [of _ "replicate d False"]) (auto simp: is_prefix_iff)

lemma cov_full_children:
  assumes "cov d (q @ [b]) L" "L' = {z \<in> L. is_prefix (q @ [b]) (pl_bits (fst z))}"
  shows "cov d (q @ [b]) L'"
proof -
  have "is_prefix (q @ [b]) xs" if "is_prefix ((q @ [b]) @ p) xs" for p xs
    using that by (auto simp: is_prefix_iff)
  then show ?thesis using assms unfolding cov_def by fastforce
qed

lemma cov_node:
  assumes "ct_wf t" "is_prefix q (pl_bits (node_label t))" "cov (Suc d) q (set (ct_leaves t))"
  obtains lbl h l r where "t = Node lbl h l r" "pl_bits lbl = q" "ct_wf l" "ct_wf r"
    "is_prefix (q @ [False]) (pl_bits (node_label l))" "is_prefix (q @ [True]) (pl_bits (node_label r))"
    "cov d (q @ [False]) (set (ct_leaves l))" "cov d (q @ [True]) (set (ct_leaves r))"
proof -
  obtain lbl h l r where t: "t = Node lbl h l r" using assms(1) by (cases t) auto
  note w = assms(1) [unfolded t]
  have c: "cov d (q @ [b]) (set (ct_leaves t))" for b
    using assms(3) cov_Suc by (cases b) auto
  obtain a x where a: "(a, x) \<in> set (ct_leaves t)" "is_prefix (q @ [False]) (pl_bits a)"
    using cov_leaf [OF c] by blast
  obtain a' x' where a': "(a', x') \<in> set (ct_leaves t)" "is_prefix (q @ [True]) (pl_bits a')"
    using cov_leaf [OF c] by blast
  have "is_prefix (pl_bits lbl) (lcp (pl_bits a) (pl_bits a'))"
    using leaves_extend [OF assms(1) a(1)] leaves_extend [OF assms(1) a'(1)] t
    by (intro prefix_lcp) simp_all
  moreover have "lcp (pl_bits a) (pl_bits a') = q" using a(2) a'(2) by (auto dest!: prefix_snoc)
  ultimately have q: "pl_bits lbl = q"
    using assms(2) t by (metis append_eq_conv_conj is_prefix_def is_prefix_length le_antisym node_sel(1) take_all_iff)
  have lN: "l \<noteq> Nullptr"
  proof
    assume "l = Nullptr"
    then have "a = lbl" using a(1) wf_children [OF w] t by simp
    then show False using a(2) q is_prefix_length by fastforce
  qed
  then have ch: "ct_wf l" "ct_wf r" "is_prefix (q @ [False]) (pl_bits (node_label l))"
    "is_prefix (q @ [True]) (pl_bits (node_label r))" using w q by auto
  have s: "set (ct_leaves (if b then r else l)) = {z \<in> set (ct_leaves t). is_prefix (q @ [b]) (pl_bits (fst z))}" for b
    using leaves_side [OF w lN, of b] q t by simp
  have "cov d (q @ [False]) (set (ct_leaves l))" "cov d (q @ [True]) (set (ct_leaves r))"
    using cov_full_children [OF c s] by (metis (full_types))+
  then show ?thesis using that [OF t q ch] by blast
qed

lemma cov_full:
  "ct_wf t \<Longrightarrow> is_prefix q (pl_bits (node_label t)) \<Longrightarrow> cov d q (set (ct_leaves t)) \<Longrightarrow> full d t"
proof (induction d arbitrary: t q)
  case (Suc d)
  from cov_node [OF Suc.prems] show ?case
    using Suc.IH ct_wf_ne by (metis full.simps(3))
qed simp

text \<open>The same at the root.\<close>

lemma cov_root:
  assumes "root_wf t" "covered (Suc n) (trie_leaves t)"
  obtains h l r where "t = Node pl_default h l r" "ct_wf l" "ct_wf r"
    "is_prefix [False] (pl_bits (node_label l))" "is_prefix [True] (pl_bits (node_label r))"
    "cov n [False] (set (ct_leaves l))" "cov n [True] (set (ct_leaves r))"
proof -
  obtain h l r where t: "t = Node pl_default h l r" "child_wf False l" "child_wf True r"
    using assms(1) by (rule root_wf_cases)
  have c: "cov n ([] @ [b]) (trie_leaves t)" for b
    using assms(2) cov_Suc [of n "[]"] by (cases b) (auto simp: covered_def)
  have s: "set (ct_leaves (if b then r else l)) = {z \<in> trie_leaves t. is_prefix ([] @ [b]) (pl_bits (fst z))}" for b
  proof -
    have e: "is_prefix ([] @ [b]) xs = (\<exists>ys. xs = b # ys)" for xs by (auto simp: is_prefix_iff)
    show ?thesis unfolding e using root_sides [OF assms(1), of b] unfolding t(1) ctnode.sel .
  qed
  have cc: "cov n [b] (set (ct_leaves (if b then r else l)))" for b
    using cov_full_children [OF c s] by simp
  have ne: "(if b then r else l) \<noteq> Nullptr" for b
  proof -
    obtain z where "z \<in> set (ct_leaves (if b then r else l))" using cov_leaf [OF cc [of b]] by blast
    then show ?thesis by (cases "if b then r else l") auto
  qed
  have "l \<noteq> Nullptr" "r \<noteq> Nullptr" using ne [of False] ne [of True] by auto
  then show ?thesis using that [OF t(1)] t(2,3) cc [of False] cc [of True] by (simp add: child_wf_def)
qed

lemma covered_full:
  assumes "root_wf t" "covered d (trie_leaves t)"
  shows "full d t"
proof (cases d)
  case (Suc n)
  from cov_root [OF assms(1) assms(2) [unfolded Suc]] show ?thesis
    using Suc cov_full ct_wf_ne by (metis full.simps(3))
qed simp

section \<open>The levels in the order of the code\<close>

fun paths :: "nat \<Rightarrow> bool list list" where
  "paths 0 = [[]]"
| "paths (Suc n) = map (Cons False) (paths n) @ map (Cons True) (paths n)"

lemma paths_next: "concat (map (\<lambda>p. [p @ [False], p @ [True]]) (paths n)) = paths (Suc n)"
proof (induction n)
  case (Suc n)
  have "concat (map (\<lambda>p. [p @ [False], p @ [True]]) (map (Cons b) ps)) =
      map (Cons b) (concat (map (\<lambda>p. [p @ [False], p @ [True]]) ps))" for b and ps :: "bool list list"
    by (induction ps) auto
  then show ?case using Suc by (simp only: paths.simps map_append concat_append)
qed simp

lemma paths_length: "p \<in> set (paths n) \<Longrightarrow> length p = n"
  by (induction n arbitrary: p) auto

lemma full_node_at: "full d t \<Longrightarrow> length p < d \<Longrightarrow> node_at (p @ [b]) t \<noteq> Nullptr"
  by (induction d t arbitrary: p rule: full.induct) (case_tac p; auto)+

lemma next_level_full:
  assumes "full d t" "\<And>p. p \<in> set ps \<Longrightarrow> length p < d"
  shows "next_level t ps = Inr (concat (map (\<lambda>p. [p @ [False], p @ [True]]) ps))"
  using assms(2) full_node_at [OF assms(1)] by (induction ps) auto

lemma gather_levels_full:
  "full (i + n) t \<Longrightarrow> gather_levels n t (paths i) = Inr (concat (map paths [Suc i..<Suc (i + n)]))"
proof (induction n arbitrary: i)
  case (Suc n)
  have f: "full (Suc i + n) t" using Suc.prems by simp
  have "next_level t (paths i) = Inr (paths (Suc i))"
    unfolding paths_next [symmetric] by (rule next_level_full [OF Suc.prems]) (use paths_length in fastforce)
  moreover have "gather_levels n t (paths (Suc i)) = Inr (concat (map paths [Suc (Suc i)..<Suc (Suc i + n)]))"
    by (rule Suc.IH [OF f])
  moreover have "[Suc i..<Suc (i + Suc n)] = Suc i # [Suc (Suc i)..<Suc (Suc i + n)]"
    by (simp add: upt_conv_Cons)
  ultimately show ?case by (simp del: upt_Suc paths.simps(2))
qed simp

lemma gather_top:
  assumes "full d t"
  obtains nodes where "gather_levels d t [[]] = Inr nodes" "rev ([] # nodes) = concat (map (\<lambda>j. rev (paths j)) (rev [0..<Suc d]))"
proof -
  have "gather_levels d t (paths 0) = Inr (concat (map paths [Suc 0..<Suc (0 + d)]))"
    by (rule gather_levels_full) (use assms in simp)
  moreover have "[] # concat (map paths [Suc 0..<Suc d]) = concat (map paths [0..<Suc d])"
    by (subst (2) upt_conv_Cons) simp_all
  moreover have "rev (concat (map paths js)) = concat (map (\<lambda>j. rev (paths j)) (rev js))" for js
    by (induction js) simp_all
  ultimately show ?thesis using that by (metis add_0 paths.simps(1))
qed

section \<open>The pass over the top levels\<close>

fun refresh_level :: "nat \<Rightarrow> ctnode \<Rightarrow> ctnode" where
  "refresh_level 0 t = refresh t"
| "refresh_level (Suc j) Nullptr = Nullptr"
| "refresh_level (Suc j) (Node lbl h l r) = Node lbl h (refresh_level j l) (refresh_level j r)"

fun refresh_top :: "nat \<Rightarrow> ctnode \<Rightarrow> ctnode" where
  "refresh_top 0 t = refresh t"
| "refresh_top (Suc j) t = refresh_top j (refresh_level (Suc j) t)"

text \<open>The nodes of a level exist, and no leaf of the tree is dirty.\<close>

fun leaves_clean :: "ctnode \<Rightarrow> bool" where
  "leaves_clean Nullptr = True"
| "leaves_clean (Node lbl h l r) =
     ((l = Nullptr \<and> r = Nullptr \<longrightarrow> \<not> dirty_bit h) \<and> leaves_clean l \<and> leaves_clean r)"

lemma refresh_level_label [simp]: "node_label (refresh_level j t) = node_label t"
  "refresh_level j t = Nullptr \<longleftrightarrow> t = Nullptr"
  by (cases "(j, t)" rule: refresh_level.cases; simp)+

lemma refresh_leaves_clean: "leaves_clean t \<Longrightarrow> leaves_clean (refresh t)"
  by (cases t) (auto simp: refresh_def)

lemma refresh_level_leaves_clean: "leaves_clean t \<Longrightarrow> leaves_clean (refresh_level j t)"
  by (induction j t rule: refresh_level.induct) (auto simp: refresh_leaves_clean)

lemma refresh_full: "full d t \<Longrightarrow> full d (refresh t)"
  by (cases "(d, t)" rule: full.cases) (auto simp: refresh_def)

lemma refresh_level_full: "full d t \<Longrightarrow> full d (refresh_level j t)"
proof (induction j t arbitrary: d rule: refresh_level.induct)
  case (3 j lbl h l r)
  then show ?case by (cases d) auto
qed (simp_all add: refresh_full)

lemma wf_leaves_clean: "ct_wf t \<Longrightarrow> leaves_clean t"
  by (induction t) auto

lemma root_leaves_clean:
  assumes "root_wf t" "trie_leaves t \<noteq> {} \<or> \<not> get_dirty_bit t"
  shows "leaves_clean t"
proof -
  obtain h l r where t: "t = Node pl_default h l r" "child_wf False l" "child_wf True r"
    using assms(1) by (rule root_wf_cases)
  have "leaves_clean l" "leaves_clean r" using t wf_leaves_clean by (auto simp: child_wf_def)
  then show ?thesis using t(1) assms(2) by auto
qed

text \<open>Paths below the same child work on that child.\<close>

lemma update_top_child:
  "update_top (map (Cons b) ps) (Node lbl h l r) =
    (case update_top ps (if b then r else l) of (res, c, saved) \<Rightarrow>
      (res, if b then Node lbl h l c else Node lbl h c r, saved))"
proof (induction ps arbitrary: l r)
  case (Cons p ps)
  then show ?case by (cases b) (auto split: prod.split option.split)
qed simp

lemma update_top_append:
  "update_top (ps @ qs) t = (case update_top ps t of
     (Inl e, t', saved) \<Rightarrow> (Inl e, t', saved)
   | (Inr _, t', saved) \<Rightarrow> (case update_top qs t' of (res, t'', saved') \<Rightarrow> (res, t'', saved @ saved')))"
  by (induction ps arbitrary: t) (auto split: prod.split option.split sum.split)

lemma update_top_refresh:
  assumes "leaves_clean t" "t \<noteq> Nullptr"
  shows "\<exists>saved. update_top [[]] t = (Inr (), refresh t, saved) \<and> saves_ok t (refresh t) saved"
proof -
  have "is_leaf t \<Longrightarrow> \<not> get_dirty_bit t" using assms(1) by (cases t) auto
  from update_and_save_refresh [OF this assms(2), of 0 0] show ?thesis
    using saves_ok_refresh [of t 0 0] by (simp add: refresh_at_def)
qed

lemma update_top_level:
  "full j t \<Longrightarrow> leaves_clean t \<Longrightarrow> t \<noteq> Nullptr \<Longrightarrow>
    \<exists>saved. update_top (rev (paths j)) t = (Inr (), refresh_level j t, saved) \<and>
      saves_ok t (refresh_level j t) saved"
proof (induction j arbitrary: t)
  case 0
  then show ?case using update_top_refresh by simp
next
  case (Suc j)
  obtain lbl h l r where t: "t = Node lbl h l r" using Suc.prems(3) by (cases t) auto
  have c: "full j l" "full j r" "leaves_clean l" "leaves_clean r" "l \<noteq> Nullptr" "r \<noteq> Nullptr"
    using Suc.prems(1,2) t by auto
  obtain sl where sl: "update_top (rev (paths j)) l = (Inr (), refresh_level j l, sl)"
    "saves_ok l (refresh_level j l) sl" using Suc.IH [OF c(1,3,5)] by blast
  obtain sr where sr: "update_top (rev (paths j)) r = (Inr (), refresh_level j r, sr)"
    "saves_ok r (refresh_level j r) sr" using Suc.IH [OF c(2,4,6)] by blast
  have "update_top (rev (paths (Suc j))) t =
      (Inr (), Node lbl h (refresh_level j l) (refresh_level j r), sr @ sl)"
  proof -
    have "rev (paths (Suc j)) = map (Cons True) (rev (paths j)) @ map (Cons False) (rev (paths j))"
      by (simp add: rev_map)
    then show ?thesis by (simp add: update_top_append update_top_child t sl(1) sr(1) del: paths.simps)
  qed
  moreover have "saves_ok t (Node lbl h (refresh_level j l) (refresh_level j r)) (sr @ sl)"
    unfolding t by (rule saves_ok_node [OF sl(2) sr(2), of _ "[]"]) auto
  ultimately show ?case using t by auto
qed

section \<open>Pending updates above a level\<close>

text \<open>
  \<open>pendt j U\<close> relaxes \<open>pend U\<close> on the first \<open>j\<close> levels, which the hash updates of the threads leave
  alone: there a dirty node needs no reason.
\<close>

fun pendt :: "nat \<Rightarrow> partial_label set \<Rightarrow> ctnode \<Rightarrow> bool" where
  "pendt 0 U t = pend U t"
| "pendt (Suc j) U Nullptr = True"
| "pendt (Suc j) U (Node lbl h l r) =
     (l = Nullptr \<and> r = Nullptr \<or>
      pendt j U l \<and> pendt j U r \<and>
      (\<not> dirty_bit h \<longrightarrow> \<not> get_dirty_bit l \<and> \<not> get_dirty_bit r \<and> h = digest l r))"

lemma pend_pendt: "pend U t \<Longrightarrow> pendt j U t"
  by (induction j U t rule: pendt.induct) auto

lemma pendt_clean_fresh: "pendt j U t \<Longrightarrow> \<not> get_dirty_bit t \<Longrightarrow> ct_fresh t"
  by (induction j U t rule: pendt.induct) (auto intro: clean_fresh)

lemma pendt_cong:
  "(\<And>k v. (k, v) \<in> set (ct_leaves t) \<Longrightarrow> (k \<in> U) = (k \<in> U')) \<Longrightarrow> pendt j U t = pendt j U' t"
proof (induction j U t rule: pendt.induct)
  case (3 j U lbl h l r)
  show ?case
  proof (cases "l = Nullptr \<and> r = Nullptr")
    case False
    then have m: "(k \<in> U) = (k \<in> U')" if "(k, v) \<in> set (ct_leaves l) \<union> set (ct_leaves r)" for k v
      using "3.prems" [of k v] that by (auto split: if_splits)
    show ?thesis using "3.IH"(1) "3.IH"(2) m by auto
  qed simp
next
  case (1 U t)
  then show ?case by (simp only: pendt.simps(1)) (rule pend_cong)
qed simp

text \<open>Without pending labels the pass over a level repairs the level and moves the border up.\<close>

lemma refresh_pend_fresh: "pend {} t \<Longrightarrow> leaves_clean t \<Longrightarrow> ct_fresh (refresh t)"
proof (cases t)
  case (Node lbl h l r)
  assume p: "pend {} t" "leaves_clean t"
  show ?thesis
  proof (cases "l = Nullptr \<and> r = Nullptr")
    case False
    then have c: "\<not> get_dirty_bit l" "\<not> get_dirty_bit r" "pend {} l" "pend {} r" "dirty_bit h \<or> h = digest l r"
      using p(1) Node by (simp_all add: ok_child_def below_def) blast+
    then have "ct_fresh l" "ct_fresh r" using clean_fresh [of "{}"] by blast+
    then show ?thesis using Node c(1,2,5) by (cases "dirty_bit h") (simp_all add: refresh_def)
  qed (use p Node in \<open>auto simp: refresh_def\<close>)
qed simp

lemma refresh_level_clean: "pendt j U t \<Longrightarrow> \<not> get_dirty_bit t \<Longrightarrow> refresh_level j t = t"
proof (induction j U t rule: pendt.induct)
  case (3 j U lbl h l r)
  then show ?case by (cases j) auto
qed (simp_all add: refresh_clean)

lemma refresh_level_dirty: "get_dirty_bit (refresh_level (Suc j) t) = get_dirty_bit t"
  by (cases t) simp_all

lemma refresh_level_pendt: "pendt (Suc j) {} t \<Longrightarrow> leaves_clean t \<Longrightarrow> pendt j {} (refresh_level (Suc j) t)"
proof (induction j arbitrary: t)
  case 0
  show ?case
  proof (cases t)
    case (Node lbl h l r)
    show ?thesis
    proof (cases "l = Nullptr \<and> r = Nullptr")
      case False
      then have p: "pend {} l" "pend {} r" "leaves_clean l" "leaves_clean r"
        and c: "\<not> dirty_bit h \<Longrightarrow> \<not> get_dirty_bit l \<and> \<not> get_dirty_bit r \<and> h = digest l r"
        using 0 Node by auto
      have f: "ct_fresh (refresh l)" "ct_fresh (refresh r)" using refresh_pend_fresh p by auto
      have "pend {} (refresh l)" "\<not> get_dirty_bit (refresh l)" "pend {} (refresh r)" "\<not> get_dirty_bit (refresh r)"
        using pend_fresh [OF f(1)] pend_fresh [OF f(2)] by auto
      then show ?thesis using c Node by (auto simp: ok_child_def refresh_clean)
    qed (use Node in simp)
  qed simp
next
  case (Suc j)
  show ?case
  proof (cases t)
    case (Node lbl h l r)
    show ?thesis
    proof (cases "l = Nullptr \<and> r = Nullptr")
      case False
      then have p: "pendt (Suc j) {} l" "pendt (Suc j) {} r" "leaves_clean l" "leaves_clean r"
        and c: "\<not> dirty_bit h \<Longrightarrow> \<not> get_dirty_bit l \<and> \<not> get_dirty_bit r \<and> h = digest l r"
        using Suc.prems Node by auto
      have "pendt j {} (refresh_level (Suc j) l)" "pendt j {} (refresh_level (Suc j) r)"
        using Suc.IH p by auto
      moreover have "h = digest (refresh_level (Suc j) l) (refresh_level (Suc j) r)" if "\<not> dirty_bit h"
        using c [OF that] refresh_level_clean [OF p(1)] refresh_level_clean [OF p(2)] by simp
      ultimately show ?thesis using c Node refresh_level_dirty by (auto simp del: refresh_level.simps(2,3) simp add: refresh_level.simps(3) [of "Suc j"])
    qed (use Node in simp)
  qed simp
qed

lemma refresh_top_fresh: "pendt d {} t \<Longrightarrow> leaves_clean t \<Longrightarrow> ct_fresh (refresh_top d t)"
proof (induction d arbitrary: t)
  case (Suc d)
  show ?case
    using Suc.IH [OF refresh_level_pendt [OF Suc.prems] refresh_level_leaves_clean [OF Suc.prems(2)]] by simp
qed (simp add: refresh_pend_fresh)

text \<open>The whole pass.\<close>

lemma update_top_all:
  assumes "full d t" "leaves_clean t" "t \<noteq> Nullptr"
  shows "\<exists>saved. update_top (concat (map (\<lambda>j. rev (paths j)) (rev [0..<Suc d]))) t = (Inr (), refresh_top d t, saved)"
  using assms
proof (induction d arbitrary: t)
  case 0
  then show ?case using update_top_refresh [of t] by auto
next
  case (Suc d)
  have f: "full d t'" if "full (Suc d) t'" for t'
    using that by (induction d arbitrary: t') (case_tac t'; auto)+
  let ?t = "refresh_level (Suc d) t"
  obtain s1 where s1: "update_top (rev (paths (Suc d))) t = (Inr (), ?t, s1)"
    using update_top_level [OF Suc.prems] by blast
  obtain s2 where s2: "update_top (concat (map (\<lambda>j. rev (paths j)) (rev [0..<Suc d]))) ?t =
      (Inr (), refresh_top d ?t, s2)"
    using Suc.IH [of ?t] f [OF refresh_level_full [OF Suc.prems(1)]]
      refresh_level_leaves_clean [OF Suc.prems(2)] Suc.prems(3) by auto
  have e: "concat (map (\<lambda>j. rev (paths j)) (rev [0..<Suc (Suc d)])) =
      rev (paths (Suc d)) @ concat (map (\<lambda>j. rev (paths j)) (rev [0..<Suc d]))"
    by (simp del: paths.simps)
  show ?case unfolding e by (simp add: update_top_append s1 s2 del: paths.simps upt_Suc)
qed

lemma refresh_level_wf: "ct_wf t \<Longrightarrow> ct_wf (refresh_level j t) \<and> ct_leaves (refresh_level j t) = ct_leaves t"
proof (induction j t rule: refresh_level.induct)
  case (3 j lbl h l r)
  then show ?case by (cases "l = Nullptr \<and> r = Nullptr") auto
qed (use refresh_wf in \<open>auto simp del: refresh_label\<close>)

lemma refresh_level_root:
  assumes "root_wf t"
  shows "root_wf (refresh_level j t) \<and> trie_leaves (refresh_level j t) = trie_leaves t"
proof -
  obtain h l r where t: "t = Node pl_default h l r" "is_hash h" "child_wf False l" "child_wf True r"
    using assms by (rule root_wf_cases)
  show ?thesis
  proof (cases j)
    case 0
    then show ?thesis using refresh_root_wf [OF assms, of 0 0] by (simp add: refresh_at_def)
  next
    case (Suc n)
    have "child_wf b c \<Longrightarrow> child_wf b (refresh_level n c) \<and> ct_leaves (refresh_level n c) = ct_leaves c" for b c
      using refresh_level_wf [of c n] by (cases "c = Nullptr") (auto simp: child_wf_def, (cases n; simp)+)
    then show ?thesis using t Suc by (auto simp: root_wf_def)
  qed
qed

lemma refresh_top_root: "root_wf t \<Longrightarrow> root_wf (refresh_top d t) \<and> trie_leaves (refresh_top d t) = trie_leaves t"
proof (induction d arbitrary: t)
  case 0
  then show ?case using refresh_level_root [of t 0] by simp
next
  case (Suc d)
  show ?case using Suc.IH [of "refresh_level (Suc d) t"] refresh_level_root [OF Suc.prems, of "Suc d"] by simp
qed

section \<open>A hash update of a thread\<close>

lemma upd_pendt:
  "node_ok t \<Longrightarrow> (k, v) \<in> set (ct_leaves (n_left t)) \<union> set (ct_leaves (n_right t)) \<or> \<not> get_dirty_bit t \<Longrightarrow>
    pendt j U t \<Longrightarrow> pendt j (U - {k}) (ct_upd k i (i + j + 1) t)"
proof (induction j arbitrary: t i)
  case 0
  obtain lbl h l r where t: "t = Node lbl h l r" using 0(1) by (cases t) auto
  show ?case
  proof (cases "dirty_bit h")
    case False
    then have "ct_fresh t" using clean_fresh [of U t] 0(3) t by simp
    then show ?thesis using pend_fresh [of t] fresh_upd [of t] by simp
  next
    case d: True
    have m: "(k, v) \<in> set (ct_leaves l) \<union> set (ct_leaves r)" using 0(2) t d by simp
    note ok = 0(1) [unfolded t]
    obtain b ys c where c: "pl_bits k = pl_bits lbl @ b # ys" "c = (if b then r else l)"
      "(k, v) \<in> set (ct_leaves c)" "ct_wf c"
      using leaf_below_child [OF ok m] by metis
    have p: "pend U (Node lbl h l r)" using 0(3) t by simp
    then have "pend U c" using c(2,3) by (cases b) auto
    then have rec: "pend (U - {k}) (ct_upd k (Suc i) (Suc i) c)"
      "below (U - {k}) (ct_upd k (Suc i) (Suc i) c) \<or> \<not> get_dirty_bit (ct_upd k (Suc i) (Suc i) c)"
      using ct_upd_pend [OF c(4,3), of U "Suc i" "Suc i"] by auto
    show ?thesis
      using upd_step_pend(1) [OF ok p d c(1,2) ct_wf_ne [OF c(4)] rec order_refl] t by simp
  qed
next
  case (Suc j)
  obtain lbl h l r where t: "t = Node lbl h l r" using Suc.prems(1) by (cases t) auto
  let ?n = "i + Suc j + 1"
  show ?case
  proof (cases "dirty_bit h")
    case False
    then have f: "ct_fresh t" using pendt_clean_fresh [of "Suc j" U t] Suc.prems(3) t by simp
    show ?thesis unfolding fresh_upd [OF f] using pend_pendt pend_fresh [OF f] by blast
  next
    case d: True
    have m: "(k, v) \<in> set (ct_leaves l) \<union> set (ct_leaves r)" using Suc.prems(2) t d by simp
    note ok = Suc.prems(1) [unfolded t]
    obtain b ys c where c: "pl_bits k = pl_bits lbl @ b # ys" "c = (if b then r else l)"
      "(k, v) \<in> set (ct_leaves c)" "ct_wf c" "is_prefix (pl_bits lbl @ [b]) (pl_bits (node_label c))"
      using leaf_below_child [OF ok m] by metis
    define s where "s = (if b then l else r)"
    have e: "ct_upd k i ?n t = (if b then Node lbl h s (ct_upd k (Suc i) ?n c) else Node lbl h (ct_upd k (Suc i) ?n c) s)"
      unfolding t ct_upd_Node [OF ok c(1)] using c(2) by (simp add: refresh_at_def s_def)
    have ps: "pendt j U c" "pendt j U s" using Suc.prems(3) t c(2) m by (cases b; auto simp: s_def)+
    have "(k, v) \<in> set (ct_leaves (n_left c)) \<union> set (ct_leaves (n_right c)) \<or> \<not> get_dirty_bit c"
      using c(3,4) by (cases c) (auto split: if_splits)
    from Suc.IH [OF wf_node_ok [OF c(4)] this ps(1), of "Suc i"]
    have pc: "pendt j (U - {k}) (ct_upd k (Suc i) ?n c)" by simp
    have "(k, w) \<notin> set (ct_leaves s)" for w
    proof
      assume mw: "(k, w) \<in> set (ct_leaves s)"
      then have "ct_wf s" "is_prefix (pl_bits lbl @ [\<not> b]) (pl_bits (node_label s))"
        using ok by (cases b; auto simp: s_def child_ok_def)+
      then have "is_prefix (pl_bits lbl @ [\<not> b]) (pl_bits k)"
        using leaves_extend [of s k w] mw is_prefix_trans by blast
      then show False using prefix_snoc_diff [of "pl_bits lbl" "\<not> b" "pl_bits k" b] c(1) by simp
    qed
    then have "pendt j (U - {k}) s" using ps(2) pendt_cong [of s U "U - {k}" j] by auto
    then show ?thesis unfolding e using pc d by (cases b) simp_all
  qed
qed

section \<open>Permutations of the batch\<close>

lemma mset_concat_update:
  "i < length bs \<Longrightarrow> mset (concat (bs[i := xs])) + mset (bs ! i) = mset (concat bs) + mset xs"
proof (induction bs arbitrary: i)
  case (Cons b bs)
  then show ?case by (cases i) (auto simp: ac_simps)
qed simp

lemma interleave_mset: "mset (map snd (interleave sched bs)) = mset (concat bs)"
proof (induction sched bs rule: interleave.induct)
  case (1 bs)
  have "map snd (interleave [] bs) = concat (map (\<lambda>i. bs ! i) [0..<length bs])"
    by (simp add: map_concat comp_def)
  then show ?case by (simp only: map_nth)
next
  case (2 i sched bs)
  show ?case
  proof (cases "i < length bs \<and> bs ! i \<noteq> []")
    case True
    then have "mset (concat (bs[i := tl (bs ! i)])) + mset (bs ! i) = mset (concat bs) + mset (tl (bs ! i))"
      by (intro mset_concat_update) simp
    moreover have "mset (bs ! i) = add_mset (hd (bs ! i)) (mset (tl (bs ! i)))"
      using True by (metis list.collapse mset.simps(2))
    ultimately have "add_mset (hd (bs ! i)) (mset (concat (bs[i := tl (bs ! i)]))) = mset (concat bs)" by simp
    then show ?thesis using True "2.IH"(1) by simp
  next
    case False
    then have "interleave (i # sched) bs = interleave sched bs" by auto
    then show ?thesis using "2.IH"(2) [OF False] by simp
  qed
qed

lemma interleave_index: "(i, x) \<in> set (interleave sched bs) \<Longrightarrow> i < length bs"
  by (induction sched bs rule: interleave.induct) (auto split: if_splits)

lemma distribute_mset:
  assumes "\<forall>k \<in> set (map fst kvs). pl_valid k" "length bs = 2 ^ d" "d < 64"
  shows "\<exists>bs'. distribute d kvs bs = Inr bs' \<and> length bs' = 2 ^ d \<and>
    mset (concat bs') = mset (concat bs) + mset kvs"
  using assms(1,2)
proof (induction kvs arbitrary: bs)
  case (Cons kv kvs)
  obtain k h where kv: "kv = (k, h)" by (cases kv)
  have "pl_valid k" using Cons.prems kv by simp
  then obtain i where i: "get_insertion_index d k = Inr i" "unat i < 2 ^ d"
    using insertion_index_bound [OF _ assms(3)] by metis
  let ?bs = "bs[unat i := bs ! unat i @ [(k, h)]]"
  have "mset (concat ?bs) + mset (bs ! unat i) = mset (concat bs) + mset (bs ! unat i @ [(k, h)])"
    by (rule mset_concat_update) (use i Cons.prems in simp)
  then have "mset (concat ?bs) = add_mset (k, h) (mset (concat bs))" by simp
  moreover obtain bs' where "distribute d kvs ?bs = Inr bs'" "length bs' = 2 ^ d"
    "mset (concat bs') = mset (concat ?bs) + mset kvs"
    using Cons.IH [of ?bs] Cons.prems by auto
  ultimately show ?case using kv i(1) by auto
qed simp

lemma labels_ok_perm: "mset ks = mset ks' \<Longrightarrow> labels_ok ks L = labels_ok ks' L"
  unfolding labels_ok_def by (metis mset_eq_imp_distinct_iff mset_eq_setD)

section \<open>The phases\<close>

definition batch_leaves :: "(partial_label \<times> hash_type) list \<Rightarrow> u64 \<Rightarrow> (partial_label \<times> hash_type) set" where
  "batch_leaves kvs e = (\<lambda>(k, h). leaf_entry k h e) ` set kvs"

lemma batch_leaves_simps [simp]: "batch_leaves [] e = {}"
  "batch_leaves ((k, h) # kvs) e = insert (leaf_entry k h e) (batch_leaves kvs e)"
  by (simp_all add: batch_leaves_def)

lemma batch_leaves_perm: "mset kvs = mset kvs' \<Longrightarrow> batch_leaves kvs e = batch_leaves kvs' e"
  unfolding batch_leaves_def by (metis mset_eq_setD)

lemma insertion_phase:
  assumes "root_wf (bs_root st)" "pend U (bs_root st)" "\<forall>e \<in> set (bs_errors st). e = None"
    "labels_ok (map fst (map snd es)) (trie_leaves (bs_root st))"
    "\<forall>x \<in> set es. fst x < length (bs_errors st)"
  shows "\<exists>st'. fold (insertion_step epoch) es st = st' \<and> root_wf (bs_root st') \<and>
    pend (U \<union> set (map fst (map snd es))) (bs_root st') \<and> bs_errors st' = bs_errors st \<and>
    length (bs_updated st') = length (bs_updated st) \<and>
    trie_leaves (bs_root st') = trie_leaves (bs_root st) \<union> batch_leaves (map snd es) epoch \<and>
    (es = [] \<longrightarrow> st' = st) \<and> (get_dirty_bit (bs_root st) \<or> es \<noteq> [] \<longrightarrow> get_dirty_bit (bs_root st'))"
  using assms
proof (induction es arbitrary: st U)
  case (Cons x es)
  obtain i k h where x: "x = (i, k, h)" by (cases x)
  have "labels_ok (k # map fst (map snd es)) (trie_leaves (bs_root st))" using Cons.prems(4) x by simp
  note lok = labels_ok_Cons [OF this]
  obtain t' saved where t': "ct_insert k h epoch (bs_root st) = Inr (t', saved)"
    "root_inserted k (compute_leaf_hash k h epoch) (bs_root st) t' saved"
    using ct_insert_root [OF Cons.prems(1) lok(1-3)] by blast
  define st1 where "st1 = st\<lparr>bs_root := t', bs_updated := (bs_updated st)[i := put_nodes saved (bs_updated st ! i)]\<rparr>"
  have "bs_errors st ! i = None" using Cons.prems(3,5) x by auto
  then have s: "insertion_step epoch x st = st1" using t'(1) by (simp add: insertion_step_def x st1_def)
  have r: "root_wf t'" "get_dirty_bit t'" "pend (insert k U) t'" "trie_leaves t' = insert (leaf_entry k h epoch) (trie_leaves (bs_root st))"
    using t'(2) Cons.prems(2) by (auto simp: root_inserted_def leaf_entry_def)
  have "labels_ok (map fst (map snd es)) (trie_leaves t')"
    unfolding r(4) leaf_entry_def by (rule lok(4))
  from Cons.IH [of st1 "insert k U"] this r Cons.prems(3,5)
  show ?case by (simp add: s) (simp add: st1_def x)
qed simp

lemma hash_update_phase:
  assumes "root_wf (bs_root st)" "pendt d U (bs_root st)" "\<forall>e \<in> set (bs_errors st). e = None"
    "\<forall>x \<in> set es. fst x < length (bs_errors st) \<and> (\<exists>v. (fst (snd x), v) \<in> trie_leaves (bs_root st)) \<and>
       pl_bits (fst (snd x)) \<noteq> []"
  shows "\<exists>st'. fold (hash_update_step d) es st = st' \<and> root_wf (bs_root st') \<and>
    pendt d (U - set (map fst (map snd es))) (bs_root st') \<and> bs_errors st' = bs_errors st \<and>
    length (bs_updated st') = length (bs_updated st) \<and>
    trie_leaves (bs_root st') = trie_leaves (bs_root st) \<and> (es = [] \<longrightarrow> st' = st) \<and>
    get_dirty_bit (bs_root st') = get_dirty_bit (bs_root st)"
  using assms
proof (induction es arbitrary: st U)
  case (Cons x es)
  obtain i k h where x: "x = (i, k, h)" by (cases x)
  let ?t = "bs_root st" and ?t' = "ct_upd k 0 (d + 1) (bs_root st)"
  obtain v where v: "(k, v) \<in> trie_leaves ?t" "pl_bits k \<noteq> []" "i < length (bs_errors st)"
    using Cons.prems(4) x by auto
  obtain saved where u: "update_hashes k (d + 1) ?t = (Inr (), ?t', saved)"
    using update_hashes_upd [OF Cons.prems(1) v(1)] by blast
  define st1 where "st1 = st\<lparr>bs_root := ?t', bs_updated := (bs_updated st)[i := put_nodes saved (bs_updated st ! i)]\<rparr>"
  have "bs_errors st ! i = None" using Cons.prems(3) v(3) by auto
  then have s: "hash_update_step d x st = st1" using u by (simp add: hash_update_step_def x st1_def)
  have w: "root_wf ?t'" "trie_leaves ?t' = trie_leaves ?t"
    using ct_upd_root_wf [OF Cons.prems(1) v(2)] by auto
  have p: "pendt d (U - {k}) ?t'"
    using upd_pendt [OF root_node_ok [OF Cons.prems(1)] _ Cons.prems(2), of k v 0] v(1)
    by (simp add: trie_leaves_def) blast
  have g: "get_dirty_bit ?t' = get_dirty_bit ?t" by (cases ?t) (simp_all add: refresh_at_def)
  have "U - {k} - set (map fst (map snd es)) = U - set (map fst (map snd (x # es)))" using x by auto
  with Cons.IH [of st1 "U - {k}"] w p g Cons.prems(3,4)
  show ?case by (simp add: s) (simp add: st1_def x)
qed simp

subsection \<open>The append proofs\<close>

lemma stride_indices_set: "0 < s \<Longrightarrow> set (stride_indices i s n) = {i + m * s |m. i + m * s < n}"
proof (induction i s n rule: stride_indices.induct)
  case (1 i s n)
  show ?case
  proof (cases "i < n")
    case True
    have "{i + m * s |m. i + m * s < n} = insert i {i + s + m * s |m. i + s + m * s < n}"
      (is "?A = insert i ?B")
    proof (intro equalityI subsetI)
      fix x assume "x \<in> ?A"
      then obtain m where "x = i + m * s" "x < n" by auto
      then show "x \<in> insert i ?B" by (cases m) auto
    next
      fix x assume "x \<in> insert i ?B"
      then show "x \<in> ?A"
      proof
        assume "x = i"
        then show ?thesis using True by (auto intro: exI [of _ 0])
      next
        assume "x \<in> ?B"
        then obtain m where "x = i + s + m * s" "x < n" by auto
        then show ?thesis by (auto intro: exI [of _ "Suc m"])
      qed
    qed
    then show ?thesis using 1 True by (simp add: stride_indices.simps [of i])
  qed (simp add: stride_indices.simps [of i])
qed

lemma stride_indices_cover:
  assumes "0 < s"
  shows "set (concat (map (\<lambda>i. stride_indices i s n) [0..<s])) = {..<n}"
proof (intro equalityI subsetI)
  fix x assume "x \<in> {..<n}"
  then have "x \<in> set (stride_indices (x mod s) s n)"
    unfolding stride_indices_set [OF assms] by (auto intro!: exI [of _ "x div s"])
  moreover have "x mod s \<in> set [0..<s]" using assms by simp
  ultimately show "x \<in> set (concat (map (\<lambda>i. stride_indices i s n) [0..<s]))" by auto
qed (auto simp: stride_indices_set [OF assms])

lemma lookup_proofs_found:
  assumes "\<forall>i \<in> set idxs. trie_lookup (labels ! i) T = Inr (True, path i) \<and> i < length proofs"
  shows "\<exists>proofs'. lookup_proofs T labels idxs proofs = Inr proofs' \<and> length proofs' = length proofs \<and>
    (\<forall>i < length proofs. proofs' ! i = (if i \<in> set idxs then path i else proofs ! i))"
  using assms
proof (induction idxs arbitrary: proofs)
  case (Cons j idxs)
  obtain proofs' where p: "lookup_proofs T labels idxs (proofs[j := path j]) = Inr proofs'"
    "length proofs' = length proofs"
    "\<forall>i < length proofs. proofs' ! i = (if i \<in> set idxs then path i else proofs[j := path j] ! i)"
    using Cons.IH [of "proofs[j := path j]"] Cons.prems by auto
  show ?case using p Cons.prems by (auto simp: nth_list_update)
qed simp

lemma batch_lookups_found:
  assumes "0 < n" "\<forall>i < length labels. trie_lookup (labels ! i) T = Inr (True, path i)"
  shows "batch_lookups n labels T = Inr (map path [0..<length labels])"
proof -
  let ?idxs = "concat (map (\<lambda>i. stride_indices i n (length labels)) [0..<n])"
  have s: "set ?idxs = {..<length labels}" by (rule stride_indices_cover [OF assms(1)])
  obtain proofs where p: "lookup_proofs T labels ?idxs (replicate (length labels) []) = Inr proofs"
    "length proofs = length labels"
    "\<forall>i < length labels. proofs ! i = (if i \<in> set ?idxs then path i else replicate (length labels) [] ! i)"
    using lookup_proofs_found [of ?idxs labels T path "replicate (length labels) []"] assms(2)
    unfolding s by auto
  have "proofs = map path [0..<length labels]"
    by (rule nth_equalityI) (use p(2,3) in \<open>simp_all only: s length_map length_upt nth_map_upt, auto\<close>)
  then show ?thesis using p(1) by (simp add: batch_lookups_def)
qed

section \<open>Insertion of a batch\<close>

lemma first_error_None: "\<forall>e \<in> set (bs_errors st). e = None \<Longrightarrow> first_error st = None"
  by (auto simp: first_error_def split: list.splits dest!: filter_eq_ConsD)

lemma labels_ok_leaf:
  assumes "labels_ok (map fst kvs) L" "(k, h) \<in> set kvs"
  shows "pl_valid k" "pl_bits k \<noteq> []" "not_strict_prefix k (L \<union> batch_leaves kvs e)"
    "\<And>v. (k, v) \<in> L \<union> batch_leaves kvs e \<Longrightarrow> (k, v) = leaf_entry k h e"
proof -
  have k: "k \<in> set (map fst kvs)" using assms(2) by force
  show "pl_valid k" "pl_bits k \<noteq> []" using assms(1) k by (auto simp: labels_ok_def)
  have f: "fits k L" "\<And>k'. k' \<in> set (map fst kvs) \<Longrightarrow> k \<noteq> k' \<Longrightarrow> incomparable k k'"
    using assms(1) k by (auto simp: labels_ok_def)
  have c: "k' = k \<or> incomparable k k'" if "(k', v) \<in> L \<union> batch_leaves kvs e" for k' v
    using that f by (auto simp: fits_def batch_leaves_def leaf_entry_def) force+
  then show "not_strict_prefix k (L \<union> batch_leaves kvs e)"
    by (auto simp: not_strict_prefix_def incomparable_def)
  fix v assume v: "(k, v) \<in> L \<union> batch_leaves kvs e"
  have "\<not> incomparable k k" by (simp add: incomparable_def)
  then have "(k, v) \<notin> L" using f(1) by (auto simp: fits_def)
  then obtain h' where h': "(k, h') \<in> set kvs" "(k, v) = leaf_entry k h' e"
    using v by (auto simp: batch_leaves_def leaf_entry_def)
  have "distinct (map fst kvs)" using assms(1) by (simp add: labels_ok_def)
  then have "h' = h" using eq_key_imp_eq_value [of kvs k h' h] h'(1) assms(2) by simp
  then show "(k, v) = leaf_entry k h e" using h'(2) by simp
qed

text \<open>After both phases the trie has the new leaves and only the top levels wait for their hashes.\<close>

lemma batch_phases:
  assumes T: "root_wf t" "ct_fresh t" and lok: "labels_ok (map fst kvs) (trie_leaves t)" and d: "d < 64"
  obtains bs st1 st2 where "distribute d kvs (replicate (2 ^ d) []) = Inr bs"
    "fold (insertion_step e) (interleave s1 bs) \<lparr>bs_root = t, bs_updated = replicate (2 ^ d) [],
       bs_errors = replicate (2 ^ d) None\<rparr> = st1" "first_error st1 = None"
    "fold (hash_update_step d) (interleave s2 bs) st1 = st2" "first_error st2 = None"
    "root_wf (bs_root st2)" "pendt d {} (bs_root st2)"
    "trie_leaves (bs_root st2) = trie_leaves t \<union> batch_leaves kvs e" "kvs = [] \<longrightarrow> bs_root st2 = t"
    "kvs \<noteq> [] \<longrightarrow> get_dirty_bit (bs_root st2)"
proof -
  have "\<forall>k \<in> set (map fst kvs). pl_valid k" using lok by (simp add: labels_ok_def)
  then obtain bs where bs: "distribute d kvs (replicate (2 ^ d) []) = Inr bs" "length bs = 2 ^ d"
    "mset (concat bs) = mset kvs"
    using distribute_mset [of kvs "replicate (2 ^ d) []" d] d by auto
  let ?es1 = "interleave s1 bs" and ?es2 = "interleave s2 bs"
  let ?st0 = "\<lparr>bs_root = t, bs_updated = replicate (2 ^ d) [], bs_errors = replicate (2 ^ d) None\<rparr>"
  have m: "mset (map snd ?es1) = mset kvs" "mset (map snd ?es2) = mset kvs"
    using interleave_mset [of s1 bs] interleave_mset [of s2 bs] bs(3) by metis+
  have l1: "labels_ok (map fst (map snd ?es1)) (trie_leaves t)"
    using labels_ok_perm [of "map fst (map snd ?es1)" "map fst kvs"] lok m(1) by (metis mset_map)
  have ix: "\<forall>x \<in> set ?es1. fst x < 2 ^ d" "\<forall>x \<in> set ?es2. fst x < 2 ^ d"
    using interleave_index [of _ _ _ bs] bs(2) by fastforce+
  have "pend {} t" using pend_fresh [OF T(2)] by blast
  from insertion_phase [of ?st0 "{}" ?es1 e] T(1) this l1 ix(1)
  obtain st1 where st1: "fold (insertion_step e) ?es1 ?st0 = st1" "root_wf (bs_root st1)"
    "pend (set (map fst (map snd ?es1))) (bs_root st1)" "bs_errors st1 = replicate (2 ^ d) None"
    "trie_leaves (bs_root st1) = trie_leaves t \<union> batch_leaves (map snd ?es1) e" "?es1 = [] \<longrightarrow> st1 = ?st0"
    "?es1 \<noteq> [] \<longrightarrow> get_dirty_bit (bs_root st1)"
    by auto
  have lv: "trie_leaves (bs_root st1) = trie_leaves t \<union> batch_leaves kvs e"
    using st1(5) batch_leaves_perm [OF m(1)] by simp
  have U: "set (map fst (map snd ?es1)) = set (map fst (map snd ?es2))"
    using m by (metis mset_eq_setD set_map)
  have e2: "\<forall>x \<in> set ?es2. fst x < length (bs_errors st1) \<and>
      (\<exists>v. (fst (snd x), v) \<in> trie_leaves (bs_root st1)) \<and> pl_bits (fst (snd x)) \<noteq> []"
  proof
    fix x assume x: "x \<in> set ?es2"
    then have "snd x \<in> set kvs" using mset_eq_setD [OF m(2)] by auto
    then have "leaf_entry (fst (snd x)) (snd (snd x)) e \<in> batch_leaves kvs e" "pl_bits (fst (snd x)) \<noteq> []"
      using labels_ok_leaf(2) [OF lok, of "fst (snd x)" "snd (snd x)"] by (force simp: batch_leaves_def)+
    then show "fst x < length (bs_errors st1) \<and> (\<exists>v. (fst (snd x), v) \<in> trie_leaves (bs_root st1)) \<and>
        pl_bits (fst (snd x)) \<noteq> []"
      using ix(2) x st1(4) lv by (auto simp: leaf_entry_def)
  qed
  have n1: "\<forall>x \<in> set (bs_errors st1). x = None" using st1(4) by simp
  from hash_update_phase [OF st1(2) pend_pendt [OF st1(3)] n1 e2, of d]
  obtain st2 where st2: "fold (hash_update_step d) ?es2 st1 = st2" "root_wf (bs_root st2)"
    "pendt d {} (bs_root st2)" "bs_errors st2 = bs_errors st1"
    "trie_leaves (bs_root st2) = trie_leaves (bs_root st1)" "?es2 = [] \<longrightarrow> st2 = st1"
    "get_dirty_bit (bs_root st2) = get_dirty_bit (bs_root st1)"
    unfolding U by auto
  have "bs_root st2 = t" if "kvs = []"
    using that m st1(6) st2(6) by simp
  moreover have "get_dirty_bit (bs_root st2)" if "kvs \<noteq> []"
    using that m(1) st1(7) st2(7) by auto
  ultimately show ?thesis
    using that [OF bs(1) st1(1) first_error_None [OF n1] st2(1) _ st2(2,3)] first_error_None [of st2]
      n1 st2(4,5) lv by metis
qed

lemma batch_top:
  assumes "root_wf t" "pendt d {} t" "covered d (trie_leaves t)" "trie_leaves t \<noteq> {} \<or> root_fresh t"
  obtains nodes t' saved where "gather_levels d t [[]] = Inr nodes"
    "update_top (rev ([] # nodes)) t = (Inr (), t', saved)" "root_wf t'" "root_fresh t'"
    "trie_leaves t' = trie_leaves t"
proof -
  have f: "full d t" by (rule covered_full [OF assms(1,3)])
  have lc: "leaves_clean t"
    using root_leaves_clean [OF assms(1)] assms(4) pend_fresh [of t] by (auto simp: root_fresh_def)
  have tN: "t \<noteq> Nullptr" using assms(1) by (auto simp: root_wf_def)
  obtain nodes where n: "gather_levels d t [[]] = Inr nodes"
    "rev ([] # nodes) = concat (map (\<lambda>j. rev (paths j)) (rev [0..<Suc d]))"
    by (rule gather_top [OF f])
  obtain saved where s: "update_top (rev ([] # nodes)) t = (Inr (), refresh_top d t, saved)"
    using update_top_all [OF f lc tN] unfolding n(2) by blast
  note w = refresh_top_root [OF assms(1), of d]
  have "root_fresh (refresh_top d t)"
  proof (cases "trie_leaves t = {}")
    case True
    then have "d = 0" using assms(3) cov_leaf [of d "[]" "{}"] by (auto simp: covered_def)
    moreover have "\<not> get_dirty_bit t" "root_fresh t"
      using True assms(4) pend_fresh [of t] by (auto simp: root_fresh_def)
    ultimately show ?thesis by (simp add: refresh_clean)
  next
    case False
    then show ?thesis using refresh_top_fresh [OF assms(2) lc] w by (simp add: root_fresh_def)
  qed
  then show ?thesis using that [OF n(1) s] w by blast
qed

lemma trie_insert_batch_ok:
  assumes ok: "trie_ok T L" and lok: "labels_ok (map fst kvs) L"
    and lim: "get_insertion_thread_limit hw (tr_root T) (tr_thread_count T) = Some (Inr (2 ^ d))"
    and cov: "covered d L" and d: "d < 64"
  obtains pfs T' events where "trie_insert_batch hw s1 s2 kvs T = Some (Inr pfs, T', events)"
    "trie_ok T' (L \<union> batch_leaves kvs (tr_epoch T + 1))"
    "T' = T\<lparr>tr_epoch := tr_epoch T + 1, tr_root := tr_root T'\<rparr>" "length pfs = length kvs"
    "\<forall>i < length kvs. trie_lookup (fst (kvs ! i)) T' = Inr (True, pfs ! i) \<and> pfs ! i \<noteq> [] \<and>
      hd (pfs ! i) = leaf_entry (fst (kvs ! i)) (snd (kvs ! i)) (tr_epoch T + 1) \<and>
      verify_lookup_path (pfs ! i) (get_commitment T') = Inr True"
proof -
  let ?e = "tr_epoch T + 1"
  define T1 where "T1 = T\<lparr>tr_epoch := ?e\<rparr>"
  have t: "root_wf (tr_root T)" "ct_fresh (tr_root T)" "root_fresh (tr_root T)" "trie_leaves (tr_root T) = L"
    using ok by (auto simp: trie_ok_def root_fresh_def)
  obtain bs st1 st2 where p: "distribute d kvs (replicate (2 ^ d) []) = Inr bs"
    "fold (insertion_step ?e) (interleave s1 bs) \<lparr>bs_root = tr_root T, bs_updated = replicate (2 ^ d) [],
       bs_errors = replicate (2 ^ d) None\<rparr> = st1" "first_error st1 = None"
    "fold (hash_update_step d) (interleave s2 bs) st1 = st2" "first_error st2 = None"
    "root_wf (bs_root st2)" "pendt d {} (bs_root st2)"
    "trie_leaves (bs_root st2) = L \<union> batch_leaves kvs ?e" "kvs = [] \<longrightarrow> bs_root st2 = tr_root T"
    using batch_phases [OF t(1,2) _ d, of kvs ?e s1 s2] lok t(4) by metis
  have c: "covered d (trie_leaves (bs_root st2))" using covered_mono [OF cov] p(8) by simp
  have "trie_leaves (bs_root st2) \<noteq> {} \<or> root_fresh (bs_root st2)"
    using p(8,9) t(3) by (cases kvs) auto
  from batch_top [OF p(6,7) c this]
  obtain nodes t' saved where b: "gather_levels d (bs_root st2) [[]] = Inr nodes"
    "update_top (rev ([] # nodes)) (bs_root st2) = (Inr (), t', saved)" "root_wf t'" "root_fresh t'"
    "trie_leaves t' = L \<union> batch_leaves kvs ?e"
    using p(8) by metis
  define T' where "T' = T1\<lparr>tr_root := t'\<rparr>"
  have okT: "trie_ok T' (L \<union> batch_leaves kvs ?e)" using b(3-5) by (simp add: trie_ok_def T'_def)
  have found: "\<exists>path. trie_lookup (fst (kvs ! i)) T' = Inr (True, path) \<and> path \<noteq> [] \<and>
      hd path = leaf_entry (fst (kvs ! i)) (snd (kvs ! i)) ?e \<and>
      verify_lookup_path path (get_commitment T') = Inr True" if i: "i < length kvs" for i
  proof -
    obtain k h where kh: "kvs ! i = (k, h)" by (cases "kvs ! i")
    then have m: "(k, h) \<in> set kvs" using i by (metis nth_mem)
    note k = labels_ok_leaf(1,2) [OF lok m] labels_ok_leaf(3,4) [OF lok m, where e = ?e]
    have mem: "\<exists>v. (k, v) \<in> L \<union> batch_leaves kvs ?e"
      using m by (force simp: batch_leaves_def leaf_entry_def)
    obtain path where path: "trie_lookup k T' = Inr (\<exists>v. (k, v) \<in> L \<union> batch_leaves kvs ?e, path)"
      "verify_lookup_path path (get_commitment T') = Inr True"
      "(\<exists>v. (k, v) \<in> L \<union> batch_leaves kvs ?e) \<Longrightarrow>
        \<exists>v. (k, v) \<in> L \<union> batch_leaves kvs ?e \<and> path \<noteq> [] \<and> hd path = (k, v)"
      using trie_lookup_ok [OF okT k(1-3)] by metis
    obtain v where v: "(k, v) \<in> L \<union> batch_leaves kvs ?e" "path \<noteq> []" "hd path = (k, v)"
      using path(3) [OF mem] by blast
    show ?thesis using path(1,2) v k(4) [OF v(1)] mem kh by (auto simp only: fst_conv snd_conv)
  qed
  then obtain path where path: "\<And>i. i < length kvs \<Longrightarrow> trie_lookup (fst (kvs ! i)) T' = Inr (True, path i) \<and>
      path i \<noteq> [] \<and> hd (path i) = leaf_entry (fst (kvs ! i)) (snd (kvs ! i)) ?e \<and>
      verify_lookup_path (path i) (get_commitment T') = Inr True" by metis
  have bl: "batch_lookups (2 ^ d) (map fst kvs) T' = Inr (map path [0..<length kvs])"
    using batch_lookups_found [of "2 ^ d" "map fst kvs" T' path] path by simp
  have "\<exists>events. batch_finish d (2 ^ d) (map fst kvs) st2 T1 = (Inr (map path [0..<length kvs]), T', events)"
    by (simp add: batch_finish_def b(1,2) Let_def bl T'_def [symmetric] del: rev.simps)
  then obtain events where fin: "batch_finish d (2 ^ d) (map fst kvs) st2 T1 =
      (Inr (map path [0..<length kvs]), T', events)" by blast
  have run: "batch_run (2 ^ d) s1 s2 kvs T = (Inr (map path [0..<length kvs]), T', events)"
    using fin by (simp add: batch_run_def Let_def get_log2_power p(1,3,5) T1_def p(2) [unfolded T1_def]
        p(4))
  have "trie_insert_batch hw s1 s2 kvs T = Some (Inr (map path [0..<length kvs]), T', events)"
    by (simp add: trie_insert_batch_def lim run)
  then show ?thesis
    by (rule that [OF _ okT]) (use path in \<open>simp_all add: T'_def T1_def\<close>)
qed


text \<open>Two runs on the same leaves give the same trie and the same proofs.\<close>

lemma batch_unique:
  assumes "trie_ok T L" "labels_ok (map fst kvs) L" "\<And>k v. (k, v) \<in> L \<Longrightarrow> 3 \<le> pl_bit_count k"
    and "(if tr_thread_count T \<noteq> 0 then tr_thread_count T else hw) < 16" "(if m \<noteq> 0 then m else hw') < 16"
  shows "\<exists>pfs T1 events1 events2. trie_insert_batch hw s1 s2 kvs T = Some (Inr pfs, T1, events1) \<and>
    trie_insert_batch hw' s1' s2' kvs (T\<lparr>tr_thread_count := m\<rparr>) =
      Some (Inr pfs, T1\<lparr>tr_thread_count := m\<rparr>, events2)"
proof -
  let ?T = "T\<lparr>tr_thread_count := m\<rparr>"
  have t: "root_wf (tr_root T)" "trie_leaves (tr_root T) = L" using assms(1) by (auto simp: trie_ok_def)
  have long: "\<And>k v. (k, v) \<in> trie_leaves (tr_root T) \<Longrightarrow> 3 \<le> pl_bit_count k" using assms(3) t(2) by simp
  obtain d where d: "get_insertion_thread_limit hw (tr_root T) (tr_thread_count T) = Some (Inr (2 ^ d))" "d < 64"
    "covered d L"
  proof (rule thread_limit_sound [OF t(1) assms(4)])
    show "3 \<le> pl_bit_count k" if "(k, v) \<in> trie_leaves (tr_root T)" for k v using that by (rule long)
  qed (use that t(2) in simp_all)
  obtain d' where d': "get_insertion_thread_limit hw' (tr_root ?T) (tr_thread_count ?T) = Some (Inr (2 ^ d'))" "d' < 64"
    "covered d' L"
  proof (rule thread_limit_sound [OF t(1) assms(5)])
    show "3 \<le> pl_bit_count k" if "(k, v) \<in> trie_leaves (tr_root T)" for k v using that by (rule long)
  qed (use that t(2) in simp_all)
  have ok: "trie_ok ?T L" using assms(1) by (simp add: trie_ok_def)
  obtain p T1 e1 where 1: "trie_insert_batch hw s1 s2 kvs T = Some (Inr p, T1, e1)"
    "trie_ok T1 (L \<union> batch_leaves kvs (tr_epoch T + 1))"
    "T1 = T\<lparr>tr_epoch := tr_epoch T + 1, tr_root := tr_root T1\<rparr>" "length p = length kvs"
    "\<forall>i < length kvs. trie_lookup (fst (kvs ! i)) T1 = Inr (True, p ! i)"
    by (rule trie_insert_batch_ok [OF assms(1,2) d(1,3,2), of s1 s2]) blast
  obtain p' T2 e2 where 2: "trie_insert_batch hw' s1' s2' kvs ?T = Some (Inr p', T2, e2)"
    "trie_ok T2 (L \<union> batch_leaves kvs (tr_epoch ?T + 1))"
    "T2 = ?T\<lparr>tr_epoch := tr_epoch ?T + 1, tr_root := tr_root T2\<rparr>" "length p' = length kvs"
    "\<forall>i < length kvs. trie_lookup (fst (kvs ! i)) T2 = Inr (True, p' ! i)"
    by (rule trie_insert_batch_ok [OF ok assms(2) d'(1,3,2), of s1' s2']) blast
  have r: "tr_root T1 = tr_root T2"
    using root_determined [of "tr_root T1" "tr_root T2"] 1(2) 2(2) by (simp add: trie_ok_def)
  have "trie_lookup k T1 = trie_lookup k T2" for k by (simp add: trie_lookup_def r)
  then have "p = p'" using 1(4,5) 2(4,5) by (intro nth_equalityI) auto
  moreover have "T2 = T1\<lparr>tr_thread_count := m\<rparr>" using 1(3) 2(3) r by (cases T1; cases T2; cases T) auto
  ultimately show ?thesis using 1(1) 2(1) by blast
qed

end
