(* ===== verification/Trie_Batch_Limit.thy ===== *)
theory Trie_Batch_Limit
  imports Trie_Batch
begin

text \<open>
  From 16 threads on, \<open>get_insertion_thread_limit\<close> looks at a part of each level only, because the swap
  of \<open>level\<close> and \<open>next_level\<close> stands inside the loop over \<open>level\<close>. The trie \<open>uneven_trie\<close> has 16 leaves with
  labels of 256 bits, is well-formed with up-to-date hashes, and is given 16 threads; a batch for it
  ends with the exception of the pass over the top levels.
\<close>

section \<open>Tries of a given shape\<close>

datatype shape = Tip | Fork shape shape

definition lab :: "bool list \<Rightarrow> partial_label" where
  "lab bs = (case pl_from_bits bs of Inl e \<Rightarrow> pl_default | Inr l \<Rightarrow> l)"

definition pad :: "bool list \<Rightarrow> bool list" where
  "pad q = q @ replicate (256 - length q) False"

primrec grow :: "shape \<Rightarrow> bool list \<Rightarrow> ctnode" where
  "grow Tip q = Node (lab (pad q)) zero_hash Nullptr Nullptr"
| "grow (Fork a b) q =
     Node (lab q) (digest (grow a (q @ [False])) (grow b (q @ [True]))) (grow a (q @ [False])) (grow b (q @ [True]))"

primrec depth :: "shape \<Rightarrow> nat" where
  "depth Tip = 0"
| "depth (Fork a b) = Suc (max (depth a) (depth b))"

lemma lab_bits:
  assumes "length bs \<le> 256"
  shows "pl_valid (lab bs)" "pl_bits (lab bs) = bs"
proof -
  obtain l where "pl_from_bits bs = Inr l" "pl_valid l" "pl_bits l = bs" by (rule pl_from_bits_spec [OF assms])
  then show "pl_valid (lab bs)" "pl_bits (lab bs) = bs" by (simp_all only: lab_def sum.case)
qed

lemma lab_count: "length bs \<le> 256 \<Longrightarrow> pl_bit_count (lab bs) = length bs"
  using lab_bits(2) [of bs] length_pl_bits [of "lab bs"] by simp

lemma lab_Nil: "lab [] = pl_default"
  by (rule pl_bits_inj) (simp_all add: lab_bits)

lemma grow_label: "length q + depth s \<le> 255 \<Longrightarrow> is_prefix q (pl_bits (node_label (grow s q)))"
  by (cases s) (auto simp: lab_bits pad_def is_prefix_iff)

lemma grow_wf:
  "length q + depth s \<le> 255 \<Longrightarrow> ct_wf (grow s q) \<and> ct_fresh (grow s q)"
proof (induction s arbitrary: q)
  case Tip
  have "\<not> dirty_bit zero_hash" by (simp add: dirty_bit_iff zero_hash_def)
  then show ?case using Tip lab_bits [of "pad q"] by (simp add: pad_def)
next
  case (Fork a b)
  have "length (q @ [False]) + depth a \<le> 255" "length (q @ [True]) + depth b \<le> 255"
    using Fork.prems by auto
  then show ?case
    using Fork.IH grow_label lab_bits [of q] Fork.prems by simp
qed

lemma grow_root:
  assumes "depth (Fork a b) \<le> 255"
  shows "root_wf (grow (Fork a b) [])" "root_fresh (grow (Fork a b) [])"
proof -
  have "length [False] + depth a \<le> 255" "length [True] + depth b \<le> 255" using assms by auto
  then have w: "ct_wf (grow a [False])" "ct_wf (grow b [True])" "ct_fresh (grow a [False])" "ct_fresh (grow b [True])"
    "is_prefix [False] (pl_bits (node_label (grow a [False])))" "is_prefix [True] (pl_bits (node_label (grow b [True])))"
    using grow_wf [of "[False]" a] grow_wf [of "[True]" b] grow_label [of "[False]" a] grow_label [of "[True]" b] by auto
  then show "root_wf (grow (Fork a b) [])" by (simp add: root_wf_def child_wf_def lab_Nil)
  have "ct_leaves (grow a [False]) \<noteq> []" using leaves_nonempty [OF w(1)] by auto
  then show "root_fresh (grow (Fork a b) [])" using w by (simp add: root_fresh_def)
qed

text \<open>The check of a node asks for two forks.\<close>

lemma check_grow:
  assumes "length q + depth (Fork (Fork a b) (Fork c d)) \<le> 255"
  shows "check_node (grow (Fork (Fork a b) (Fork c d)) q) =
    Inr (Some [grow (Fork a b) (q @ [False]), grow (Fork c d) (q @ [True])])"
proof -
  have q: "length q < 255" using assms by simp
  have b: "pl_add_bit (lab q) b = Inr (lab (q @ [b]))" for b
  proof -
    have "pl_bit_count (lab q) < 256" using lab_count [of q] q by simp
    moreover have "pl_valid (lab q)" using lab_bits(1) [of q] q by simp
    ultimately obtain l where l: "pl_add_bit (lab q) b = Inr l" "pl_valid l" "pl_bits l = pl_bits (lab q) @ [b]"
      using pl_add_bit_spec by metis
    have "pl_bits l = pl_bits (lab (q @ [b]))" using l(3) lab_bits(2) [of q] lab_bits(2) [of "q @ [b]"] q by simp
    then have "l = lab (q @ [b])" using pl_bits_inj l(2) lab_bits(1) [of "q @ [b]"] q by simp
    then show ?thesis using l(1) by simp
  qed
  then show ?thesis by (simp add: check_node_def)
qed

primrec deep :: "nat \<Rightarrow> shape \<Rightarrow> bool" where
  "deep 0 s = True"
| "deep (Suc d) s = (case s of Tip \<Rightarrow> False | Fork a b \<Rightarrow> deep d a \<and> deep d b)"

lemma deep_cov: "deep d s \<Longrightarrow> length q + depth s \<le> 255 \<Longrightarrow> cov d q (set (ct_leaves (grow s q)))"
proof (induction d arbitrary: s q)
  case 0
  then show ?case using cov_0 [of "grow s q" q] grow_wf grow_label by blast
next
  case (Suc d)
  obtain a b where s: "s = Fork a b" "deep d a" "deep d b" using Suc.prems(1) by (cases s) auto
  have g: "grow a (q @ [False]) \<noteq> Nullptr" by (cases a) auto
  have "cov d (q @ [False]) (set (ct_leaves (grow a (q @ [False]))))"
    "cov d (q @ [True]) (set (ct_leaves (grow b (q @ [True]))))"
    using Suc.IH [OF s(2), of "q @ [False]"] Suc.IH [OF s(3), of "q @ [True]"] Suc.prems(2) s(1) by auto
  then show ?case unfolding cov_Suc s(1) using g cov_mono by (auto intro: cov_mono)
qed

section \<open>When the top levels are not complete\<close>

lemma next_level_full_conv:
  "next_level t ps = Inr ns \<Longrightarrow> p \<in> set ps \<Longrightarrow>
    node_at (p @ [False]) t \<noteq> Nullptr \<and> node_at (p @ [True]) t \<noteq> Nullptr \<and>
    p @ [False] \<in> set ns \<and> p @ [True] \<in> set ns"
  by (induction ps arbitrary: ns) (auto split: if_splits sum.splits)

lemma node_at_append: "node_at (p @ q) t = node_at q (node_at p t)"
  by (induction p t rule: node_at.induct) (auto, cases q, auto)

lemma gather_full_conv:
  "gather_levels n t ps = Inr ns \<Longrightarrow> p \<in> set ps \<Longrightarrow> full n (node_at p t)"
proof (induction n arbitrary: ps ns p)
  case (Suc n)
  obtain next_ps rest where nx: "next_level t ps = Inr next_ps" "gather_levels n t next_ps = Inr rest"
    using Suc.prems(1) by (auto split: sum.splits)
  note c = next_level_full_conv [OF nx(1) Suc.prems(2)]
  have "full n (node_at (p @ [b]) t)" for b
    using Suc.IH [OF nx(2), of "p @ [b]"] c by (cases b) auto
  from this [of False] this [of True] c show ?case
    unfolding node_at_append by (cases "node_at p t") auto
qed simp

lemma next_level_error:
  "next_level t ps = Inl e \<Longrightarrow> e = RuntimeError ''This node should exist''"
  by (induction ps) (auto split: if_splits sum.splits)

lemma gather_error:
  "gather_levels n t ps = Inl e \<Longrightarrow> e = RuntimeError ''This node should exist''"
  by (induction n arbitrary: ps) (auto split: sum.splits dest: next_level_error)

lemma gather_not_full:
  "\<not> full d t \<Longrightarrow> gather_levels d t [[]] = Inl (RuntimeError ''This node should exist'')"
  using gather_full_conv [of d t "[[]]" _ "[]"] gather_error [of d t "[[]]"]
  by (cases "gather_levels d t [[]]") auto

text \<open>One level more than the leaves cover needs two leaves below every prefix.\<close>

definition two_below :: "bool list \<Rightarrow> (partial_label \<times> hash_type) set \<Rightarrow> bool" where
  "two_below q L = (\<exists>k v k' v'. k \<noteq> k' \<and> (k, v) \<in> L \<and> (k', v') \<in> L \<and>
     is_prefix q (pl_bits k) \<and> is_prefix q (pl_bits k'))"

lemma two_below_mono: "two_below q L \<Longrightarrow> L \<subseteq> L' \<Longrightarrow> two_below q L'"
  unfolding two_below_def by blast

lemma two_below_node:
  "ct_wf t \<Longrightarrow> is_prefix q (pl_bits (node_label t)) \<Longrightarrow> cov d q (set (ct_leaves t)) \<Longrightarrow> full (Suc d) t \<Longrightarrow>
    two_below (q @ replicate d False) (set (ct_leaves t))"
proof (induction d arbitrary: t q)
  case 0
  obtain lbl h l r where t: "t = Node lbl h l r" using 0(1) by (cases t) auto
  have lN: "l \<noteq> Nullptr" using 0(4) t by simp
  obtain a b x y where m: "(a, x) \<in> set (ct_leaves l)" "(b, y) \<in> set (ct_leaves r)" "a \<noteq> b"
    by (rule internal_label [OF 0(1) [unfolded t] lN])
  then have "(a, x) \<in> set (ct_leaves t)" "(b, y) \<in> set (ct_leaves t)" using t lN by auto
  moreover from this have "is_prefix q (pl_bits a)" "is_prefix q (pl_bits b)"
    using leaves_extend [OF 0(1)] 0(2) is_prefix_trans by blast+
  ultimately show ?case using m(3) unfolding two_below_def by auto
next
  case (Suc d)
  obtain lbl h l r where t: "t = Node lbl h l r" "ct_wf l" "is_prefix (q @ [False]) (pl_bits (node_label l))"
    "cov d (q @ [False]) (set (ct_leaves l))"
    by (rule cov_node [OF Suc.prems(1-3)])
  have "two_below ((q @ [False]) @ replicate d False) (set (ct_leaves l))"
    by (rule Suc.IH [OF t(2-4)]) (use Suc.prems(4) t(1) in simp)
  moreover have "set (ct_leaves l) \<subseteq> set (ct_leaves t)" using t(1,2) by auto
  ultimately show ?case using two_below_mono by simp
qed

lemma two_below_root:
  assumes "root_wf t" "covered (Suc n) (trie_leaves t)" "full (Suc (Suc n)) t"
  shows "two_below (replicate (Suc n) False) (trie_leaves t)"
proof -
  obtain h l r where t: "t = Node pl_default h l r" "ct_wf l" "is_prefix [False] (pl_bits (node_label l))"
    "cov n [False] (set (ct_leaves l))"
    by (rule cov_root [OF assms(1,2)])
  have "two_below ([False] @ replicate n False) (set (ct_leaves l))"
    by (rule two_below_node [OF t(2-4)]) (use assms(3) t(1) in simp)
  then show ?thesis using two_below_mono t(1) by auto
qed

text \<open>
  With more threads than complete levels: the new leaves are in the trie, then the exception. Unless
  the batch was empty the root stays dirty, so that no lookup and no proof is possible any more.
\<close>

lemma batch_incomplete:
  assumes ok: "trie_ok T L" and lok: "labels_ok (map fst kvs) L"
    and lim: "get_insertion_thread_limit hw (tr_root T) (tr_thread_count T) = Some (Inr (2 ^ Suc (Suc n)))"
    and n: "Suc (Suc n) < 64" and cov: "covered (Suc n) L"
    and few: "\<not> two_below (replicate (Suc n) False) (L \<union> batch_leaves kvs (tr_epoch T + 1))"
  obtains T' where "trie_insert_batch hw s1 s2 kvs T =
      Some (Inl (RuntimeError ''This node should exist''), T', [])"
    "trie_leaves (tr_root T') = L \<union> batch_leaves kvs (tr_epoch T + 1)"
    "kvs \<noteq> [] \<longrightarrow> get_dirty_bit (tr_root T')"
proof -
  let ?e = "tr_epoch T + 1" and ?d = "Suc (Suc n)"
  define T1 where "T1 = T\<lparr>tr_epoch := ?e\<rparr>"
  have t: "root_wf (tr_root T)" "ct_fresh (tr_root T)" "trie_leaves (tr_root T) = L"
    using ok by (auto simp: trie_ok_def root_fresh_def)
  have lok': "labels_ok (map fst kvs) (trie_leaves (tr_root T))" using lok t(3) by simp
  obtain bs st1 st2 where p: "distribute ?d kvs (replicate (2 ^ ?d) []) = Inr bs"
    "fold (insertion_step ?e) (interleave s1 bs) \<lparr>bs_root = tr_root T, bs_updated = replicate (2 ^ ?d) [],
       bs_errors = replicate (2 ^ ?d) None\<rparr> = st1" "first_error st1 = None"
    "fold (hash_update_step ?d) (interleave s2 bs) st1 = st2" "first_error st2 = None"
    "root_wf (bs_root st2)" "pendt ?d {} (bs_root st2)"
    "trie_leaves (bs_root st2) = trie_leaves (tr_root T) \<union> batch_leaves kvs ?e"
    "kvs = [] \<longrightarrow> bs_root st2 = tr_root T" "kvs \<noteq> [] \<longrightarrow> get_dirty_bit (bs_root st2)"
    by (rule batch_phases [OF t(1,2) lok' n, of ?e s1 s2])
  have "covered (Suc n) (trie_leaves (bs_root st2))" using covered_mono [OF cov] p(8) t(3) by simp
  then have "\<not> full ?d (bs_root st2)"
    using two_below_root [OF p(6)] few p(8) t(3) by metis
  then have "gather_levels ?d (bs_root st2) [[]] = Inl (RuntimeError ''This node should exist'')"
    by (rule gather_not_full)
  then have fin: "batch_finish ?d (2 ^ ?d) (map fst kvs) st2 T1 =
      (Inl (RuntimeError ''This node should exist''), T1\<lparr>tr_root := bs_root st2\<rparr>, [])"
    by (simp add: batch_finish_def)
  have "batch_run (2 ^ ?d) s1 s2 kvs T =
      (Inl (RuntimeError ''This node should exist''), T1\<lparr>tr_root := bs_root st2\<rparr>, [])"
    using fin by (simp add: batch_run_def Let_def get_log2_power p(1,3,5) T1_def p(2) [unfolded T1_def] p(4)
        del: power_Suc)
  then have "trie_insert_batch hw s1 s2 kvs T =
      Some (Inl (RuntimeError ''This node should exist''), T1\<lparr>tr_root := bs_root st2\<rparr>, [])"
    by (simp add: trie_insert_batch_def lim del: power_Suc)
  then show ?thesis by (rule that) (use p(8,10) t(3) in simp_all)
qed

section \<open>The uneven trie\<close>

definition uneven_shape :: shape where
  "uneven_shape = (let P = Fork Tip Tip; Q = Fork P P in Fork Q (Fork (Fork Q Q) Q))"

definition uneven_trie :: "nat \<Rightarrow> trie" where
  "uneven_trie threads = \<lparr>tr_root = grow uneven_shape [], tr_epoch = 16, tr_id = 7, tr_storage = True,
     tr_thread_count = threads, tr_type = Linked\<rparr>"

definition uneven_leaves :: "(partial_label \<times> hash_type) set" where
  "uneven_leaves = trie_leaves (grow uneven_shape [])"

lemma grow_trie_leaves: "set (ct_leaves (grow (Fork a b) q)) = trie_leaves (grow (Fork a b) q)"
  by (cases a) simp_all

lemma uneven_trie_ok: "trie_ok (uneven_trie n) uneven_leaves"
  using grow_root [of "Fork (Fork Tip Tip) (Fork Tip Tip)"] 
  by (simp add: trie_ok_def uneven_trie_def uneven_leaves_def uneven_shape_def Let_def del: grow.simps)

lemma uneven_covered: "covered 3 uneven_leaves"
proof -
  have "cov 3 [] (set (ct_leaves (grow uneven_shape [])))"
    by (rule deep_cov) (simp_all add: uneven_shape_def Let_def eval_nat_numeral)
  moreover have "set (ct_leaves (grow uneven_shape [])) = uneven_leaves"
    unfolding uneven_leaves_def uneven_shape_def Let_def by (rule grow_trie_leaves)
  ultimately show ?thesis by (simp add: covered_def)
qed

lemma uneven_limit:
  "get_insertion_thread_limit hw (tr_root (uneven_trie 16)) 16 = Some (Inr 16)"
proof -
  let ?P = "Fork Tip Tip"
  let ?Q = "Fork ?P ?P"
  note step = limit_loop.simps [of 16, THEN trans]
  have 1: "limit_loop 16 0 8 [grow ?Q [True, False, False], grow ?Q [True, False, True],
      grow ?P [True, True, False], grow ?P [True, True, True]] = Some (Inr 16)"
    by (rule step) (simp add: check_grow del: grow.simps)
  have 2: "limit_loop 16 2 4 [grow ?P [False, False], grow ?P [False, True],
      grow (Fork ?Q ?Q) [True, False], grow ?Q [True, True]] = Some (Inr 16)"
    by (rule step) (simp add: check_grow limit_loop_restart 1 del: grow.simps)
  have "limit_loop 16 0 2 [grow ?Q [False], grow (Fork (Fork ?Q ?Q) ?Q) [True]] = Some (Inr 16)"
    by (rule step) (simp add: check_grow 2 [unfolded numeral_2_eq_2] del: grow.simps)
  then show ?thesis
    by (simp add: get_insertion_thread_limit_def uneven_trie_def uneven_shape_def Let_def check_grow del: grow.simps)
qed

lemma pad_prefix:
  assumes "is_prefix p (pl_bits (lab (pad q)))" "length p \<le> length q" "length q \<le> 256"
  shows "p = take (length p) q"
proof -
  have "pl_bits (lab (pad q)) = pad q" using lab_bits(2) [of "pad q"] assms(3) by (simp add: pad_def)
  then obtain ys where "p @ ys = pad q" using assms(1) by (auto simp: is_prefix_iff)
  then have "take (length p) (p @ ys) = take (length p) (pad q)" by simp
  then show ?thesis using assms(2) by (simp add: pad_def)
qed

definition uneven_paths :: "bool list list" where
  "uneven_paths = [[False, False, False], [False, False, True], [False, True, False], [False, True, True],
     [True, False, False, False, False], [True, False, False, False, True],
     [True, False, False, True, False], [True, False, False, True, True],
     [True, False, True, False, False], [True, False, True, False, True],
     [True, False, True, True, False], [True, False, True, True, True],
     [True, True, False, False], [True, True, False, True],
     [True, True, True, False], [True, True, True, True]]"

lemma uneven_paths: "uneven_leaves = (\<lambda>q. (lab (pad q), zero_hash)) ` set uneven_paths"
proof -
  have "ct_leaves (grow uneven_shape []) = map (\<lambda>q. (lab (pad q), zero_hash)) uneven_paths"
    by (simp add: uneven_shape_def uneven_paths_def Let_def)
  moreover have "uneven_leaves = set (ct_leaves (grow uneven_shape []))"
    unfolding uneven_leaves_def uneven_shape_def Let_def by (rule grow_trie_leaves [symmetric])
  ultimately show ?thesis by (simp only: set_map)
qed

lemma uneven_few:
  assumes "(k, v) \<in> uneven_leaves" "is_prefix [False, False, False] (pl_bits k)"
  shows "k = lab (pad [False, False, False])"
proof -
  obtain q where q: "k = lab (pad q)" "q \<in> set uneven_paths"
    using assms(1) unfolding uneven_paths by blast
  have "\<forall>q \<in> set uneven_paths. 3 \<le> length q \<and> length q \<le> 256 \<and>
      (take 3 q = [False, False, False] \<longrightarrow> q = [False, False, False])"
    by (simp add: uneven_paths_def)
  then have l: "3 \<le> length q" "length q \<le> 256" "take 3 q = [False, False, False] \<longrightarrow> q = [False, False, False]"
    using q(2) by blast+
  have "[False, False, False] = take (length [False, False, False]) q"
    by (rule pad_prefix) (use assms(2) q(1) l in simp_all)
  then have "q = [False, False, False]" using l(3) by (simp add: numeral_3_eq_3)
  then show ?thesis using q(1) by simp
qed

text \<open>Every batch without a label that starts with three zeros fails.\<close>

lemma uneven_batch_throws:
  assumes "labels_ok (map fst kvs) uneven_leaves"
    "\<forall>(k, h) \<in> set kvs. \<not> is_prefix [False, False, False] (pl_bits k)"
  obtains T' where "trie_insert_batch hw s1 s2 kvs (uneven_trie 16) =
      Some (Inl (RuntimeError ''This node should exist''), T', [])"
    "trie_leaves (tr_root T') = uneven_leaves \<union> batch_leaves kvs 17"
    "kvs \<noteq> [] \<longrightarrow> get_dirty_bit (tr_root T')"
proof -
  have e: "tr_epoch (uneven_trie 16) + 1 = 17" "tr_thread_count (uneven_trie 16) = 16"
    by (simp_all add: uneven_trie_def)
  have lim: "get_insertion_thread_limit hw (tr_root (uneven_trie 16)) (tr_thread_count (uneven_trie 16)) =
      Some (Inr (2 ^ Suc (Suc 2)))"
    using uneven_limit [of hw] unfolding e(2) by simp
  have "\<not> two_below (replicate (Suc 2) False) (uneven_leaves \<union> batch_leaves kvs 17)"
  proof
    assume "two_below (replicate (Suc 2) False) (uneven_leaves \<union> batch_leaves kvs 17)"
    then obtain k v k' v' where two: "k \<noteq> k'" "(k, v) \<in> uneven_leaves \<union> batch_leaves kvs 17"
      "(k', v') \<in> uneven_leaves \<union> batch_leaves kvs 17"
      "is_prefix [False, False, False] (pl_bits k)" "is_prefix [False, False, False] (pl_bits k')"
      unfolding two_below_def numeral_2_eq_2 replicate.simps by blast
    have "k = lab (pad [False, False, False])"
      using two(2,4) assms(2) uneven_few by (auto simp: batch_leaves_def leaf_entry_def)
    moreover have "k' = lab (pad [False, False, False])"
      using two(3,5) assms(2) uneven_few by (auto simp: batch_leaves_def leaf_entry_def)
    ultimately show False using two(1) by simp
  qed
  then have few: "\<not> two_below (replicate (Suc 2) False)
      (uneven_leaves \<union> batch_leaves kvs (tr_epoch (uneven_trie 16) + 1))" unfolding e(1) .
  have c: "covered (Suc 2) uneven_leaves" using uneven_covered by (simp add: eval_nat_numeral)
  show ?thesis
    by (rule batch_incomplete [OF uneven_trie_ok assms(1) lim _ c few, of s1 s2])
      (simp, rule that, simp_all only: e(1))
qed

text \<open>A trie with a dirty root answers no lookup.\<close>

lemma dirty_lookup:
  "get_dirty_bit (tr_root T) \<Longrightarrow>
    trie_lookup k T = Inl (RuntimeError ''Cannot perform lookup with a dirty node - current'')"
  by (cases "tr_root T") (simp_all add: trie_lookup_def ct_lookup_def)

lemma uneven_fresh_label:
  "labels_ok [lab (replicate 256 True)] uneven_leaves"
  "\<not> is_prefix [False, False, False] (pl_bits (lab (replicate 256 True)))"
proof -
  let ?k = "lab (replicate 256 True)"
  have b: "pl_valid ?k" "pl_bits ?k = replicate 256 True" by (simp_all add: lab_bits)
  have "incomparable ?k k'" if m: "(k', v) \<in> uneven_leaves" for k' v
  proof -
    obtain q where q: "k' = lab (pad q)" "q \<in> set uneven_paths" using m unfolding uneven_paths by blast
    have "\<forall>q \<in> set uneven_paths. length q < 256" by (simp add: uneven_paths_def)
    then have l: "length q < 256" using q(2) by blast
    then have k': "pl_valid k'" "pl_bits k' = pad q" using lab_bits [of "pad q"] q(1) by (simp_all add: pad_def)
    have "pad q ! 255 = False" "replicate 256 True ! 255 = True" using l by (simp_all add: pad_def nth_append)
    then have "?k \<noteq> k'" using b(2) k'(2) by metis
    moreover have "pl_bit_count ?k = pl_bit_count k'"
      using length_pl_bits [of ?k] length_pl_bits [of k'] b(2) k'(2) l by (simp add: pad_def)
    ultimately show ?thesis using same_length_incomparable b(1) k'(1) by blast
  qed
  then have "fits ?k uneven_leaves" by (auto simp: fits_def)
  then show "labels_ok [?k] uneven_leaves" using b by (simp add: labels_ok_def)
  show "\<not> is_prefix [False, False, False] (pl_bits ?k)"
    unfolding b(2) by (auto simp: is_prefix_def take_Cons' eval_nat_numeral)
qed

end
