(* ===== verification/Spec2Isabelle.thy ===== *)
theory Spec2Isabelle
  imports Trie_Storage Blake2xb FourQ_Point Trie_Batch_Limit
begin

text \<open>
  A verification library for oZKS (\<open>src/oZKS\<close>), an ordered append-only zero-knowledge set: a
  compressed binary trie of hashed labels with Merkle commitments, the hash functions it uses, and
  the elliptic curve FourQ under its verifiable random function.

  The program and the theories.

  \<^item> \<open>Prelude\<close>: machine words and bytes, the \<open>result\<close> type for C++ exceptions, lists of bits.
  \<^item> \<open>Partial_Label\<close>, \<open>Label_Bits\<close> (\<open>partial_label.h/.cpp\<close>): labels as four 64-bit words and a bit count,
    every constructor and operation; \<open>pl_bits\<close> is the bit string a label stands for, and the lemmas
    give each operation as an operation on bit strings.
  \<^item> \<open>Blake2b\<close>, \<open>Blake2xb\<close> (\<open>hash/blake2b.c\<close>, \<open>hash/blake2xb.c\<close>): the streaming hash functions with
    their buffers and counters, shown equal to block-wise definitions.
  \<^item> \<open>Hash_Utils\<close> (\<open>utilities.cpp\<close>, \<open>hash/hash.cpp\<close>): leaf, node and payload hashes, the insertion
    index, the integer logarithm.
  \<^item> \<open>CT_Node\<close>, \<open>CT_Insert\<close>, \<open>CT_Update\<close>, \<open>CT_Lookup\<close> (\<open>ct_node.cpp\<close>, \<open>ct_node_linked.cpp\<close>): nodes in
    memory, insertion, the pass that recomputes dirty hashes, both lookups. The tree invariant is
    \<open>ct_wf\<close>; the abstract content of a tree is its set of leaves.
  \<^item> \<open>Results\<close> (\<open>insert_result.cpp\<close>, \<open>query_result.cpp\<close>): verification of append and lookup proofs.
  \<^item> \<open>Compressed_Trie\<close> (\<open>compressed_trie.cpp\<close>): the trie with its epoch, insertion of one label,
    lookup, commitment, and the writes to the storage as a list of events.
  \<^item> \<open>Trie_Batch\<close>, \<open>Trie_Batch_Limit\<close> (\<open>compressed_trie.cpp\<close>, \<open>utilities.cpp\<close>): insertion of a batch by
    several threads as a schedule of steps, with the number of threads, the pass over the top levels and
    the proofs; below 16 threads every schedule gives the right trie, and with 16 there is a trie on
    which batches fail.
  \<^item> \<open>Storage\<close>, \<open>Storage_Stack\<close> (\<open>storage/*.cpp\<close>): the storage in memory, the cache and the batch
    inserter in front of any storage. The locale \<open>storage\<close> is the contract; the inserter and the cache are
    shown to keep it when the storage behind them does.
  \<^item> \<open>Trie_Storage\<close> (\<open>compressed_trie.cpp\<close>, \<open>ct_node_linked.cpp\<close>, \<open>ct_node_stored.cpp\<close>): a trie is written to a
    storage and loaded again, for every storage that keeps the contract.
  \<^item> \<open>FourQ_Digits\<close>, \<open>FourQ_Fp\<close>, \<open>FourQ_Fp2\<close> (\<open>fourq/generic/fp.h\<close>, \<open>fourq/eccp2_core.c\<close>): multiprecision
    digits, the field GF(2^127 - 1) and its quadratic extension, refined to the types \<open>gfp\<close> and \<open>fq\<close>
    of \<open>FourQ_Field\<close>. \<open>FourQ_Prime\<close> proves 2^127 - 1 prime by the Lucas-Lehmer test.
  \<^item> \<open>FourQ_Edwards\<close>, \<open>FourQ_Curve\<close>, \<open>FourQ_Group\<close> (\<open>fourq/eccp2_core.c\<close>, \<open>fourq/FourQ_params.h\<close>): the curve, its
    complete addition law, the point operations in their representations, the abelian group of points.
  \<^item> \<open>FourQ_Scalar\<close> (\<open>fourq/generic/fp.h\<close>, \<open>fourq/crypto_util.c\<close>): arithmetic modulo the order.
  \<^item> \<open>FourQ_Recode\<close> (\<open>fourq/eccp2_no_endo.c\<close>, \<open>fourq/eccp2_core.c\<close>): the recodings of scalars.
  \<^item> \<open>FourQ_Mul\<close> (\<open>fourq/eccp2_no_endo.c\<close>, \<open>fourq/eccp2_core.c\<close>, \<open>fourq/table_lookup.h\<close>): constant-time
    lookups and scalar multiplication with a variable base, with the fixed base and with both.
  \<^item> \<open>FourQ_Codec\<close> (\<open>fourq/crypto_util.c\<close>, \<open>fourq/FourQ.h\<close>): compression and decompression of points, the
    status codes.
  \<^item> \<open>FourQ_Hash\<close> (\<open>fourq/hash_to_curve.c\<close>): the map from a field element to the curve, stage by stage:
    each group of statements gets the field equation it establishes, and the stages together give a
    point of the curve after the cofactor is cleared.
  \<^item> \<open>FourQ_Inverse\<close> (\<open>fourq/crypto_util.c\<close>): inversion modulo the order with its sliding window. The loop
    is a partial function; that it returns is proved.
  \<^item> \<open>VRF\<close> (\<open>vrf.cpp\<close>): proofs, keys and values over any point class with the operations of \<open>ECPoint\<close>, in
    the locale \<open>ec_group\<close>, which states what the proofs need of the class.
  \<^item> \<open>FourQ_Point\<close> (\<open>ecpoint.cpp\<close>): the point class of the default build. It interprets \<open>ec_group\<close>: the
    laws are proved for the modelled curve operations. That the order of the subgroup is prime is
    not proved; the generator must satisfy the congruence in \<open>fourq_valid\<close>, which holds when it is.

  State and operations. A C++ object is a record or a datatype and a method is a function that
  returns the new state; an exception is the left value of \<open>result\<close>, with the state the code leaves
  behind where it matters. C functions that write through a pointer return what they write. Words
  keep their width. Loops are structural recursions on lists of words, or recursions with a
  measure; no definition uses fuel, except where a text says so.

  Not modelled: the OpenSSL P-256 and SHA-2 builds (\<open>P256Point\<close> in \<open>ecpoint.cpp\<close>, part of \<open>utilities.cpp\<close>)
  and the flatbuffers serialization of every class, with \<open>commitment.cpp\<close> (third-party and generated
  code); the AMD64 and ARM64 assembly and the vector intrinsics (the portable build is modelled);
  the multiplication with endomorphisms of \<open>fourq/eccp2.c\<close>, selected by \<open>USE_ENDO\<close> (the one of
  \<open>fourq/eccp2_no_endo.c\<close> is modelled, which computes the same multiples); the contents of the table in
  \<open>fourq/FourQ_tables.h\<close> (an argument of the fixed-base multiplication, with the multiples it must hold
  as a hypothesis); random number generation (an argument); the thread pool, overloads on streams,
  erasure of temporaries, text output, the examples and the tests.
\<close>

section \<open>Example inputs\<close>

text \<open>Two labels of full length and an empty trie; the witnesses use them.\<close>

definition ex_label0 :: partial_label where
  "ex_label0 = PartialLabel [0x4000000000000000, 0, 0, 0] 256"

definition ex_label1 :: partial_label where
  "ex_label1 = PartialLabel [0x8000000000000000, 0, 0, 0] 256"

definition ex_trie :: trie where
  "ex_trie = fst (trie_new 7 True Linked 1)"

lemma full_label_valid: "length ws = 4 \<Longrightarrow> pl_valid (PartialLabel ws 256)"
  by (simp add: pl_valid_def)

lemma ex_labels: "pl_valid ex_label0" "pl_valid ex_label1" "pl_bits ex_label0 \<noteq> []"
  "pl_bits ex_label1 \<noteq> []" "incomparable ex_label0 ex_label1" "ex_label0 \<noteq> ex_label1"
proof -
  show v: "pl_valid ex_label0" "pl_valid ex_label1"
    by (simp_all add: ex_label0_def ex_label1_def full_label_valid)
  show "pl_bits ex_label0 \<noteq> []" "pl_bits ex_label1 \<noteq> []"
    by (simp_all add: pl_empty_bits [symmetric] pl_empty_def ex_label0_def ex_label1_def)
  show ne: "ex_label0 \<noteq> ex_label1" by (simp add: ex_label0_def ex_label1_def)
  show "incomparable ex_label0 ex_label1"
    by (rule same_length_incomparable [OF v _ ne]) (simp add: ex_label0_def ex_label1_def)
qed

lemma ex_trie_ok: "trie_ok ex_trie {}"
  by (simp add: ex_trie_def trie_new_ok)

lemma fits_empty: "fits k {}"
  by (simp add: fits_def)

text \<open>The empty trie with \<open>ex_label1\<close> inserted.\<close>

definition ex_trie1 :: trie where
  "ex_trie1 = fst (snd (trie_insert ex_label1 zero_hash ex_trie))"

definition ex_leaf1 :: "partial_label \<times> hash_type" where
  "ex_leaf1 = (ex_label1, compute_leaf_hash ex_label1 zero_hash 1)"

lemma ex_trie1_ok: "trie_ok ex_trie1 {ex_leaf1}"
proof -
  have e: "tr_epoch ex_trie = 0" by (simp add: ex_trie_def trie_new_def Let_def)
  obtain pf T ev where "trie_insert ex_label1 zero_hash ex_trie = (Inr pf, T, ev)"
    "trie_ok T {leaf_entry ex_label1 zero_hash (tr_epoch ex_trie + 1)}"
    by (rule trie_insert_ok [OF ex_trie_ok ex_labels(2,4) fits_empty])
  then show ?thesis by (simp add: ex_trie1_def ex_leaf1_def leaf_entry_def e)
qed


section \<open>The trie\<close>











text \<open>
  C6. The commitment is a function of the set of leaves: two tries with up-to-date hashes and the
  same leaves have the same commitment, whatever the order of their insertions, their ids, their
  storages and their thread counts.
\<close>

theorem commitment_order_independent:
  assumes "trie_ok T L" "trie_ok T' L"
  shows "get_commitment T = get_commitment T'"
  using assms by (rule commitment_determined)

theorem commitment_order_independent_witness:
  "get_commitment ex_trie = get_commitment (fst (trie_new 8 False LinkedNoStorage 4))"
  by (rule commitment_order_independent [OF ex_trie_ok trie_new_ok])



text \<open>
  C8. Inserting a label that is already present, or a prefix of a present label, throws; only the
  epoch has changed, and nothing was written to the storage.
\<close>

theorem trie_insert_present_throws:
  assumes "trie_ok T L" "pl_valid k" "(k', v) \<in> L" "is_prefix (pl_bits k) (pl_bits k')"
  shows "\<exists>e. trie_insert k h T = (Inl e, T\<lparr>tr_epoch := tr_epoch T + 1\<rparr>, [])"
  by (rule trie_insert_clash [OF assms]) blast

theorem trie_insert_present_throws_witness:
  "\<exists>e. trie_insert ex_label1 zero_hash ex_trie1 = (Inl e, ex_trie1\<lparr>tr_epoch := tr_epoch ex_trie1 + 1\<rparr>, [])"
  by (rule trie_insert_present_throws [OF ex_trie1_ok ex_labels(2), of ex_label1 "snd ex_leaf1"])
    (simp_all add: ex_leaf1_def is_prefix_def)


section \<open>Partial labels\<close>

text \<open>
  C10. \<open>CommonPrefix\<close> computes, word by word with a shift and a mask, a label in normal form whose
  bits are the longest common prefix of the two bit strings.
\<close>

theorem common_prefix_correct:
  assumes "pl_valid a" "pl_valid b"
  shows "pl_valid (common_prefix a b) \<and> pl_bits (common_prefix a b) = lcp (pl_bits a) (pl_bits b) \<and>
    common_prefix_count a b = length (lcp (pl_bits a) (pl_bits b))"
  using common_prefix_valid [OF assms] common_prefix_lcp [OF assms]
  by (simp add: common_prefix_count_def flip: length_pl_bits)

theorem common_prefix_correct_witness:
  "pl_valid (common_prefix ex_label0 ex_label1) \<and>
    pl_bits (common_prefix ex_label0 ex_label1) = lcp (pl_bits ex_label0) (pl_bits ex_label1) \<and>
    common_prefix_count ex_label0 ex_label1 = length (lcp (pl_bits ex_label0) (pl_bits ex_label1))"
  by (rule common_prefix_correct [OF ex_labels(1,2)])

text \<open>
  C11. \<open>set_bit\<close>, which patches one byte of the word in memory, changes the bit of the given index
  of the bit string and no other, keeps the label valid, and throws for an index out of range;
  \<open>bit\<close> reads the bit string at the index and throws out of range.
\<close>

theorem label_bit_access:
  assumes "pl_valid l"
  shows "if i < pl_bit_count l
    then (\<exists>l'. pl_set_bit l i v = Inr l' \<and> pl_valid l' \<and> pl_bits l' = (pl_bits l)[i := v]) \<and>
      pl_bit l i = Inr (pl_bits l ! i)
    else (\<exists>e. pl_set_bit l i v = Inl e) \<and> (\<exists>e. pl_bit l i = Inl e)"
proof (cases "i < pl_bit_count l")
  case True
  note v = pl_validD [OF assms]
  obtain l' where l': "pl_set_bit l i v = Inr l'" "length (pl_label l') = 4"
    "pl_bit_count l' = pl_bit_count l"
    "\<And>j. j < 256 \<Longrightarrow> lbit (pl_label l') j = (if j = i then v else lbit (pl_label l) j)"
    using pl_set_bit_spec [OF v(1,2) True] by blast
  have "pl_valid l'" using l' v True by (intro pl_validI) auto
  moreover have "pl_bits l' = (pl_bits l)[i := v]"
    using l'(3,4) v(2) True by (intro nth_equalityI) (auto simp: nth_pl_bits nth_list_update)
  ultimately show ?thesis using l'(1) True pl_bit_nth [OF True v(2)] by auto
next
  case False
  then show ?thesis using pl_bit_error [of l i] by (simp add: pl_set_bit_def)
qed

theorem label_bit_access_witness:
  "if 3 < pl_bit_count ex_label0
    then (\<exists>l'. pl_set_bit ex_label0 3 True = Inr l' \<and> pl_valid l' \<and>
        pl_bits l' = (pl_bits ex_label0)[3 := True]) \<and>
      pl_bit ex_label0 3 = Inr (pl_bits ex_label0 ! 3)
    else (\<exists>e. pl_set_bit ex_label0 3 True = Inl e) \<and> (\<exists>e. pl_bit ex_label0 3 = Inl e)"
  by (rule label_bit_access [OF ex_labels(1)])

text \<open>
  C12. \<open>add_bit\<close> appends a bit and keeps the label valid; it throws exactly on a full label.
\<close>

theorem add_bit_correct:
  assumes "pl_valid l"
  shows "if pl_bit_count l < 256
    then \<exists>l'. pl_add_bit l b = Inr l' \<and> pl_valid l' \<and> pl_bits l' = pl_bits l @ [b]
    else pl_add_bit l b = Inl (RuntimeError ''Label is already at max size'')"
proof (cases "pl_bit_count l < 256")
  case True
  then show ?thesis using pl_add_bit_spec [OF assms, of b] by auto
qed (simp add: pl_add_bit_def)

theorem add_bit_correct_witness:
  "if pl_bit_count pl_default < 256
    then \<exists>l'. pl_add_bit pl_default True = Inr l' \<and> pl_valid l' \<and> pl_bits l' = pl_bits pl_default @ [True]
    else pl_add_bit pl_default True = Inl (RuntimeError ''Label is already at max size'')"
  by (rule add_bit_correct [OF pl_default_valid])

text \<open>
  C13. The constructor from a vector of bits: a valid label with these bits, or the exception for
  more than 256 bits.
\<close>

theorem from_bits_correct:
  "if length bs \<le> 256 then \<exists>l. pl_from_bits bs = Inr l \<and> pl_valid l \<and> pl_bits l = bs
   else pl_from_bits bs = Inl (InvalidArgument ''Cannot have more than MaxBitCount bits'')"
proof (cases "length bs \<le> 256")
  case True
  then show ?thesis using pl_from_bits_spec [OF True] by auto
next
  case False
  then show ?thesis using pl_from_bits_error [of bs] by simp
qed

text \<open>
  C14. The constructor from bytes takes the leading bits of the bytes, most significant first, masks
  the rest of the last byte, reads a bit count of 0 as all the bits given, and throws on input that
  is too long or a bit count beyond the input.
\<close>

theorem from_bytes_correct:
  "if 32 < length input then pl_from_bytes input n =
       Inl (InvalidArgument ''Cannot have input bigger than available bytes'')
   else if 8 * length input < n then pl_from_bytes input n =
       Inl (InvalidArgument ''Bit count is bigger than available bits'')
   else \<exists>l. pl_from_bytes input n = Inr l \<and> pl_valid l \<and>
     pl_bits l = map (byte_bit input) [0..<(if n = 0 then 8 * length input else n)]"
proof -
  consider "32 < length input" | "length input \<le> 32" "8 * length input < n"
    | "length input \<le> 32" "n \<le> 8 * length input" by linarith
  then show ?thesis
  proof cases
    case 1
    show ?thesis unfolding if_P [OF 1] by (rule pl_from_bytes_errors(1) [OF 1])
  next
    case 2
    then have n: "\<not> 32 < length input" by simp
    show ?thesis unfolding if_not_P [OF n] if_P [OF 2(2)] by (rule pl_from_bytes_errors(2) [OF 2])
  next
    case 3
    then have n: "\<not> 32 < length input" "\<not> 8 * length input < n" by simp_all
    show ?thesis unfolding if_not_P [OF n(1)] if_not_P [OF n(2)]
      by (rule pl_from_bytes_spec [OF 3]) blast
  qed
qed

text \<open>
  C15. \<open>to_bytes\<close> followed by the constructor from bytes gives back every valid label.
\<close>

theorem label_bytes_roundtrip:
  assumes "pl_valid l"
  shows "pl_from_bytes (pl_to_bytes l) (pl_bit_count l) = Inr l"
  by (rule pl_from_to_bytes [OF assms])

theorem label_bytes_roundtrip_witness:
  "pl_from_bytes (pl_to_bytes ex_label0) (pl_bit_count ex_label0) = Inr ex_label0"
  by (rule label_bytes_roundtrip [OF ex_labels(1)])





section \<open>Hashing\<close>

text \<open>
  C18. The one-call BLAKE2b: for every key of at most 64 bytes, output length from 1 to 64 and
  message it returns the digest of the reference function (chain of compressions over the padded
  key block and the message), of the length asked for; otherwise it returns -1.
\<close>

theorem blake2b_correct:
  "blake2b out_ok n (Some msg) (length msg) (Some key) (length key) =
    (if out_ok \<and> 1 \<le> n \<and> n \<le> 64 \<and> length key \<le> 64 then Some (rfc_blake2b n key msg) else None) \<and>
   (n \<le> 64 \<longrightarrow> length (rfc_blake2b n key msg) = n)"
proof (cases "out_ok \<and> 1 \<le> n \<and> n \<le> 64 \<and> length key \<le> 64")
  case True
  then show ?thesis using blake2b_computes_rfc [of n key msg] length_rfc_blake2b [of n key msg] by simp
next
  case False
  then have "blake2b out_ok n (Some msg) (length msg) (Some key) (length key) = None"
    by (intro blake2b_errors) auto
  then show ?thesis unfolding if_not_P [OF False] using length_rfc_blake2b by blast
qed

theorem blake2b_correct_witness:
  "blake2b True 32 (Some [1, 2]) (length [1 :: byte, 2]) (Some []) (length ([] :: byte list)) =
    (if True \<and> 1 \<le> (32 :: nat) \<and> (32 :: nat) \<le> 64 \<and> length ([] :: byte list) \<le> 64
     then Some (rfc_blake2b 32 [] [1, 2]) else None) \<and>
   length (rfc_blake2b 32 [] [1, 2]) = 32"
  using blake2b_correct [of True 32 "[1, 2]" "[]"] by simp

text \<open>
  C19. The streaming interface: whatever way a message is cut into updates, the digest is that of
  the whole message, and a second call of \<open>blake2b_final\<close> fails.
\<close>

theorem blake2b_streaming_correct:
  assumes "1 \<le> n" "n \<le> 64"
  shows "\<exists>S S'. blake2b_init n = Some S \<and>
    blake2b_final (foldl blake2b_update S xs) True n = Some (S', rfc_blake2b n [] (concat xs)) \<and>
    blake2b_final S' True n = None"
  by (rule blake2b_streaming [OF assms, of xs]) blast

theorem blake2b_streaming_correct_witness:
  "\<exists>S S'. blake2b_init 32 = Some S \<and>
    blake2b_final (foldl blake2b_update S [[1], [], [2, 3]]) True 32 =
      Some (S', rfc_blake2b 32 [] (concat [[1], [], [2, 3]])) \<and>
    blake2b_final S' True 32 = None"
  by (rule blake2b_streaming_correct) simp_all

text \<open>
  C20. The byte counter kept in two 64-bit words, with the carry computed from the wrap-around of
  the low word, is the 128-bit count of the bytes.
\<close>

theorem blake2b_counter_correct:
  assumes "counter_is S t" "inc < 2 ^ 64"
  shows "counter_is (blake2b_increment_counter S (of_nat inc)) (t + inc)"
  by (rule increment_counter [OF assms])

theorem blake2b_counter_correct_witness:
  "counter_is (blake2b_increment_counter
      \<lparr>b2_h = [], b2_t0 = -1, b2_t1 = 0, b2_f0 = 0, b2_f1 = 0, b2_buf = [], b2_buflen = 0,
       b2_outlen = 0, b2_last_node = 0\<rparr> (of_nat 128)) (2 ^ 64 - 1 + 128)"
  by (rule blake2b_counter_correct) (simp_all add: counter_is_def)

text \<open>
  C21. BLAKE2Xb: the output is the concatenation of the blocks of the extendable output function
  over the keyed root digest, exactly as many bytes as asked for; -1 for a zero or too large output
  length, an absent output or a too long key.
\<close>

theorem blake2xb_correct:
  "blake2xb out_ok n (Some msg) (length msg) (Some key) (length key) =
    (if out_ok \<and> 1 \<le> n \<and> n < 2 ^ 32 \<and> length key \<le> 64 then Some (blake2xb_spec n key msg) else None) \<and>
   length (blake2xb_spec n key msg) = n"
proof (cases "out_ok \<and> 1 \<le> n \<and> n < 2 ^ 32 \<and> length key \<le> 64")
  case True
  then show ?thesis
    using blake2xb_computes_spec [of n key msg] length_blake2xb_spec [of n key msg] by simp
next
  case False
  then have "blake2xb out_ok n (Some msg) (length msg) (Some key) (length key) = None"
    by (intro blake2xb_errors) auto
  then show ?thesis unfolding if_not_P [OF False] using length_blake2xb_spec by blast
qed

text \<open>
  C22. The insertion index of a label is the value of its first bits, padded with nothing when the
  label is shorter, and is below the number of batches.
\<close>

theorem insertion_index_correct:
  assumes "pl_valid label" "n < 64"
  shows "\<exists>i. get_insertion_index n label = Inr i \<and> unat i < 2 ^ n \<and>
    unat i = bits_value (take n (pl_bits label))"
  by (rule insertion_index_bound [OF assms]) blast

theorem insertion_index_correct_witness:
  "\<exists>i. get_insertion_index 4 ex_label1 = Inr i \<and> unat i < 2 ^ 4 \<and>
    unat i = bits_value (take 4 (pl_bits ex_label1))"
  by (rule insertion_index_correct [OF ex_labels(2)]) simp

section \<open>FourQ\<close>

text \<open>
  C23. The multiprecision loops are exact: the digits of a sum, difference or product with its
  carry or borrow have the value of the mathematical sum, difference or product.
\<close>

theorem multiprecision_exact:
  assumes "length a = length b" "fourq_mp_add a b = (co, s)" "mp_subtract a b = (bo, d)"
  shows "digits_val s + 2 ^ (64 * length a) * unat co = digits_val a + digits_val b \<and>
    digits_val d + digits_val b = digits_val a + 2 ^ (64 * length a) * unat bo \<and>
    digits_val (fourq_mp_mul a b) = digits_val a * digits_val b \<and>
    unat co \<le> 1 \<and> unat bo \<le> 1 \<and> length s = length a \<and> length d = length a \<and>
    length (fourq_mp_mul a b) = 2 * length a"
  using addc_loop_spec [OF assms(1), of 0 co s] subc_loop_spec [OF assms(1), of 0 bo d] assms
  by (simp add: fourq_mp_add_def mp_subtract_def fourq_mp_mul_spec)

theorem multiprecision_exact_witness:
  "digits_val [6, 5] + 2 ^ (64 * 2) * unat (0 :: digit) = digits_val [2, 2] + digits_val [4, 3]"
proof -
  have a: "fourq_mp_add [2, 2] [4, 3] = (0, [6, 5])"
    by (simp add: fourq_mp_add_def ADDC_def digit_lessthan)
  obtain bo d where d: "mp_subtract [2, 2] [4, 3] = (bo, d)" by (metis surj_pair)
  show ?thesis using multiprecision_exact [OF _ a d] by simp
qed

text \<open>
  C24. The field functions refine the arithmetic of GF(2^127 - 1): on representatives below 2^127
  every function returns a representative below 2^127 of the mathematical result.
\<close>

theorem fp_operations_refine:
  assumes "felm a" "felm b"
  shows "felm (fpadd1271 a b) \<and> fp_abs (fpadd1271 a b) = fp_abs a + fp_abs b \<and>
    felm (fpsub1271 a b) \<and> fp_abs (fpsub1271 a b) = fp_abs a - fp_abs b \<and>
    felm (fpneg1271 a) \<and> fp_abs (fpneg1271 a) = - fp_abs a \<and>
    felm (fpmul1271 a b) \<and> fp_abs (fpmul1271 a b) = fp_abs a * fp_abs b \<and>
    felm (fpsqr1271 a) \<and> fp_abs (fpsqr1271 a) = (fp_abs a)\<^sup>2 \<and>
    felm (fpdiv1271 a) \<and> 2 * fp_abs (fpdiv1271 a) = fp_abs a \<and>
    felm (fpexp1251 a) \<and> fp_abs (fpexp1251 a) = fp_abs a ^ (2 ^ 125 - 1) \<and>
    felm (fpinv1271 a) \<and> fp_abs (fpinv1271 a) = inverse (fp_abs a)"
  using assms by (simp add: fp_felm fp_value fpdiv1271_spec(2) fpexp1251_spec(2) del: mult_2)

theorem fp_operations_refine_witness:
  "fp_abs (fpinv1271 [7, 5]) = inverse (fp_abs [7, 5])"
  using fp_operations_refine [of "[7, 5]" "[7, 5]"] by (simp add: felm_def)

text \<open>
  C25. The functions on pairs refine the arithmetic of GF(p^2) = GF(p)(i): squaring with two
  multiplications, multiplication with three, inversion through the norm.
\<close>

theorem fp2_operations_refine:
  assumes "f2elm a" "f2elm b"
  shows "f2elm (fp2add1271 a b) \<and> fq_abs (fp2add1271 a b) = fq_abs a + fq_abs b \<and>
    f2elm (fp2sub1271 a b) \<and> fq_abs (fp2sub1271 a b) = fq_abs a - fq_abs b \<and>
    f2elm (fp2neg1271 a) \<and> fq_abs (fp2neg1271 a) = - fq_abs a \<and>
    f2elm (fp2mul1271 a b) \<and> fq_abs (fp2mul1271 a b) = fq_abs a * fq_abs b \<and>
    f2elm (fp2sqr1271 a) \<and> fq_abs (fp2sqr1271 a) = (fq_abs a)\<^sup>2 \<and>
    f2elm (fp2div1271 a) \<and> 2 * fq_abs (fp2div1271 a) = fq_abs a \<and>
    f2elm (fp2inv1271 a) \<and> fq_abs (fp2inv1271 a) = inverse (fq_abs a)"
  using assms by (simp add: fp2)

theorem fp2_operations_refine_witness:
  "fq_abs (fp2mul1271 GENERATOR_x GENERATOR_y) = fq_abs GENERATOR_x * fq_abs GENERATOR_y"
  using fp2_operations_refine [of GENERATOR_x GENERATOR_y]
  by (simp add: GENERATOR_x_def GENERATOR_y_def f2elm_def felm_def)

text \<open>
  C26. The point operations refine the group of the curve: doubling, complete and mixed addition
  represent the sums of the points they are given, whatever those points are.
\<close>

theorem point_operations_refine:
  assumes "r1_rep P (xy g)" "r2_rep Q (xy h)" "r5_rep S (xy k)"
  shows "r1_rep (eccdouble P) (xy (g + g)) \<and> r1_rep (eccadd Q P) (xy (g + h)) \<and>
    r1_rep (eccmadd S P) (xy (g + k)) \<and> r2_rep (eccneg_extproj_precomp Q) (xy (- h)) \<and>
    r5_rep (eccneg_precomp S) (xy (- k)) \<and> aff_ecp (eccnorm P) = g"
  using eccdouble_ecp [OF r1_rep_r4 [OF assms(1)]] eccadd_ecp [OF assms(2,1)] eccmadd_ecp [OF assms(3,1)]
    eccneg_ecp(1) [OF assms(2)] eccneg_ecp(2) [OF assms(3)] eccnorm_ecp(3) [OF r1_rep_r4 [OF assms(1)]]
  by blast

definition ex_neutral_precomp :: point_precomp where
  "ex_neutral_precomp = \<lparr>pc_xy = fp2one, pc_yx = fp2one, pc_t2 = fp2zero1271\<rparr>"

lemma ex_neutral_precomp: "r5_rep ex_neutral_precomp (xy 0)"
  using edw_zero_on_curve
  by (simp add: ex_neutral_precomp_def r5_rep_def fp2 edw_zero_def flip: xy_group(3))

theorem point_operations_refine_witness:
  "r1_rep (eccadd (R1_to_R2 (point_setup eccset)) (point_setup eccset)) (xy (aff_ecp eccset + aff_ecp eccset))"
proof -
  have 1: "r1_rep (point_setup eccset) (xy (aff_ecp eccset))"
    by (rule point_setup_ecp [OF generator_fqi(2) generator_on_curve])
  show ?thesis using point_operations_refine [OF 1 R1_to_R2_spec [OF 1] ex_neutral_precomp] by blast
qed

text \<open>
  C27. Point validation accepts exactly the points that satisfy the equation of the curve.
\<close>

theorem point_validation_correct:
  assumes "f2elm (pe_x P)" "f2elm (pe_y P)"
  shows "ecc_point_validate P \<longleftrightarrow> on_curve (fq_abs (pe_x P), fq_abs (pe_y P))"
  by (rule ecc_point_validate_spec [OF assms])

theorem point_validation_correct_witness: "ecc_point_validate (point_setup eccset)"
proof -
  have v: "f2elm (pe_x (point_setup eccset))" "f2elm (pe_y (point_setup eccset))"
    using generator_fqi(2) by (simp_all add: point_setup_def Let_def aff_valid_def fp2)
  have "(fq_abs (pe_x (point_setup eccset)), fq_abs (pe_y (point_setup eccset))) = aff_point eccset"
    using generator_fqi(2) by (simp add: point_setup_def Let_def aff_valid_def aff_point_def fp2)
  then show ?thesis using point_validation_correct [OF v] generator_on_curve by (simp only:)
qed

text \<open>
  C28. Arithmetic modulo the order: reduction of 256-bit scalars, addition, subtraction, the
  Montgomery representation and multiplication in it, and the odd representative of a residue.
\<close>

theorem scalar_arithmetic_correct:
  assumes "is_scalar a" "is_scalar b"
  shows "digits_val (modulo_order a) = digits_val a mod order_r \<and>
    digits_val (from_Montgomery (to_Montgomery a)) = digits_val a mod order_r \<and>
    digits_val (from_Montgomery (Montgomery_multiply_mod_order (to_Montgomery a) (to_Montgomery b))) =
      (digits_val a * digits_val b) mod order_r \<and>
    digits_val (add_mod_order (modulo_order a) (modulo_order b)) = (digits_val a + digits_val b) mod order_r \<and>
    digits_val (subtract_mod_order (modulo_order a) (modulo_order b)) =
      (digits_val a mod order_r + (order_r - digits_val b mod order_r)) mod order_r \<and>
    odd (digits_val (conversion_to_odd (modulo_order a))) \<and>
    digits_val (conversion_to_odd (modulo_order a)) mod order_r = digits_val a mod order_r"
proof (intro conjI)
  note ma = modulo_order_spec [OF assms(1)] and mb = modulo_order_spec [OF assms(2)]
  have r: "n mod order_r < order_r" for n using order_bounds(1) by simp
  show "digits_val (modulo_order a) = digits_val a mod order_r" by (rule ma)
  show "digits_val (from_Montgomery (to_Montgomery a)) = digits_val a mod order_r" by (rule from_to_Montgomery [OF assms(1)])
  show "digits_val (from_Montgomery (Montgomery_multiply_mod_order (to_Montgomery a) (to_Montgomery b))) =
      (digits_val a * digits_val b) mod order_r" by (rule Montgomery_product [OF assms])
  show "digits_val (add_mod_order (modulo_order a) (modulo_order b)) = (digits_val a + digits_val b) mod order_r"
    using add_mod_order_spec(2) [OF ma(1) mb(1)] r by (simp only: ma(2) mb(2) mod_add_eq)
  show "digits_val (subtract_mod_order (modulo_order a) (modulo_order b)) =
      (digits_val a mod order_r + (order_r - digits_val b mod order_r)) mod order_r"
    using subtract_mod_order_residue [OF ma(1) mb(1)] r by (simp only: ma(2) mb(2) mod_less)
  show "odd (digits_val (conversion_to_odd (modulo_order a)))"
    "digits_val (conversion_to_odd (modulo_order a)) mod order_r = digits_val a mod order_r"
    using odd_scalar [of "digits_val a"] unfolding odd_scalar_digits(2) [OF assms(1)] by blast+
qed

lemma is_scalar_one: "is_scalar [1, 0, 0, 0]" "digits_val [1, 0, 0, 0] = 1"
  by (simp_all add: is_scalar_def)

theorem scalar_arithmetic_correct_witness:
  "digits_val (add_mod_order (modulo_order [1, 0, 0, 0]) (modulo_order [1, 0, 0, 0])) = 2"
  using scalar_arithmetic_correct [OF is_scalar_one(1) is_scalar_one(1)]
  by (simp add: is_scalar_one(2) order_r_def)





text \<open>
  C31. Variable-base scalar multiplication, in the build without endomorphisms, rejects exactly the
  points off the curve. On the others it returns a point of the curve, the multiple by the odd
  representative of the scalar modulo the order of the point, or of 392 times the point when the
  cofactor is to be cleared; when the order annihilates that point it is the multiple by the scalar.
\<close>

theorem ecc_mul_correct:
  assumes "aff_valid P" "is_scalar k" "g = (if c then nmul 392 (aff_ecp P) else aff_ecp P)"
  shows "case ecc_mul P k c of
      None \<Rightarrow> \<not> on_curve (aff_point P)
    | Some Q \<Rightarrow> on_curve (aff_point P) \<and> aff_valid Q \<and> on_curve (aff_point Q) \<and>
        aff_ecp Q = nmul (odd_scalar (digits_val k)) g \<and>
        (nmul order_r g = 0 \<longrightarrow> aff_ecp Q = nmul (digits_val k) g)"
proof (cases "on_curve (aff_point P)")
  case True
  have g: "g = (if c then zmul 392 (aff_ecp P) else aff_ecp P)"
    unfolding assms(3) nmul_zmul by simp
  obtain Q where Q: "ecc_mul P k c = Some Q" "aff_valid Q" "on_curve (aff_point Q)"
    "aff_ecp Q = nmul (odd_scalar (digits_val k)) g"
    using ecc_mul_spec(2) [OF assms(1,2) True, of c] unfolding g by blast
  have "aff_ecp Q = nmul (digits_val k) g" if "nmul order_r g = 0"
    unfolding Q(4) by (rule nmul_mod [OF that odd_scalar(3)])
  then show ?thesis using Q True by simp
next
  case False
  then show ?thesis using ecc_mul_spec(1) [OF assms(1,2) False] by simp
qed

theorem ecc_mul_correct_witness:
  "\<exists>Q. ecc_mul eccset [1, 0, 0, 0] False = Some Q \<and> on_curve (aff_point Q) \<and> aff_ecp Q = aff_ecp eccset"
proof -
  have "odd_scalar 1 = 1" by (simp add: odd_scalar_def order_r_def)
  then show ?thesis
    using ecc_mul_correct [OF generator_fqi(2) is_scalar_one(1), of "aff_ecp eccset" False] generator_on_curve
    unfolding is_scalar_one(2) by (auto split: option.splits)
qed




text \<open>
  C33. Decoding inverts encoding: every point of the curve whose x-coordinate is reduced comes back
  from its 32 bytes, with the digits of its y-coordinate. The square root that \<open>decode\<close> takes, its
  choice of the sign and its second attempt with the conjugate always find the point.
\<close>

theorem decode_inverts_encode:
  assumes "aff_valid P" "on_curve (aff_point P)" "fp2mod (pa_x P) = pa_x P"
  shows "\<exists>Q. decode (encode P) = (ECCRYPTO_SUCCESS, Q) \<and> aff_valid Q \<and> pa_y Q = pa_y P \<and>
    aff_point Q = aff_point P"
  by (rule decode_encode [OF assms])

theorem decode_inverts_encode_witness:
  "\<exists>Q. decode (encode (eccnorm (point_setup eccset))) = (ECCRYPTO_SUCCESS, Q) \<and>
    aff_point Q = aff_point eccset"
proof -
  have r: "r4_rep (point_setup eccset) (aff_point eccset)"
    by (rule r1_rep_r4 [OF point_setup_spec [OF generator_fqi(2) generator_on_curve]])
  note n = eccnorm_spec [OF r]
  show ?thesis using decode_inverts_encode [OF n(1) _ n(3)] generator_on_curve n(2) by auto
qed

text \<open>
  C34. A point that \<open>decode\<close> accepts is a valid point of the curve, for every encoding in which the
  bit above the first half of the y-coordinate is clear.
\<close>

theorem decode_accepts_curve_points:
  assumes "length b = 32" "\<not> bit (b ! 15) 7" "decode b = (ECCRYPTO_SUCCESS, P)"
  shows "aff_valid P \<and> on_curve (aff_point P)"
  using decode_sound [OF assms(3) decode_y_valid [OF assms(1,2)]] by blast

definition ex_neutral_point :: point_affine where
  "ex_neutral_point = \<lparr>pa_x = ([0, 0], [0, 0]), pa_y = ([1, 0], [0, 0])\<rparr>"

lemma ex_neutral_point:
  "aff_valid ex_neutral_point" "on_curve (aff_point ex_neutral_point)" "fp2mod (pa_x ex_neutral_point) = pa_x ex_neutral_point"
proof -
  have e: "ex_neutral_point = \<lparr>pa_x = fp2zero1271, pa_y = fp2one\<rparr>"
    by (simp add: ex_neutral_point_def fp2one_def fp2zero1271_def fpzero1271_def numeral_2_eq_2)
  show "aff_valid ex_neutral_point" unfolding e by (simp add: aff_valid_def fp2)
  show "on_curve (aff_point ex_neutral_point)"
    using edw_zero_on_curve unfolding e by (simp add: aff_point_def fp2 edw_zero_def)
  show "fp2mod (pa_x ex_neutral_point) = pa_x ex_neutral_point"
    by code_simp
qed

theorem decode_accepts_curve_points_witness:
  "\<exists>Q. decode (encode ex_neutral_point) = (ECCRYPTO_SUCCESS, Q) \<and> on_curve (aff_point Q)"
proof -
  have b: "length (encode ex_neutral_point) = 32" "\<not> bit (encode ex_neutral_point ! 15) 7"
    by code_simp+
  obtain Q where Q: "decode (encode ex_neutral_point) = (ECCRYPTO_SUCCESS, Q)"
    using decode_encode [OF ex_neutral_point] by blast
  show ?thesis using decode_accepts_curve_points [OF b Q] Q by blast
qed

section \<open>Storages\<close>

text \<open>
  C35. The cache over the batch inserter over the memory storage answers a sequence of loads, saves,
  flushes and deletions for one trie as the memory storage alone does, whatever entries the caches
  drop and when.
\<close>

theorem storage_stack_refines_memory:
  assumes "\<forall>c \<in> set cs. call_id c = i"
  shows "answers stack_ops cs (stack_new en et ee m) = answers memory_ops cs m"
  using stack_answers [OF stack_new_ok(1) assms] by (simp add: stack_new_ok(2)) (simp add: stack_new_def bi_flushable_def)

theorem storage_stack_refines_memory_witness:
  "answers stack_ops [PutNode 7 (save_node new_root), Flush 7, LoadNode 7 pl_default, DeleteOzks 7, LoadNode 7 pl_default]
      (stack_new (\<lambda>_. {}) (\<lambda>_. {}) (\<lambda>_. {}) ms_new) =
    [Done (Inr ()), Done (Inr ()), NodeAnswer (Inr (Some (save_node new_root))), Done (Inr ()), NodeAnswer (Inr None)]"
proof -
  have "answers memory_ops [PutNode 7 (save_node new_root), Flush 7, LoadNode 7 pl_default, DeleteOzks 7, LoadNode 7 pl_default] ms_new =
    [Done (Inr ()), Done (Inr ()), NodeAnswer (Inr (Some (save_node new_root))), Done (Inr ()), NodeAnswer (Inr None)]"
    by (simp add: perform_memory ms_save_ctnode_def ms_delete_ozks_def ms_new_def new_root_def save_node_def)
  then show ?thesis by (subst storage_stack_refines_memory [of _ 7]) simp_all
qed



section \<open>The verifiable random function\<close>

text \<open>
  C37. Hashing to the curve returns a reduced point of the curve, 392 times the point of the Elligator map,
  for every field element but those where one of the two numbers inverted on the way is 0.
\<close>

theorem hash_to_curve_on_curve:
  assumes "f2elm r"
  shows "case h2c_map r of (out, T, h) \<Rightarrow> fp_abs T = 0 \<or> fp_abs h = 0 \<or>
    (fst (HashToCurve r) = ECCRYPTO_SUCCESS \<and> on_curve (aff_point out) \<and> aff_normal (snd (HashToCurve r)) \<and>
     aff_ecp (snd (HashToCurve r)) = zmul 392 (aff_ecp out))"
proof -
  obtain out T h where m: "h2c_map r = (out, T, h)" by (metis prod_cases3)
  have "fst (HashToCurve r) = ECCRYPTO_SUCCESS" by (simp add: HashToCurve_def Let_def m)
  then show ?thesis
    using HashToCurve_spec(4,5) [OF assms m] h2c_map_spec(2) [OF assms m] by (auto simp: m)
qed

theorem hash_to_curve_on_curve_witness:
  "aff_normal (snd (HashToCurve ([0, 0], [0, 0]))) \<and> fst (HashToCurve ([0, 0], [0, 0])) = ECCRYPTO_SUCCESS"
proof -
  have "f2elm ([0, 0], [0, 0])" by (simp add: f2elm_def felm_def)
  from hash_to_curve_on_curve [OF this] show ?thesis
    using h2c_map_zero by (auto split: prod.splits)
qed

text \<open>
  C38. With point operations that keep the contract of the interface, every proof that an initialized
  secret key makes is accepted by its public key, and the value of the proof is the value that the key
  computes without a proof. The hash of the input has to lie in the prime-order subgroup, and the
  encoding of the proof's point has to be one that loading and saving gives back.
\<close>

theorem vrf_proofs_verify:
  assumes "ec_group ops pt valid normal svalid sval n g gen_ok" "gen_ok"
    and "svalid k" "\<not> ec_scalar_is_zero ops k" "sk = compute_public_key ops (sk0\<lparr>sk_key_scalar := k\<rparr>)"
    and "valid (ec_hash_point ops data (sk_h2c_salt sk))"
    and "get_vrf_proof ops sk data = Inr pf" "reencodes ops (vp_gamma pf)"
  shows "verify_vrf_proof ops (sk_pk sk) data pf = Inr True \<and>
    get_vrf_value ops sk data = Inr (compute_vrf_value ops pf)"
  using ec_group.vrf_complete [OF assms] vrf_value_of_proof [of ops sk data] assms(7) by simp

text \<open>A small group that keeps the contract: the integers modulo 256.\<close>

definition toy_ops :: "(byte, byte list) ec_ops" where
  "toy_ops =
     \<lparr>ec_descriptor = ''toy'', ec_default = 0, ec_hash_point = (\<lambda>data _. hd data),
      ec_MakeRandomNonzeroScalar = (\<lambda>_. None), ec_MakeSeededScalar = (\<lambda>_. replicate 32 1),
      ec_MakeGeneratorMultiple = hd, ec_MultiplyScalar = (\<lambda>k l. (hd k * hd l) # replicate 31 0),
      ec_SubtractScalar = (\<lambda>k l. (hd k - hd l) # replicate 31 0), ec_ReduceModOrder = id,
      ec_scalar_multiply = (\<lambda>P k _. (True, hd k * P)),
      ec_double_scalar_multiply = (\<lambda>P k l. (True, hd k * P + hd l)),
      ec_in_prime_order_subgroup = (\<lambda>_. True), ec_add = (+), ec_save = (\<lambda>P. [P]),
      ec_load = (\<lambda>bs. Inr (hd bs)), ec_scalar_zero = replicate 32 0,
      ec_scalar_is_zero = (\<lambda>k. k = replicate 32 0), ec_scalar_load = id, ec_scalar_save = id\<rparr>"

lemma nmul_byte: "nmul n (x :: byte) = of_nat n * x"
  by (induction n) (simp_all add: algebra_simps)

lemma byte_256: "nmul 256 (x :: byte) = 0"
proof -
  have "(of_nat 256 :: byte) = 0" by (simp only: word_of_nat_eq_0_iff) simp
  then show ?thesis unfolding nmul_byte by (simp only: mult_zero_left)
qed

lemma byte_mod: "(unat (a - b) + unat b) mod 256 = unat (a :: byte)" "(unat a * unat b) mod 256 = unat (a * b)"
  using unat_word_ariths(1) [of "a - b" b] unat_word_ariths(2) [of a b] by simp_all

lemma toy_group:
  "ec_group toy_ops id (\<lambda>_. True) (\<lambda>_. True) (\<lambda>k. length k = 32) (\<lambda>k. unat (hd k)) 256 1 True"
proof
  fix h :: "byte list"
  have "unat (hd h) < 2 ^ LENGTH(8)" by (rule unsigned_less)
  then show "length h = hash_size \<Longrightarrow> length (ec_ReduceModOrder toy_ops h) = hash_size \<and>
      unat (hd (ec_scalar_load toy_ops (ec_ReduceModOrder toy_ops h))) < 256" by (simp add: toy_ops_def)
qed (simp_all only: byte_256, simp_all add: toy_ops_def nmul_byte byte_mod)

theorem vrf_proofs_verify_witness:
  "\<exists>pf. get_vrf_proof toy_ops (compute_public_key toy_ops ((sk_default toy_ops)\<lparr>sk_key_scalar := replicate 32 7\<rparr>)) [5] = Inr pf \<and>
    verify_vrf_proof toy_ops (sk_pk (compute_public_key toy_ops ((sk_default toy_ops)\<lparr>sk_key_scalar := replicate 32 7\<rparr>))) [5] pf = Inr True"
proof -
  define sk where "sk = compute_public_key toy_ops ((sk_default toy_ops)\<lparr>sk_key_scalar := replicate 32 7\<rparr>)"
  have seven: "replicate 32 7 \<noteq> replicate 32 (0 :: byte)" by (auto simp: replicate_eq_replicate)
  then have nz: "\<not> ec_scalar_is_zero toy_ops (replicate 32 7)" by (simp add: toy_ops_def)
  then have "sk_is_initialized toy_ops sk" by (simp add: sk_def compute_public_key_def Let_def sk_is_initialized_def)
  then obtain pf where pf: "get_vrf_proof toy_ops sk [5] = Inr pf" by (simp add: get_vrf_proof_def throw_if_uninitialized_def Let_def)
  have "\<exists>P. vp_gamma pf = [P]" using pf by (auto simp: get_vrf_proof_def throw_if_uninitialized_def Let_def toy_ops_def split: if_splits)
  then have "reencodes toy_ops (vp_gamma pf)" by (auto simp: reencodes_def toy_ops_def)
  from vrf_proofs_verify [OF toy_group TrueI _ nz sk_def _ pf this] have "verify_vrf_proof toy_ops (sk_pk sk) [5] pf = Inr True"
    by simp
  then show ?thesis using pf unfolding sk_def by blast
qed


text \<open>
  C40. Inverting a scalar returns, for every scalar, its power with exponent the order minus 2, modulo the
  order; so the check for the prime-order subgroup, which inverts the cofactor, returns for every point.
\<close>

theorem scalar_inversion_returns:
  "(\<exists>b. InvertScalar a = Some b \<and> scalar_ok b \<and> scalar_val b = scalar_val a ^ (order_r - 2) mod order_r) \<and>
   (\<exists>c. in_prime_order_subgroup P = Some c)"
  using InvertScalar_spec in_prime_order_subgroup_returns by blast

end
